(* ===== verification/Prelude.thy ===== *)
theory Prelude
  imports Main "HOL-Library.Word"
begin

text \<open>
  Shared vocabulary of the development: the C integer types, the result type of kernel code
  that may \<open>panic\<close>, the scan loops \<open>for (p = tab; p < &tab[N]; p++) if (...) ...\<close> that the
  kernel uses on all of its fixed-size tables, and the byte-addressed memory with its
  little-endian 32-bit loads and stores.  The lemmas here are the ones that the components
  share.
\<close>

unbundle bit_operations_syntax

named_theorems res_simps \<open>evaluation and inversion of results that may panic\<close>
named_theorems scan_simps \<open>characterisation of table scans\<close>

section \<open>C types\<close>

type_synonym u8 = "8 word"
type_synonym u16 = "16 word"
type_synonym u32 = "32 word"

section \<open>Results\<close>

text \<open>
  \<open>panic\<close> (console.c) never returns: an operation that may reach it has a result of the sum
  type below, \<open>Inl\<close> being the panic with the message of the source.  \<open>Undefined\<close> is a step that the
  C language does not define (a load through a null pointer, a division by zero), with the place
  it happens; \<open>Diverges\<close> is a loop whose bound in the model is exhausted.  The file system code holds
  locks over long stretches and is modelled as runs without a sleep: \<open>Waits\<close> ends a run that finds a lock or
  the log taken, with the channel the caller sleeps on.  Sleep channels are the addresses that the kernel
  sleeps on, named by the object they belong to.
\<close>

datatype chan =
    CProc nat
  | CTicks
  | CLog
  | CIdeBuf nat
  | CBufLock nat
  | CInodeLock nat
  | CPipeRead u32
  | CPipeWrite u32
  | CInput

datatype stop = Panic string | Undefined string | Diverges | Waits chan

type_synonym 'a res = "stop + 'a"

definition bind_res :: "'a res \<Rightarrow> ('a \<Rightarrow> 'b res) \<Rightarrow> 'b res" where
  "bind_res r f = (case r of Inl e \<Rightarrow> Inl e | Inr x \<Rightarrow> f x)"

definition guard_res :: "bool \<Rightarrow> string \<Rightarrow> 'a res \<Rightarrow> 'a res" where
  "guard_res bad msg k = (if bad then Inl (Panic msg) else k)"

text \<open>
  \<open>ok_res r Q\<close> is total correctness: the run \<open>r\<close> ends without a stop, and its result satisfies \<open>Q\<close>.
\<close>

definition ok_res :: "'a res \<Rightarrow> ('a \<Rightarrow> bool) \<Rightarrow> bool" where
  "ok_res r Q \<longleftrightarrow> (case r of Inl e \<Rightarrow> False | Inr x \<Rightarrow> Q x)"

section \<open>Scans over fixed-size tables\<close>

text \<open>
  \<open>find_index P xs\<close> is the index at which the loop
  \<open>for (i = 0; i < N; i++) if (P(tab[i])) return i;\<close> stops, and \<open>None\<close> when it runs to the end.
\<close>

primrec find_index :: "('a \<Rightarrow> bool) \<Rightarrow> 'a list \<Rightarrow> nat option" where
  "find_index P [] = None"
| "find_index P (x # xs) = (if P x then Some 0 else map_option Suc (find_index P xs))"

section \<open>Memory\<close>

type_synonym mem = "u32 \<Rightarrow> u8"

definition rd32 :: "mem \<Rightarrow> u32 \<Rightarrow> u32" where
  "rd32 m a =
     ucast (m a) OR push_bit 8 (ucast (m (a + 1))) OR push_bit 16 (ucast (m (a + 2)))
       OR push_bit 24 (ucast (m (a + 3)))"

definition wr32 :: "mem \<Rightarrow> u32 \<Rightarrow> u32 \<Rightarrow> mem" where
  "wr32 m a v =
     m(a := ucast v, a + 1 := ucast (drop_bit 8 v), a + 2 := ucast (drop_bit 16 v),
       a + 3 := ucast (drop_bit 24 v))"

section \<open>Lemmas on results\<close>

lemma bind_res_Inr [simp, res_simps]: "bind_res (Inr x) f = f x"
  by (simp add: bind_res_def)

lemma bind_res_Inl [simp, res_simps]: "bind_res (Inl e) f = Inl e"
  by (simp add: bind_res_def)

lemma bind_res_eq_Inr_iff [res_simps]:
  "bind_res r f = Inr y \<longleftrightarrow> (\<exists>x. r = Inr x \<and> f x = Inr y)"
  by (cases r) simp_all

lemma bind_res_eq_InrE:
  assumes "bind_res r f = Inr y"
  obtains x where "r = Inr x" and "f x = Inr y"
  using assms by (auto simp: bind_res_eq_Inr_iff)

lemma guard_res_True [simp, res_simps]: "guard_res True msg k = Inl (Panic msg)"
  by (simp add: guard_res_def)

lemma guard_res_False [simp, res_simps]: "guard_res False msg k = k"
  by (simp add: guard_res_def)

lemma guard_res_eq_Inr_iff [simp, res_simps]:
  "guard_res bad msg k = Inr y \<longleftrightarrow> \<not> bad \<and> k = Inr y"
  by (simp add: guard_res_def)

text \<open>Weakest preconditions of the ways in which runs are composed.\<close>

lemma ok_res_simps [simp]:
  "ok_res (Inr x) Q \<longleftrightarrow> Q x" "\<not> ok_res (Inl e) Q" "ok_res (guard_res b m k) Q \<longleftrightarrow> \<not> b \<and> ok_res k Q"
  by (simp_all add: ok_res_def guard_res_def)

lemma ok_res_bind: "ok_res (bind_res r f) Q \<longleftrightarrow> ok_res r (\<lambda>x. ok_res (f x) Q)"
  by (cases r) (simp_all add: ok_res_def)

lemma ok_res_mono: "ok_res r P \<Longrightarrow> (\<And>x. P x \<Longrightarrow> Q x) \<Longrightarrow> ok_res r Q"
  by (cases r) (simp_all add: ok_res_def)

lemma ok_res_seq: "ok_res r P \<Longrightarrow> (\<And>x. P x \<Longrightarrow> ok_res (f x) Q) \<Longrightarrow> ok_res (bind_res r f) Q"
  unfolding ok_res_bind by (rule ok_res_mono)

lemma ok_resE:
  assumes "ok_res r Q"
  obtains x where "r = Inr x" and "Q x"
  using assms by (cases r) (simp_all add: ok_res_def)

lemma ok_res_iff: "ok_res r Q \<longleftrightarrow> (\<exists>x. r = Inr x \<and> Q x)"
  by (cases r) (simp_all add: ok_res_def)

section \<open>Lemmas on scans\<close>

lemma find_index_Some_iff [scan_simps]:
  "find_index P xs = Some i \<longleftrightarrow> i < length xs \<and> P (xs ! i) \<and> (\<forall>j < i. \<not> P (xs ! j))"
proof (induction xs arbitrary: i)
  case Nil
  show ?case by simp
next
  case (Cons x xs)
  show ?case by (cases i) (auto simp: Cons.IH less_Suc_eq_0_disj)
qed

lemma find_index_None_iff [scan_simps]:
  "find_index P xs = None \<longleftrightarrow> (\<forall>x \<in> set xs. \<not> P x)"
  by (induction xs) auto

lemma find_index_SomeD:
  assumes "find_index P xs = Some i"
  shows "i < length xs" "P (xs ! i)" "\<And>j. j < i \<Longrightarrow> \<not> P (xs ! j)"
  using assms by (auto simp: scan_simps)

lemma find_index_ex:
  assumes "j < length xs" "P (xs ! j)"
  obtains i where "find_index P xs = Some i" "i \<le> j"
proof -
  have "\<exists>x \<in> set xs. P x" using assms nth_mem by blast
  then obtain i where i: "find_index P xs = Some i"
    using find_index_None_iff[of P xs] by (cases "find_index P xs") auto
  have "\<not> j < i" using find_index_SomeD(3)[OF i] assms(2) by blast
  with that[OF i] show thesis by simp
qed

lemma find_index_unique:
  assumes "i < length xs" "P (xs ! i)"
    and "\<And>j. j < length xs \<Longrightarrow> P (xs ! j) \<Longrightarrow> j = i"
  shows "find_index P xs = Some i"
proof -
  have "\<not> P (xs ! j)" if "j < i" for j
    using that assms by (metis less_trans nat_neq_iff)
  with assms(1,2) show ?thesis by (simp add: find_index_Some_iff)
qed

lemma find_index_cong_list:
  assumes "length xs = length ys" "\<And>i. i < length xs \<Longrightarrow> P (xs ! i) = Q (ys ! i)"
  shows "find_index P xs = find_index Q ys"
proof -
  have "list_all2 (\<lambda>x y. P x = Q y) xs ys"
    using assms by (simp add: list_all2_conv_all_nth)
  then show ?thesis by (induction rule: list_all2_induct) simp_all
qed

lemma nth_update_if: "j < length xs \<Longrightarrow> xs[i := x] ! j = (if i = j then x else xs ! j)"
  by (cases "i = j") auto

section \<open>Lemmas on 32-bit words\<close>

lemma unat_u32_less: "unat (w::u32) < 4294967296"
  by (rule order_less_le_trans[OF unsigned_less]) simp

lemma unat_of_nat_u32: "n < 4294967296 \<Longrightarrow> unat (of_nat n :: u32) = n"
  by (simp add: unat_of_nat take_bit_nat_eq_self)

lemma unat_sub_u32:
  "unat (y - z :: u32) =
     (if unat z \<le> unat y then unat y - unat z else unat y + 4294967296 - unat z)"
  by (simp add: unat_sub_if')

section \<open>Lemmas on memory\<close>

lemma rd32_wr32_same [simp]: "rd32 (wr32 m a v) a = v"
proof -
  have "rd32 (wr32 m a v) a =
      ucast (ucast v :: u8) OR push_bit 8 (ucast (ucast (drop_bit 8 v) :: u8))
        OR push_bit 16 (ucast (ucast (drop_bit 16 v) :: u8))
        OR push_bit 24 (ucast (ucast (drop_bit 24 v) :: u8))"
    by (simp add: rd32_def wr32_def)
  also have "\<dots> = v"
  proof (rule bit_word_eqI)
    fix n assume "n < LENGTH(32)"
    then consider "n < 8" | "8 \<le> n" "n < 16" | "16 \<le> n" "n < 24" | "24 \<le> n" "n < 32"
      by fastforce
    then show "bit (ucast (ucast v :: u8) OR push_bit 8 (ucast (ucast (drop_bit 8 v) :: u8))
        OR push_bit 16 (ucast (ucast (drop_bit 16 v) :: u8))
        OR push_bit 24 (ucast (ucast (drop_bit 24 v) :: u8)) :: u32) n = bit v n"
      by cases (auto simp: bit_simps)
  qed
  finally show ?thesis .
qed

text \<open>Two 32-bit cells that do not overlap do not interfere.\<close>

definition cells_disjoint :: "u32 \<Rightarrow> u32 \<Rightarrow> bool" where
  "cells_disjoint a b \<longleftrightarrow> 4 \<le> a - b \<and> 4 \<le> b - a"

lemma wr32_other_byte: "4 \<le> x - a \<Longrightarrow> wr32 m a v x = m x"
  by (auto simp: wr32_def word_le_nat_alt)

lemma word_three_le_cases: "(k::u32) \<le> 3 \<Longrightarrow> k = 0 \<or> k = 1 \<or> k = 2 \<or> k = 3"
  by unat_arith

lemma cell_byte_disjoint:
  assumes "cells_disjoint a b" "k = 0 \<or> k = 1 \<or> k = 2 \<or> k = (3::u32)"
  shows "4 \<le> b + k - a"
  using assms unfolding cells_disjoint_def by (elim disjE conjE) (simp; uint_arith)+

lemma rd32_wr32_other [simp]:
  assumes "cells_disjoint a b"
  shows "rd32 (wr32 m a v) b = rd32 m b"
proof -
  have "wr32 m a v (b + k) = m (b + k)" if "k = 0 \<or> k = 1 \<or> k = 2 \<or> k = 3" for k
    by (rule wr32_other_byte, rule cell_byte_disjoint[OF assms that])
  from this[of 0] this[of 1] this[of 2] this[of 3] show ?thesis
    by (simp add: rd32_def)
qed

end
