(* ===== verification/Spinlock.thy ===== *)
theory Spinlock
  imports Prelude
begin

text \<open>
  kernel/spinlock.c and the CPU lookup of kernel/proc.c.  The state is the per-CPU array
  \<open>cpus[]\<close> of proc.h together with the interrupt flag of each processor, which is found by its
  local APIC id: every operation takes the APIC id \<open>aid\<close> of the processor that executes it, which
  is what \<open>lapicid()\<close> reads from the hardware.

  The fields of \<open>struct cpu\<close> that only the context-switch assembly and the segmentation hardware
  read (\<open>scheduler\<close>, \<open>gdt\<close>, the rest of \<open>ts\<close>) are left out.
\<close>

named_theorems spin_defs \<open>definitions of the spinlock layer\<close>

section \<open>Per-CPU state\<close>

record cpu =
  c_apicid :: u8
  c_started :: bool
  c_ncli :: int
  c_intena :: bool
  c_proc :: "nat option"
  c_esp0 :: u32
  c_cr3 :: u32

record machine =
  cpus :: "cpu list"
  ncpu :: nat
  eflags_IF :: "u8 \<Rightarrow> bool"

definition cli :: "u8 \<Rightarrow> 'a machine_scheme \<Rightarrow> 'a machine_scheme" where
  "cli aid s = s\<lparr>eflags_IF := (eflags_IF s)(aid := False)\<rparr>"

definition sti :: "u8 \<Rightarrow> 'a machine_scheme \<Rightarrow> 'a machine_scheme" where
  "sti aid s = s\<lparr>eflags_IF := (eflags_IF s)(aid := True)\<rparr>"

definition upd_cpu :: "nat \<Rightarrow> (cpu \<Rightarrow> cpu) \<Rightarrow> 'a machine_scheme \<Rightarrow> 'a machine_scheme" where
  "upd_cpu i f s = s\<lparr>cpus := (cpus s)[i := f (cpus s ! i)]\<rparr>"

definition mycpu :: "u8 \<Rightarrow> 'a machine_scheme \<Rightarrow> nat res" where
  "mycpu aid s =
     guard_res (eflags_IF s aid) ''mycpu called with interrupts enabled''
       (case find_index (\<lambda>c. c_apicid c = aid) (take (ncpu s) (cpus s)) of
          None \<Rightarrow> Inl (Panic ''unknown apicid'')
        | Some i \<Rightarrow> Inr i)"

definition cpuid :: "u8 \<Rightarrow> 'a machine_scheme \<Rightarrow> nat res" where
  "cpuid aid s = mycpu aid s"

section \<open>Nested interrupt disabling\<close>

definition pushcli :: "u8 \<Rightarrow> 'a machine_scheme \<Rightarrow> 'a machine_scheme res" where
  "pushcli aid s =
     (let e = eflags_IF s aid; s1 = cli aid s
      in bind_res (mycpu aid s1) (\<lambda>i.
           let s2 = (if c_ncli (cpus s1 ! i) = 0 then upd_cpu i (\<lambda>c. c\<lparr>c_intena := e\<rparr>) s1 else s1)
           in Inr (upd_cpu i (\<lambda>c. c\<lparr>c_ncli := c_ncli c + 1\<rparr>) s2)))"

definition popcli :: "u8 \<Rightarrow> 'a machine_scheme \<Rightarrow> 'a machine_scheme res" where
  "popcli aid s =
     guard_res (eflags_IF s aid) ''popcli - interruptible''
       (bind_res (mycpu aid s) (\<lambda>i.
          let s1 = upd_cpu i (\<lambda>c. c\<lparr>c_ncli := c_ncli c - 1\<rparr>) s
          in guard_res (c_ncli (cpus s1 ! i) < 0) ''popcli''
               (Inr (if c_ncli (cpus s1 ! i) = 0 \<and> c_intena (cpus s1 ! i) then sti aid s1
                     else s1))))"

definition myproc :: "u8 \<Rightarrow> 'a machine_scheme \<Rightarrow> (nat option \<times> 'a machine_scheme) res" where
  "myproc aid s =
     bind_res (pushcli aid s) (\<lambda>s1.
     bind_res (mycpu aid s1) (\<lambda>i.
     bind_res (popcli aid s1) (\<lambda>s2. Inr (c_proc (cpus s1 ! i), s2))))"

section \<open>Spin locks\<close>

record spinlock =
  lk_locked :: bool
  lk_name :: string
  lk_cpu :: "nat option"
  lk_pcs :: "u32 list"

definition initlock :: "string \<Rightarrow> spinlock \<Rightarrow> spinlock" where
  "initlock nm lk = lk\<lparr>lk_name := nm, lk_locked := False, lk_cpu := None\<rparr>"

definition holding :: "u8 \<Rightarrow> spinlock \<Rightarrow> 'a machine_scheme \<Rightarrow> (bool \<times> 'a machine_scheme) res" where
  "holding aid lk s =
     bind_res (pushcli aid s) (\<lambda>s1.
     bind_res (mycpu aid s1) (\<lambda>i.
       let r = lk_locked lk \<and> lk_cpu lk = Some i
       in bind_res (popcli aid s1) (\<lambda>s2. Inr (r, s2))))"

text \<open>
  The stack walk of \<open>getcallerpcs\<close>: \<open>n\<close> slots are left to fill, \<open>ebp\<close> is the frame pointer.
  The test against the frame pointers 0 and 0xffffffff and against the kernel base ends the walk
  and the remaining slots are zeroed.
\<close>

fun getcallerpcs_from :: "mem \<Rightarrow> nat \<Rightarrow> u32 \<Rightarrow> u32 list" where
  "getcallerpcs_from m 0 ebp = []"
| "getcallerpcs_from m (Suc n) ebp =
     (if ebp = 0 \<or> ebp < 0x80000000 \<or> ebp = 0xffffffff then replicate (Suc n) 0
      else rd32 m (ebp + 4) # getcallerpcs_from m n (rd32 m ebp))"

definition getcallerpcs :: "mem \<Rightarrow> u32 \<Rightarrow> u32 list" where
  "getcallerpcs m v = getcallerpcs_from m 10 (v - 8)"

text \<open>
  \<open>acquire\<close> in the atomic pieces in which other processors can observe it: the entry (interrupts
  off, deadlock check), one \<open>xchg\<close> of the spin loop, and the recording of the holder.  \<open>pcs\<close> is
  the call stack that \<open>getcallerpcs\<close> reports.
\<close>

definition acquire_enter :: "u8 \<Rightarrow> spinlock \<Rightarrow> 'a machine_scheme \<Rightarrow> 'a machine_scheme res" where
  "acquire_enter aid lk s =
     bind_res (pushcli aid s) (\<lambda>s1.
     bind_res (holding aid lk s1) (\<lambda>(h, s2). guard_res h ''acquire'' (Inr s2)))"

definition xchg_locked :: "spinlock \<Rightarrow> bool \<times> spinlock" where
  "xchg_locked lk = (lk_locked lk, lk\<lparr>lk_locked := True\<rparr>)"

definition acquire_record :: "u8 \<Rightarrow> u32 list \<Rightarrow> spinlock \<Rightarrow> 'a machine_scheme \<Rightarrow> spinlock res" where
  "acquire_record aid pcs lk s =
     bind_res (mycpu aid s) (\<lambda>i. Inr (lk\<lparr>lk_cpu := Some i, lk_pcs := pcs\<rparr>))"

text \<open>
  The whole of \<open>acquire\<close> on a processor that is not interfered with: \<open>None\<close> is the loop that spins
  for ever on a lock that another processor holds and does not give back.
\<close>

definition acquire ::
    "u8 \<Rightarrow> u32 list \<Rightarrow> spinlock \<Rightarrow> 'a machine_scheme \<Rightarrow> (spinlock \<times> 'a machine_scheme) option res" where
  "acquire aid pcs lk s =
     bind_res (acquire_enter aid lk s) (\<lambda>s1.
       let (old, lk1) = xchg_locked lk
       in if old then Inr None
          else bind_res (acquire_record aid pcs lk1 s1) (\<lambda>lk2. Inr (Some (lk2, s1))))"

definition release_clear :: "u8 \<Rightarrow> spinlock \<Rightarrow> 'a machine_scheme \<Rightarrow> (spinlock \<times> 'a machine_scheme) res" where
  "release_clear aid lk s =
     bind_res (holding aid lk s) (\<lambda>(h, s1).
       guard_res (\<not> h) ''release''
         (Inr (lk\<lparr>lk_pcs := (lk_pcs lk)[0 := 0], lk_cpu := None\<rparr>, s1)))"

definition release_unlock :: "u8 \<Rightarrow> spinlock \<Rightarrow> 'a machine_scheme \<Rightarrow> (spinlock \<times> 'a machine_scheme) res" where
  "release_unlock aid lk s =
     bind_res (popcli aid s) (\<lambda>s1. Inr (lk\<lparr>lk_locked := False\<rparr>, s1))"

definition release :: "u8 \<Rightarrow> spinlock \<Rightarrow> 'a machine_scheme \<Rightarrow> (spinlock \<times> 'a machine_scheme) res" where
  "release aid lk s =
     bind_res (release_clear aid lk s) (\<lambda>(lk1, s1). release_unlock aid lk1 s1)"

section \<open>Several processors contending for one lock\<close>

text \<open>
  The interleaving of the processors on one lock.  A processor is outside the lock, spinning, has
  won the \<open>xchg\<close> but not yet recorded itself, is in its critical section, or has cleared the
  holder but not yet the lock word.  While outside, a processor may also turn its interrupts on or
  off, as other code does.
\<close>

datatype lock_pc = Outside | Spinning | Got | Inside | Leaving

record lock_sys =
  ls_lock :: spinlock
  ls_m :: machine
  ls_pc :: "nat \<Rightarrow> lock_pc"

inductive lock_step :: "lock_sys \<Rightarrow> lock_sys \<Rightarrow> bool" where
  ls_flag: "\<lbrakk>i < ncpu (ls_m s); ls_pc s i = Outside; c_ncli (cpus (ls_m s) ! i) = 0;
      m' = sti (c_apicid (cpus (ls_m s) ! i)) (ls_m s) \<or> m' = cli (c_apicid (cpus (ls_m s) ! i)) (ls_m s)\<rbrakk>
    \<Longrightarrow> lock_step s (s\<lparr>ls_m := m'\<rparr>)"
| ls_enter: "\<lbrakk>i < ncpu (ls_m s); ls_pc s i = Outside;
      acquire_enter (c_apicid (cpus (ls_m s) ! i)) (ls_lock s) (ls_m s) = Inr m'\<rbrakk>
    \<Longrightarrow> lock_step s (s\<lparr>ls_m := m', ls_pc := (ls_pc s)(i := Spinning)\<rparr>)"
| ls_spin: "\<lbrakk>i < ncpu (ls_m s); ls_pc s i = Spinning; xchg_locked (ls_lock s) = (True, lk')\<rbrakk>
    \<Longrightarrow> lock_step s (s\<lparr>ls_lock := lk'\<rparr>)"
| ls_win: "\<lbrakk>i < ncpu (ls_m s); ls_pc s i = Spinning; xchg_locked (ls_lock s) = (False, lk')\<rbrakk>
    \<Longrightarrow> lock_step s (s\<lparr>ls_lock := lk', ls_pc := (ls_pc s)(i := Got)\<rparr>)"
| ls_record: "\<lbrakk>i < ncpu (ls_m s); ls_pc s i = Got;
      acquire_record (c_apicid (cpus (ls_m s) ! i)) pcs (ls_lock s) (ls_m s) = Inr lk'\<rbrakk>
    \<Longrightarrow> lock_step s (s\<lparr>ls_lock := lk', ls_pc := (ls_pc s)(i := Inside)\<rparr>)"
| ls_clear: "\<lbrakk>i < ncpu (ls_m s); ls_pc s i = Inside;
      release_clear (c_apicid (cpus (ls_m s) ! i)) (ls_lock s) (ls_m s) = Inr (lk', m')\<rbrakk>
    \<Longrightarrow> lock_step s (s\<lparr>ls_lock := lk', ls_m := m', ls_pc := (ls_pc s)(i := Leaving)\<rparr>)"
| ls_unlock: "\<lbrakk>i < ncpu (ls_m s); ls_pc s i = Leaving;
      release_unlock (c_apicid (cpus (ls_m s) ! i)) (ls_lock s) (ls_m s) = Inr (lk', m')\<rbrakk>
    \<Longrightarrow> lock_step s (s\<lparr>ls_lock := lk', ls_m := m', ls_pc := (ls_pc s)(i := Outside)\<rparr>)"

section \<open>Well-formed machines\<close>

definition cpu_at :: "u8 \<Rightarrow> nat \<Rightarrow> 'a machine_scheme \<Rightarrow> bool" where
  "cpu_at aid i s \<longleftrightarrow> i < ncpu s \<and> c_apicid (cpus s ! i) = aid"

definition wf_machine :: "'a machine_scheme \<Rightarrow> bool" where
  "wf_machine s \<longleftrightarrow> ncpu s \<le> length (cpus s) \<and>
     (\<forall>i < ncpu s. \<forall>j < ncpu s. c_apicid (cpus s ! i) = c_apicid (cpus s ! j) \<longrightarrow> i = j)"

text \<open>Interrupts are off on every processor whose \<open>ncli\<close> depth is positive.\<close>

definition cli_ok :: "nat \<Rightarrow> 'a machine_scheme \<Rightarrow> bool" where
  "cli_ok i s \<longleftrightarrow> 0 \<le> c_ncli (cpus s ! i) \<and>
     (0 < c_ncli (cpus s ! i) \<longrightarrow> \<not> eflags_IF s (c_apicid (cpus s ! i)))"

definition in_lock :: "lock_pc \<Rightarrow> bool" where
  "in_lock pc \<longleftrightarrow> pc = Got \<or> pc = Inside \<or> pc = Leaving"

definition lock_inv :: "lock_sys \<Rightarrow> bool" where
  "lock_inv s \<longleftrightarrow>
     wf_machine (ls_m s) \<and>
     (\<forall>i < ncpu (ls_m s). cli_ok i (ls_m s)) \<and>
     (\<forall>i < ncpu (ls_m s). ls_pc s i \<noteq> Outside \<longrightarrow> 0 < c_ncli (cpus (ls_m s) ! i)) \<and>
     (\<forall>i < ncpu (ls_m s). in_lock (ls_pc s i) \<longrightarrow> lk_locked (ls_lock s)) \<and>
     (\<forall>i < ncpu (ls_m s). \<forall>j < ncpu (ls_m s). in_lock (ls_pc s i) \<longrightarrow> in_lock (ls_pc s j) \<longrightarrow> i = j) \<and>
     (\<forall>i < ncpu (ls_m s). lk_cpu (ls_lock s) = Some i \<longleftrightarrow> ls_pc s i = Inside)"

section \<open>Equations of the operations on well-formed machines\<close>

definition pushed :: "u8 \<Rightarrow> nat \<Rightarrow> 'a machine_scheme \<Rightarrow> 'a machine_scheme" where
  "pushed aid i s =
     upd_cpu i (\<lambda>c. c\<lparr>c_intena := (if c_ncli c = 0 then eflags_IF s aid else c_intena c),
                      c_ncli := c_ncli c + 1\<rparr>) (cli aid s)"

definition popped :: "u8 \<Rightarrow> nat \<Rightarrow> 'a machine_scheme \<Rightarrow> 'a machine_scheme" where
  "popped aid i s =
     (let s1 = upd_cpu i (\<lambda>c. c\<lparr>c_ncli := c_ncli c - 1\<rparr>) s
      in if c_ncli (cpus s ! i) = 1 \<and> c_intena (cpus s ! i) then sti aid s1 else s1)"

lemma upd_cpu_simps [simp]:
  "ncpu (upd_cpu i f s) = ncpu s"
  "eflags_IF (upd_cpu i f s) = eflags_IF s"
  "length (cpus (upd_cpu i f s)) = length (cpus s)"
  "machine.more (upd_cpu i f s) = machine.more s"
  by (simp_all add: upd_cpu_def)

lemma upd_cpu_nth:
  "i < length (cpus s) \<Longrightarrow> cpus (upd_cpu i f s) ! j = (if i = j then f (cpus s ! i) else cpus s ! j)"
  by (simp add: upd_cpu_def nth_list_update)

lemma cli_sti_simps [simp]:
  "ncpu (cli aid s) = ncpu s" "cpus (cli aid s) = cpus s"
  "eflags_IF (cli aid s) = (eflags_IF s)(aid := False)"
  "machine.more (cli aid s) = machine.more s"
  "ncpu (sti aid s) = ncpu s" "cpus (sti aid s) = cpus s"
  "eflags_IF (sti aid s) = (eflags_IF s)(aid := True)"
  "machine.more (sti aid s) = machine.more s"
  by (simp_all add: cli_def sti_def)

lemma cpu_at_length: "wf_machine s \<Longrightarrow> cpu_at aid i s \<Longrightarrow> i < length (cpus s)"
  by (auto simp: wf_machine_def cpu_at_def)

lemma mycpu_eq:
  assumes "wf_machine s" "cpu_at aid i s" "\<not> eflags_IF s aid"
  shows "mycpu aid s = Inr i"
proof -
  have "find_index (\<lambda>c. c_apicid c = aid) (take (ncpu s) (cpus s)) = Some i"
    using assms(1,2) by (intro find_index_unique) (auto simp: wf_machine_def cpu_at_def)
  then show ?thesis using assms(3) by (simp add: mycpu_def)
qed

lemma pushcli_eq:
  assumes "wf_machine s" "cpu_at aid i s"
  shows "pushcli aid s = Inr (pushed aid i s)"
proof -
  have "wf_machine (cli aid s)" "cpu_at aid i (cli aid s)" "\<not> eflags_IF (cli aid s) aid"
    using assms by (auto simp: wf_machine_def cpu_at_def)
  then have "mycpu aid (cli aid s) = Inr i" by (rule mycpu_eq)
  then show ?thesis
    using cpu_at_length[OF assms] by (simp add: pushcli_def Let_def pushed_def upd_cpu_def)
qed

lemma popcli_eq:
  assumes "wf_machine s" "cpu_at aid i s" "\<not> eflags_IF s aid" "0 < c_ncli (cpus s ! i)"
  shows "popcli aid s = Inr (popped aid i s)"
  using assms(3,4) mycpu_eq[OF assms(1-3)] cpu_at_length[OF assms(1,2)]
  by (simp add: popcli_def Let_def popped_def upd_cpu_nth)


text \<open>What a push or a pop leaves of the other processors and of the processor itself.\<close>

lemma pushed_simps [simp]:
  "ncpu (pushed aid i s) = ncpu s"
  "eflags_IF (pushed aid i s) = (eflags_IF s)(aid := False)"
  "length (cpus (pushed aid i s)) = length (cpus s)"
  by (simp_all add: pushed_def)

lemma popped_simps [simp]:
  "ncpu (popped aid i s) = ncpu s"
  "length (cpus (popped aid i s)) = length (cpus s)"
  by (simp_all add: popped_def Let_def)

lemma popped_IF:
  "eflags_IF (popped aid i s) =
     (if c_ncli (cpus s ! i) = 1 \<and> c_intena (cpus s ! i) then (eflags_IF s)(aid := True)
      else eflags_IF s)"
  by (simp add: popped_def Let_def)

lemma pushed_cpu:
  assumes "i < length (cpus s)"
  shows "cpus (pushed aid i s) ! j =
    (if i = j then (cpus s ! i)\<lparr>c_intena := (if c_ncli (cpus s ! i) = 0 then eflags_IF s aid
                                          else c_intena (cpus s ! i)),
                              c_ncli := c_ncli (cpus s ! i) + 1\<rparr>
     else cpus s ! j)"
  using assms by (simp add: pushed_def upd_cpu_nth)

lemma popped_cpu:
  assumes "i < length (cpus s)"
  shows "cpus (popped aid i s) ! j =
    (if i = j then (cpus s ! i)\<lparr>c_ncli := c_ncli (cpus s ! i) - 1\<rparr> else cpus s ! j)"
  using assms by (auto simp: popped_def Let_def upd_cpu_nth)

lemma same_apicids:
  assumes "ncpu s' = ncpu s" "length (cpus s') = length (cpus s)"
    and "\<And>j. c_apicid (cpus s' ! j) = c_apicid (cpus s ! j)"
  shows "wf_machine s' = wf_machine s" "cpu_at aid j s' = cpu_at aid j s"
  using assms by (simp_all add: wf_machine_def cpu_at_def)

lemma pushed_wf [simp]:
  assumes "i < length (cpus s)"
  shows "wf_machine (pushed aid i s) = wf_machine s" "cpu_at aid' j (pushed aid i s) = cpu_at aid' j s"
  using assms by (simp_all add: same_apicids[of "pushed aid i s" s] pushed_cpu)

lemma popped_wf [simp]:
  assumes "i < length (cpus s)"
  shows "wf_machine (popped aid i s) = wf_machine s" "cpu_at aid' j (popped aid i s) = cpu_at aid' j s"
  using assms by (simp_all add: same_apicids[of "popped aid i s" s] popped_cpu)

text \<open>A matched pair leaves the depth and the interrupt flag as they were.\<close>

lemma popped_pushed_IF:
  assumes "wf_machine s" "cpu_at aid i s" "cli_ok i s"
  shows "eflags_IF (popped aid i (pushed aid i s)) = eflags_IF s"
proof (cases "c_ncli (cpus s ! i) = 0")
  case True
  with cpu_at_length[OF assms(1,2)] show ?thesis
    by (simp add: popped_IF pushed_cpu fun_eq_iff)
next
  case False
  with assms have "\<not> eflags_IF s aid" by (auto simp: cli_ok_def cpu_at_def)
  with False cpu_at_length[OF assms(1,2)] show ?thesis
    by (simp add: popped_IF pushed_cpu fun_eq_iff)
qed

lemma popped_pushed_cpu:
  assumes "wf_machine s" "cpu_at aid i s"
  shows "cpus (popped aid i (pushed aid i s)) ! j =
    (if i = j \<and> c_ncli (cpus s ! i) = 0 then (cpus s ! i)\<lparr>c_intena := eflags_IF s aid\<rparr>
     else cpus s ! j)"
  using cpu_at_length[OF assms] by (auto simp: popped_cpu pushed_cpu)

lemma holding_eq:
  assumes "wf_machine s" "cpu_at aid i s" "0 \<le> c_ncli (cpus s ! i)"
  shows "holding aid lk s =
    Inr (lk_locked lk \<and> lk_cpu lk = Some i, popped aid i (pushed aid i s))"
proof -
  let ?s = "pushed aid i s"
  have wf: "wf_machine ?s" "cpu_at aid i ?s" "\<not> eflags_IF ?s aid"
    using assms cpu_at_length[OF assms(1,2)] by auto
  have "0 < c_ncli (cpus ?s ! i)"
    using assms cpu_at_length[OF assms(1,2)] by (simp add: pushed_cpu)
  from popcli_eq[OF wf this] mycpu_eq[OF wf] pushcli_eq[OF assms(1,2)] show ?thesis
    by (simp add: holding_def)
qed

text \<open>When interrupts are already pushed off, \<open>holding\<close> changes nothing at all.\<close>

lemma popped_pushed_id:
  assumes "wf_machine s" "cpu_at aid i s" "0 < c_ncli (cpus s ! i)" "\<not> eflags_IF s aid"
  shows "popped aid i (pushed aid i s) = s"
proof -
  have len: "i < length (cpus s)" by (rule cpu_at_length[OF assms(1,2)])
  have "cpus (popped aid i (pushed aid i s)) = cpus s"
    using assms(3) popped_pushed_cpu[OF assms(1,2)] by (intro nth_equalityI) auto
  moreover have "eflags_IF (popped aid i (pushed aid i s)) = eflags_IF s"
    using assms by (intro popped_pushed_IF) (auto simp: cli_ok_def cpu_at_def)
  moreover have "machine.more (popped aid i (pushed aid i s)) = machine.more s"
    by (simp add: popped_def pushed_def Let_def)
  ultimately show ?thesis by (simp add: machine.equality)
qed

lemma acquire_enter_eq:
  assumes "wf_machine s" "cpu_at aid i s" "cli_ok i s"
  shows "acquire_enter aid lk s =
    guard_res (lk_locked lk \<and> lk_cpu lk = Some i) ''acquire'' (Inr (pushed aid i s))"
proof -
  let ?s = "pushed aid i s"
  have wf: "wf_machine ?s" "cpu_at aid i ?s"
    using assms cpu_at_length[OF assms(1,2)] by auto
  have n: "0 < c_ncli (cpus ?s ! i)"
    using assms cpu_at_length[OF assms(1,2)] by (simp add: pushed_cpu cli_ok_def)
  from holding_eq[OF wf] n popped_pushed_id[OF wf n] pushcli_eq[OF assms(1,2)]
  show ?thesis by (simp add: acquire_enter_def)
qed

lemma release_clear_eq:
  assumes "wf_machine s" "cpu_at aid i s" "0 < c_ncli (cpus s ! i)" "\<not> eflags_IF s aid"
  shows "release_clear aid lk s =
    guard_res (\<not> (lk_locked lk \<and> lk_cpu lk = Some i)) ''release''
      (Inr (lk\<lparr>lk_pcs := (lk_pcs lk)[0 := 0], lk_cpu := None\<rparr>, s))"
  using assms holding_eq[OF assms(1,2)] popped_pushed_id[OF assms]
  by (simp add: release_clear_def)

lemma acquire_free_eq:
  assumes "wf_machine s" "cpu_at aid i s" "cli_ok i s" "\<not> lk_locked lk"
  shows "acquire aid pcs lk s =
    Inr (Some (lk\<lparr>lk_locked := True, lk_cpu := Some i, lk_pcs := pcs\<rparr>, pushed aid i s))"
proof -
  have "mycpu aid (pushed aid i s) = Inr i"
    using assms cpu_at_length[OF assms(1,2)] by (intro mycpu_eq) auto
  then show ?thesis
    using assms(4) acquire_enter_eq[OF assms(1-3), of lk]
    by (simp add: acquire_def xchg_locked_def acquire_record_def)
qed

lemma release_held_eq:
  assumes "wf_machine s" "cpu_at aid i s" "0 < c_ncli (cpus s ! i)" "\<not> eflags_IF s aid"
    and "lk_locked lk" "lk_cpu lk = Some i"
  shows "release aid lk s =
    Inr (lk\<lparr>lk_pcs := (lk_pcs lk)[0 := 0], lk_cpu := None, lk_locked := False\<rparr>, popped aid i s)"
  using assms(5,6) release_clear_eq[OF assms(1-4), of lk] popcli_eq[OF assms(1,2,4,3)]
  by (simp add: release_def release_unlock_def)

section \<open>Mutual exclusion\<close>

definition lock_init :: "machine \<Rightarrow> lock_sys" where
  "lock_init m =
     \<lparr>ls_lock = initlock ''lock'' \<lparr>lk_locked = False, lk_name = [], lk_cpu = None, lk_pcs = []\<rparr>,
      ls_m = m, ls_pc = (\<lambda>_. Outside)\<rparr>"

inductive lock_reach :: "machine \<Rightarrow> lock_sys \<Rightarrow> bool" for m where
  lr_init: "lock_reach m (lock_init m)"
| lr_step: "lock_reach m s \<Longrightarrow> lock_step s t \<Longrightarrow> lock_reach m t"

lemma apicid_neq:
  "wf_machine s \<Longrightarrow> i < ncpu s \<Longrightarrow> j < ncpu s \<Longrightarrow> i \<noteq> j \<Longrightarrow>
     c_apicid (cpus s ! i) \<noteq> c_apicid (cpus s ! j)"
  by (auto simp: wf_machine_def)

lemma pushed_cli_ok:
  assumes "wf_machine s" "cpu_at aid i s" "j < ncpu s" "cli_ok i s" "cli_ok j s"
  shows "cli_ok j (pushed aid i s)"
proof (cases "i = j")
  case True
  with assms cpu_at_length[OF assms(1,2)] show ?thesis
    by (simp add: cli_ok_def pushed_cpu cpu_at_def)
next
  case False
  with assms cpu_at_length[OF assms(1,2)] apicid_neq[OF assms(1), of i j] show ?thesis
    by (auto simp: cli_ok_def pushed_cpu cpu_at_def)
qed

lemma popped_cli_ok:
  assumes "wf_machine s" "cpu_at aid i s" "j < ncpu s" "cli_ok j s" "0 < c_ncli (cpus s ! i)"
  shows "cli_ok j (popped aid i s)"
proof (cases "i = j")
  case True
  with assms cpu_at_length[OF assms(1,2)] show ?thesis
    by (auto simp: cli_ok_def popped_cpu popped_IF cpu_at_def)
next
  case False
  with assms cpu_at_length[OF assms(1,2)] apicid_neq[OF assms(1), of i j] show ?thesis
    by (auto simp: cli_ok_def popped_cpu popped_IF cpu_at_def)
qed

lemma in_lock_simps [simp]:
  "in_lock Got" "in_lock Inside" "in_lock Leaving" "\<not> in_lock Outside" "\<not> in_lock Spinning"
  by (simp_all add: in_lock_def)

lemma lock_invI:
  assumes "wf_machine (ls_m s)"
    and "\<And>i. i < ncpu (ls_m s) \<Longrightarrow> cli_ok i (ls_m s)"
    and "\<And>i. i < ncpu (ls_m s) \<Longrightarrow> ls_pc s i \<noteq> Outside \<Longrightarrow> 0 < c_ncli (cpus (ls_m s) ! i)"
    and "\<And>i. i < ncpu (ls_m s) \<Longrightarrow> in_lock (ls_pc s i) \<Longrightarrow> lk_locked (ls_lock s)"
    and "\<And>i j. i < ncpu (ls_m s) \<Longrightarrow> j < ncpu (ls_m s) \<Longrightarrow>
           in_lock (ls_pc s i) \<Longrightarrow> in_lock (ls_pc s j) \<Longrightarrow> i = j"
    and "\<And>i. i < ncpu (ls_m s) \<Longrightarrow> lk_cpu (ls_lock s) = Some i \<longleftrightarrow> ls_pc s i = Inside"
  shows "lock_inv s"
  using assms unfolding lock_inv_def by blast

lemma lock_invD:
  assumes "lock_inv s" "i < ncpu (ls_m s)"
  shows "wf_machine (ls_m s)" "cpu_at (c_apicid (cpus (ls_m s) ! i)) i (ls_m s)"
    "cli_ok i (ls_m s)" "i < length (cpus (ls_m s))"
    "ls_pc s i \<noteq> Outside \<Longrightarrow> 0 < c_ncli (cpus (ls_m s) ! i)"
    "ls_pc s i \<noteq> Outside \<Longrightarrow> \<not> eflags_IF (ls_m s) (c_apicid (cpus (ls_m s) ! i))"
    "in_lock (ls_pc s i) \<Longrightarrow> lk_locked (ls_lock s)"
    "lk_cpu (ls_lock s) = Some i \<longleftrightarrow> ls_pc s i = Inside"
proof -
  show wf: "wf_machine (ls_m s)" and ok: "cli_ok i (ls_m s)"
    and pos: "ls_pc s i \<noteq> Outside \<Longrightarrow> 0 < c_ncli (cpus (ls_m s) ! i)"
    and "in_lock (ls_pc s i) \<Longrightarrow> lk_locked (ls_lock s)"
    and "lk_cpu (ls_lock s) = Some i \<longleftrightarrow> ls_pc s i = Inside"
    using assms unfolding lock_inv_def by blast+
  show "cpu_at (c_apicid (cpus (ls_m s) ! i)) i (ls_m s)" using assms(2) by (simp add: cpu_at_def)
  show "i < length (cpus (ls_m s))" using assms(2) wf by (simp add: wf_machine_def)
  show "ls_pc s i \<noteq> Outside \<Longrightarrow> \<not> eflags_IF (ls_m s) (c_apicid (cpus (ls_m s) ! i))"
    using ok pos by (simp add: cli_ok_def)
qed

lemma lock_inv_unique:
  "lock_inv s \<Longrightarrow> i < ncpu (ls_m s) \<Longrightarrow> j < ncpu (ls_m s) \<Longrightarrow>
     in_lock (ls_pc s i) \<Longrightarrow> in_lock (ls_pc s j) \<Longrightarrow> i = j"
  unfolding lock_inv_def by blast

lemma lock_inv_flag:
  assumes "lock_inv s" "i < ncpu (ls_m s)" "ls_pc s i = Outside" "c_ncli (cpus (ls_m s) ! i) = 0"
    and "m' = sti (c_apicid (cpus (ls_m s) ! i)) (ls_m s) \<or> m' = cli (c_apicid (cpus (ls_m s) ! i)) (ls_m s)"
  shows "lock_inv (s\<lparr>ls_m := m'\<rparr>)"
proof -
  have m': "ncpu m' = ncpu (ls_m s)" "cpus m' = cpus (ls_m s)" using assms(5) by auto
  have wf: "wf_machine m'" using lock_invD(1)[OF assms(1,2)] m' by (simp add: wf_machine_def)
  have ok: "cli_ok j m'" if j: "j < ncpu (ls_m s)" for j
  proof (cases "j = i")
    case True
    with assms(4) m' show ?thesis by (simp add: cli_ok_def)
  next
    case False
    with j apicid_neq[OF lock_invD(1)[OF assms(1,2)] j assms(2)] lock_invD(3)[OF assms(1) j]
    show ?thesis using assms(5) by (auto simp: cli_ok_def)
  qed
  show ?thesis
    by (rule lock_invI) (use wf ok m' lock_invD[OF assms(1)] lock_inv_unique[OF assms(1)] in simp_all)
qed

lemma lock_inv_enter:
  assumes "lock_inv s" "i < ncpu (ls_m s)" "ls_pc s i = Outside"
    and "acquire_enter (c_apicid (cpus (ls_m s) ! i)) (ls_lock s) (ls_m s) = Inr m'"
  shows "lock_inv (s\<lparr>ls_m := m', ls_pc := (ls_pc s)(i := Spinning)\<rparr>)"
proof -
  note d = lock_invD[OF assms(1,2)]
  have m': "m' = pushed (c_apicid (cpus (ls_m s) ! i)) i (ls_m s)"
    using assms(4) acquire_enter_eq[OF d(1-3)] by simp
  have ok: "cli_ok j m'" if "j < ncpu (ls_m s)" for j
    unfolding m' using that d(1-3) lock_invD(3)[OF assms(1)] by (intro pushed_cli_ok)
  have pos: "0 < c_ncli (cpus m' ! j)"
    if "j < ncpu (ls_m s)" "ls_pc s j \<noteq> Outside \<or> j = i" for j
    using that d(3,4) lock_invD(5)[OF assms(1) that(1)] by (auto simp: m' pushed_cpu cli_ok_def)
  show ?thesis
    by (rule lock_invI)
      (use d(1,4,8) assms(3) ok pos lock_invD(7,8)[OF assms(1)] lock_inv_unique[OF assms(1)] in
        \<open>auto simp: m' split: if_splits\<close>)
qed

lemma lock_inv_alone:
  assumes "lock_inv s" "i < ncpu (ls_m s)" "in_lock (ls_pc s i)" "j < ncpu (ls_m s)" "j \<noteq> i"
  shows "\<not> in_lock (ls_pc s j)" "ls_pc s j \<noteq> Inside"
  using assms lock_inv_unique[OF assms(1,2,4,3)] by auto

lemma lock_inv_unlock:
  assumes "lock_inv s" "i < ncpu (ls_m s)" "ls_pc s i = Leaving"
    and "release_unlock (c_apicid (cpus (ls_m s) ! i)) (ls_lock s) (ls_m s) = Inr (lk', m')"
  shows "lock_inv (s\<lparr>ls_lock := lk', ls_m := m', ls_pc := (ls_pc s)(i := Outside)\<rparr>)"
proof -
  note d = lock_invD[OF assms(1,2)]
  have out: "ls_pc s i \<noteq> Outside" using assms(3) by simp
  have m': "m' = popped (c_apicid (cpus (ls_m s) ! i)) i (ls_m s)"
    and lk': "lk' = (ls_lock s)\<lparr>lk_locked := False\<rparr>"
    using assms(4) popcli_eq[OF d(1,2,6,5)] out by (auto simp: release_unlock_def)
  have ok: "cli_ok j m'" if "j < ncpu (ls_m s)" for j
    unfolding m' using that d(1,2,5) out lock_invD(3)[OF assms(1)] by (intro popped_cli_ok) auto
  have pos: "0 < c_ncli (cpus m' ! j)"
    if "j < ncpu (ls_m s)" "ls_pc s j \<noteq> Outside" "j \<noteq> i" for j
    using that d(4) lock_invD(5)[OF assms(1)] by (simp add: m' popped_cpu)
  have alone: "\<not> in_lock (ls_pc s j)" "ls_pc s j \<noteq> Inside" if "j < ncpu (ls_m s)" "j \<noteq> i" for j
    using lock_inv_alone[OF assms(1,2) _ that] assms(3) by auto
  have "ncpu m' = ncpu (ls_m s)" "wf_machine m'" using d(1,4) by (simp_all add: m')
  then show ?thesis
    by (intro lock_invI)
      (use ok pos alone d(8) assms(3) lock_invD(8)[OF assms(1)] in \<open>auto simp: lk' split: if_splits\<close>)
qed

lemma lock_inv_win:
  assumes "lock_inv s" "i < ncpu (ls_m s)" "ls_pc s i = Spinning" "\<not> lk_locked (ls_lock s)"
  shows "lock_inv (s\<lparr>ls_lock := (ls_lock s)\<lparr>lk_locked := True\<rparr>, ls_pc := (ls_pc s)(i := Got)\<rparr>)"
proof -
  have no: "\<not> in_lock (ls_pc s j)" if "j < ncpu (ls_m s)" for j
    using assms(4) lock_invD(7)[OF assms(1) that] by blast
  then have "ls_pc s j \<noteq> Inside" if "j < ncpu (ls_m s)" for j using that in_lock_simps(2) by metis
  with no show ?thesis
    by (intro lock_invI)
      (use assms(3) lock_invD(1,3,5,8)[OF assms(1)] lock_invD(1)[OF assms(1,2)] in \<open>auto split: if_splits\<close>)
qed

lemma lock_inv_holder:
  assumes "lock_inv s" "i < ncpu (ls_m s)" "in_lock (ls_pc s i)" "in_lock pc'"
    and "lk_locked lk'" "lk_cpu lk' = (if pc' = Inside then Some i else None)"
  shows "lock_inv (s\<lparr>ls_lock := lk', ls_pc := (ls_pc s)(i := pc')\<rparr>)"
proof -
  have alone: "\<not> in_lock (ls_pc s j)" "ls_pc s j \<noteq> Inside" if "j < ncpu (ls_m s)" "j \<noteq> i" for j
    using lock_inv_alone[OF assms(1,2,3) that] by auto
  have "ls_pc s i \<noteq> Outside" using assms(3) by auto
  with alone show ?thesis
    by (intro lock_invI)
      (use assms(4-6) lock_invD(1,3,5)[OF assms(1)] lock_invD(1,5)[OF assms(1,2)] in \<open>auto split: if_splits\<close>)
qed

lemma lock_step_inv: "lock_step s t \<Longrightarrow> lock_inv s \<Longrightarrow> lock_inv t"
proof (induction rule: lock_step.induct)
  case (ls_flag i s m')
  then show ?case by (intro lock_inv_flag)
next
  case (ls_enter i s m')
  then show ?case by (intro lock_inv_enter)
next
  case (ls_spin i s lk')
  then have "s\<lparr>ls_lock := lk'\<rparr> = s" by (auto simp: xchg_locked_def)
  with ls_spin show ?case by simp
next
  case (ls_win i s lk')
  then show ?case using lock_inv_win[of s i] by (simp add: xchg_locked_def)
next
  case (ls_record i s pcs lk')
  note d = lock_invD[OF ls_record(4,1)]
  have "lk' = (ls_lock s)\<lparr>lk_cpu := Some i, lk_pcs := pcs\<rparr>"
    using ls_record(2,3) mycpu_eq[OF d(1,2)] d(6) by (simp add: acquire_record_def)
  with ls_record d(7) show ?case by (intro lock_inv_holder) simp_all
next
  case (ls_clear i s lk' m')
  note d = lock_invD[OF ls_clear(4,1)]
  have "lk' = (ls_lock s)\<lparr>lk_pcs := (lk_pcs (ls_lock s))[0 := 0], lk_cpu := None\<rparr>" "m' = ls_m s"
    using ls_clear(2,3) release_clear_eq[OF d(1,2,5,6)] by auto
  with ls_clear d(7) show ?case using lock_inv_holder[of s i Leaving lk'] by simp
next
  case (ls_unlock i s lk' m')
  then show ?case by (intro lock_inv_unlock)
qed

lemma lock_reach_inv:
  assumes "lock_reach m s" "wf_machine m" "\<forall>i < ncpu m. c_ncli (cpus m ! i) = 0"
  shows "lock_inv s"
  using assms
proof (induction rule: lock_reach.induct)
  case lr_init
  then show ?case by (auto simp: lock_inv_def lock_init_def initlock_def cli_ok_def)
next
  case (lr_step s t)
  then show ?case using lock_step_inv by blast
qed

section \<open>Properties\<close>

text \<open>A machine with two processors that have just started, for the witnesses.\<close>

definition two_cpus :: machine where
  "two_cpus =
     \<lparr>cpus = [\<lparr>c_apicid = 0, c_started = True, c_ncli = 0, c_intena = False, c_proc = None,
               c_esp0 = 0, c_cr3 = 0\<rparr>,
              \<lparr>c_apicid = 1, c_started = True, c_ncli = 0, c_intena = False, c_proc = None,
               c_esp0 = 0, c_cr3 = 0\<rparr>],
      ncpu = 2, eflags_IF = (\<lambda>_. True)\<rparr>"

lemma two_cpus_wf: "wf_machine two_cpus" "\<forall>i < ncpu two_cpus. c_ncli (cpus two_cpus ! i) = 0"
  by (auto simp: two_cpus_def wf_machine_def less_Suc_eq numeral_2_eq_2)

lemma two_cpus_got:
  "\<exists>s. lock_reach two_cpus s \<and> ncpu (ls_m s) = 2 \<and> ls_pc s 0 = Got"
proof -
  let ?s0 = "lock_init two_cpus"
  let ?m1 = "pushed 0 0 two_cpus"
  let ?s1 = "?s0\<lparr>ls_m := ?m1, ls_pc := (ls_pc ?s0)(0 := Spinning)\<rparr>"
  have m: "ls_m ?s0 = two_cpus" by (simp add: lock_init_def)
  have wf: "wf_machine two_cpus" "cpu_at 0 0 two_cpus" "cli_ok 0 two_cpus"
    using two_cpus_wf by (auto simp: two_cpus_def cpu_at_def cli_ok_def)
  have "lock_step ?s0 ?s1"
    by (rule ls_enter)
      (use acquire_enter_eq[OF wf, of "ls_lock ?s0"] in
        \<open>simp_all add: lock_init_def initlock_def two_cpus_def\<close>)
  with lr_init have r1: "lock_reach two_cpus ?s1" by (rule lr_step)
  have "lock_step ?s1 (?s1\<lparr>ls_lock := (ls_lock ?s1)\<lparr>lk_locked := True\<rparr>, ls_pc := (ls_pc ?s1)(0 := Got)\<rparr>)"
    by (rule ls_win) (simp_all add: xchg_locked_def lock_init_def initlock_def two_cpus_def)
  with r1 have "lock_reach two_cpus
      (?s1\<lparr>ls_lock := (ls_lock ?s1)\<lparr>lk_locked := True\<rparr>, ls_pc := (ls_pc ?s1)(0 := Got)\<rparr>)"
    by (rule lr_step)
  then show ?thesis by (intro exI conjI) (auto simp: two_cpus_def)
qed

text \<open>
  Property C13. Mutual exclusion of spin locks: in every interleaving of the processors that
  acquire and release one lock (kernel/spinlock.c), at most one of them is past the winning
  \<open>xchg\<close> of \<open>acquire\<close> and before the store that frees the lock in \<open>release\<close>.
\<close>

theorem spinlock_mutual_exclusion:
  assumes "lock_reach m s" "wf_machine m" "\<forall>i < ncpu m. c_ncli (cpus m ! i) = 0"
    and "i < ncpu (ls_m s)" "j < ncpu (ls_m s)" "in_lock (ls_pc s i)" "in_lock (ls_pc s j)"
  shows "i = j"
  using lock_reach_inv[OF assms(1-3)] assms(4-7) by (rule lock_inv_unique)

theorem spinlock_mutual_exclusion_witness:
  "\<exists>s. lock_reach two_cpus s \<and> in_lock (ls_pc s 0) \<and> \<not> in_lock (ls_pc s 1)"
proof -
  obtain s where s: "lock_reach two_cpus s" "ncpu (ls_m s) = 2" "ls_pc s 0 = Got"
    using two_cpus_got by blast
  have "\<not> in_lock (ls_pc s 1)"
    using spinlock_mutual_exclusion[OF s(1) two_cpus_wf, of 0 1] s(2,3) by auto
  with s show ?thesis by auto
qed

text \<open>
  Property C16. A processor that follows the protocol never reaches a panic of the lock code, and
  interrupts are off on it from the entry of \<open>acquire\<close> to the end of \<open>release\<close>: the deadlock check
  ``acquire'', the ownership check ``release'' and the \<open>popcli\<close> checks cannot fire.
\<close>

theorem spinlock_never_panics:
  assumes "lock_reach m s" "wf_machine m" "\<forall>i < ncpu m. c_ncli (cpus m ! i) = 0"
    and "i < ncpu (ls_m s)"
  shows "case ls_pc s i of
      Outside \<Rightarrow> \<exists>m'. acquire_enter (c_apicid (cpus (ls_m s) ! i)) (ls_lock s) (ls_m s) = Inr m' \<and>
                     \<not> eflags_IF m' (c_apicid (cpus (ls_m s) ! i))
    | Spinning \<Rightarrow> \<not> eflags_IF (ls_m s) (c_apicid (cpus (ls_m s) ! i))
    | Got \<Rightarrow> (\<exists>lk'. acquire_record (c_apicid (cpus (ls_m s) ! i)) pcs (ls_lock s) (ls_m s) = Inr lk') \<and>
             \<not> eflags_IF (ls_m s) (c_apicid (cpus (ls_m s) ! i))
    | Inside \<Rightarrow> (\<exists>r. release_clear (c_apicid (cpus (ls_m s) ! i)) (ls_lock s) (ls_m s) = Inr r) \<and>
             \<not> eflags_IF (ls_m s) (c_apicid (cpus (ls_m s) ! i))
    | Leaving \<Rightarrow> (\<exists>r. release_unlock (c_apicid (cpus (ls_m s) ! i)) (ls_lock s) (ls_m s) = Inr r) \<and>
             \<not> eflags_IF (ls_m s) (c_apicid (cpus (ls_m s) ! i))"
proof -
  note d = lock_invD[OF lock_reach_inv[OF assms(1-3)] assms(4)]
  show ?thesis
  proof (cases "ls_pc s i")
    case Outside
    then show ?thesis using acquire_enter_eq[OF d(1-3)] d(8) by simp
  next
    case Spinning
    then show ?thesis using d(6) by simp
  next
    case Got
    then show ?thesis using d(6) mycpu_eq[OF d(1,2)] by (simp add: acquire_record_def)
  next
    case Inside
    then show ?thesis using d(5-8) release_clear_eq[OF d(1,2), of "ls_lock s"] by simp
  next
    case Leaving
    then show ?thesis using d(5,6) popcli_eq[OF d(1,2)] by (simp add: release_unlock_def)
  qed
qed

theorem spinlock_never_panics_witness:
  "\<exists>s. lock_reach two_cpus s \<and> ls_pc s 0 = Got \<and>
     (\<exists>lk'. acquire_record (c_apicid (cpus (ls_m s) ! 0)) [] (ls_lock s) (ls_m s) = Inr lk')"
proof -
  obtain s where s: "lock_reach two_cpus s" "ncpu (ls_m s) = 2" "ls_pc s 0 = Got"
    using two_cpus_got by blast
  show ?thesis
    using spinlock_never_panics[OF s(1) two_cpus_wf, of 0 "[]"] s by auto
qed

text \<open>
  Property C17. An uncontended \<open>acquire\<close> succeeds with interrupts off and the matching \<open>release\<close>
  gives back the free lock with the interrupt flags of all processors and the \<open>ncli\<close> depth as
  they were before, also when it is nested inside other lock regions.
\<close>

theorem acquire_release_restores:
  assumes "wf_machine s" "cpu_at aid i s" "cli_ok i s" "\<not> lk_locked lk"
  shows "\<exists>lk1 s1 lk2 s2. acquire aid pcs lk s = Inr (Some (lk1, s1)) \<and>
     lk_locked lk1 \<and> \<not> eflags_IF s1 aid \<and>
     release aid lk1 s1 = Inr (lk2, s2) \<and> \<not> lk_locked lk2 \<and>
     eflags_IF s2 = eflags_IF s \<and>
     (\<forall>j. c_ncli (cpus s2 ! j) = c_ncli (cpus s ! j))"
proof -
  let ?lk1 = "lk\<lparr>lk_locked := True, lk_cpu := Some i, lk_pcs := pcs\<rparr>"
  let ?s1 = "pushed aid i s"
  have len: "i < length (cpus s)" by (rule cpu_at_length[OF assms(1,2)])
  have a: "acquire aid pcs lk s = Inr (Some (?lk1, ?s1))" by (rule acquire_free_eq[OF assms])
  have r: "release aid ?lk1 ?s1 =
      Inr (?lk1\<lparr>lk_pcs := (lk_pcs ?lk1)[0 := 0], lk_cpu := None, lk_locked := False\<rparr>, popped aid i ?s1)"
    by (rule release_held_eq) (use assms len in \<open>simp_all add: pushed_cpu cli_ok_def\<close>)
  have "c_ncli (cpus (popped aid i ?s1) ! j) = c_ncli (cpus s ! j)" for j
    by (simp add: popped_pushed_cpu[OF assms(1,2)])
  with a r popped_pushed_IF[OF assms(1-3)] show ?thesis by auto
qed

theorem acquire_release_restores_witness:
  "\<exists>lk1 s1. acquire 1 [] (initlock ''kmem'' \<lparr>lk_locked = False, lk_name = [], lk_cpu = None, lk_pcs = []\<rparr>)
       two_cpus = Inr (Some (lk1, s1)) \<and> \<not> eflags_IF s1 1"
proof -
  have "cpu_at 1 1 two_cpus" "cli_ok 1 two_cpus" by (simp_all add: two_cpus_def cpu_at_def cli_ok_def)
  from acquire_release_restores[OF two_cpus_wf(1) this,
      of "initlock ''kmem'' \<lparr>lk_locked = False, lk_name = [], lk_cpu = None, lk_pcs = []\<rparr>" "[]"]
  show ?thesis by (auto simp: initlock_def)
qed

end
