(* ===== verification/CString.thy ===== *)
theory CString
  imports Prelude
begin

text \<open>
  kernel/string.c, with the string instructions of kernel/x86.h that \<open>memset\<close> uses.  The routines
  that write (\<open>memset\<close>, \<open>memmove\<close>) act on the byte memory.  A pointer that is only read is a view
  \<open>nat \<Rightarrow> u8\<close> of the bytes that follow it, so that the same definitions serve memory, buffers and
  directory entries; \<open>strncpy\<close> and \<open>safestrcpy\<close> return the bytes they store, in order.
\<close>

section \<open>Writing memory\<close>

fun stosb :: "mem \<Rightarrow> u32 \<Rightarrow> u8 \<Rightarrow> nat \<Rightarrow> mem" where
  "stosb m a b 0 = m"
| "stosb m a b (Suc n) = stosb (m(a := b)) (a + 1) b n"

fun stosl :: "mem \<Rightarrow> u32 \<Rightarrow> u32 \<Rightarrow> nat \<Rightarrow> mem" where
  "stosl m a w 0 = m"
| "stosl m a w (Suc n) = stosl (wr32 m a w) (a + 4) w n"

definition memset :: "mem \<Rightarrow> u32 \<Rightarrow> u32 \<Rightarrow> u32 \<Rightarrow> mem" where
  "memset m dst c n =
     (if dst mod 4 = 0 \<and> n mod 4 = 0
      then let c' = c AND 0xFF
           in stosl m dst (push_bit 24 c' OR push_bit 16 c' OR push_bit 8 c' OR c') (unat (n div 4))
      else stosb m dst (ucast c) (unat n))"

text \<open>The two loops of \<open>memmove\<close>: downwards from the ends, upwards from the starts.\<close>

fun copy_down :: "mem \<Rightarrow> u32 \<Rightarrow> u32 \<Rightarrow> nat \<Rightarrow> mem" where
  "copy_down m d s 0 = m"
| "copy_down m d s (Suc n) = copy_down (m(d - 1 := m (s - 1))) (d - 1) (s - 1) n"

fun copy_up :: "mem \<Rightarrow> u32 \<Rightarrow> u32 \<Rightarrow> nat \<Rightarrow> mem" where
  "copy_up m d s 0 = m"
| "copy_up m d s (Suc n) = copy_up (m(d := m s)) (d + 1) (s + 1) n"

definition memmove :: "mem \<Rightarrow> u32 \<Rightarrow> u32 \<Rightarrow> u32 \<Rightarrow> mem" where
  "memmove m dst src n =
     (if src < dst \<and> src + n > dst then copy_down m (dst + n) (src + n) (unat n)
      else copy_up m dst src (unat n))"

definition memcpy :: "mem \<Rightarrow> u32 \<Rightarrow> u32 \<Rightarrow> u32 \<Rightarrow> mem" where
  "memcpy m dst src n = memmove m dst src n"

section \<open>Reading strings\<close>

type_synonym cview = "nat \<Rightarrow> u8"

definition at_mem :: "mem \<Rightarrow> u32 \<Rightarrow> cview" where
  "at_mem m p = (\<lambda>i. m (p + of_nat i))"

fun memcmp :: "cview \<Rightarrow> cview \<Rightarrow> nat \<Rightarrow> int" where
  "memcmp s1 s2 0 = 0"
| "memcmp s1 s2 (Suc n) =
     (if s1 0 \<noteq> s2 0 then uint (s1 0) - uint (s2 0)
      else memcmp (\<lambda>i. s1 (Suc i)) (\<lambda>i. s2 (Suc i)) n)"

fun strncmp :: "cview \<Rightarrow> cview \<Rightarrow> nat \<Rightarrow> int" where
  "strncmp p q 0 = 0"
| "strncmp p q (Suc n) =
     (if p 0 \<noteq> 0 \<and> p 0 = q 0 then strncmp (\<lambda>i. p (Suc i)) (\<lambda>i. q (Suc i)) n
      else uint (p 0) - uint (q 0))"

fun strncpy :: "cview \<Rightarrow> nat \<Rightarrow> u8 list" where
  "strncpy t 0 = []"
| "strncpy t (Suc n) =
     (if t 0 \<noteq> 0 then t 0 # strncpy (\<lambda>i. t (Suc i)) n else 0 # replicate n 0)"

fun safestrcpy :: "cview \<Rightarrow> nat \<Rightarrow> u8 list" where
  "safestrcpy t 0 = []"
| "safestrcpy t (Suc 0) = [0]"
| "safestrcpy t (Suc (Suc n)) =
     (if t 0 \<noteq> 0 then t 0 # safestrcpy (\<lambda>i. t (Suc i)) (Suc n) else [0, 0])"

text \<open>\<open>strlen\<close> does not return on a string without a NUL: that is the value \<open>None\<close>.\<close>

partial_function (option) strlen_from :: "cview \<Rightarrow> nat \<Rightarrow> nat option" where
  "strlen_from s n = (if s n = 0 then Some n else strlen_from s (Suc n))"

definition strlen :: "cview \<Rightarrow> nat option" where
  "strlen s = strlen_from s 0"

section \<open>Reference behaviour\<close>

definition fill :: "mem \<Rightarrow> u32 \<Rightarrow> u8 \<Rightarrow> nat \<Rightarrow> mem" where
  "fill m a b n = (\<lambda>x. if unat (x - a) < n then b else m x)"

definition copied :: "mem \<Rightarrow> u32 \<Rightarrow> u32 \<Rightarrow> nat \<Rightarrow> mem" where
  "copied m d s n = (\<lambda>x. if unat (x - d) < n then m (s + (x - d)) else m x)"

lemma fill_0 [simp]: "fill m a b 0 = m"
  by (simp add: fill_def)

lemma copied_0 [simp]: "copied m d s 0 = m"
  by (simp add: copied_def)

lemma unat_diff_Suc:
  assumes "x \<noteq> (a::u32)"
  shows "unat (x - a) = Suc (unat (x - (a + 1)))"
proof -
  have "unat (x - a) = Suc (unat (x - a - 1))"
  proof -
    have "unat (x - a) \<noteq> 0" "x - a \<noteq> 0" using assms by (simp_all add: unat_eq_zero)
    then show ?thesis by (simp add: unat_minus_one)
  qed
  then show ?thesis by (simp add: diff_diff_eq)
qed

lemma stosb_eq: "n \<le> 2 ^ 32 \<Longrightarrow> stosb m a b n = fill m a b n"
proof (induction n arbitrary: m a)
  case 0
  then show ?case by simp
next
  case (Suc n)
  have "fill (m(a := b)) (a + 1) b n x = fill m a b (Suc n) x" for x
    using unat_diff_Suc[of x a] by (cases "x = a") (auto simp: fill_def)
  with Suc show ?case by (simp add: fun_eq_iff)
qed

lemma byte_of_repeated:
  fixes c :: u32
  defines "w \<equiv> push_bit 24 (c AND 0xFF) OR push_bit 16 (c AND 0xFF) OR push_bit 8 (c AND 0xFF) OR (c AND 0xFF)"
  shows "(ucast w :: u8) = ucast c" "(ucast (drop_bit 8 w) :: u8) = ucast c"
    "(ucast (drop_bit 16 w) :: u8) = ucast c" "(ucast (drop_bit 24 w) :: u8) = ucast c"
proof -
  have m: "(0xFF :: u32) = mask 8" by (simp add: mask_eq_exp_minus_1)
  show "(ucast w :: u8) = ucast c" "(ucast (drop_bit 8 w) :: u8) = ucast c"
    "(ucast (drop_bit 16 w) :: u8) = ucast c" "(ucast (drop_bit 24 w) :: u8) = ucast c"
    unfolding w_def m by (rule bit_word_eqI; auto simp: bit_simps)+
qed

lemma unat_diff_add:
  fixes x a :: u32
  assumes "j < 2 ^ 32"
  shows "unat (x - (a + of_nat j)) =
    (if j \<le> unat (x - a) then unat (x - a) - j else unat (x - a) + 2 ^ 32 - j)"
proof -
  have e: "x - (a + of_nat j) = (x - a) - of_nat j" by (simp add: diff_diff_eq)
  have u: "unat (of_nat j :: u32) = j" using assms by (intro unat_of_nat_u32) simp
  show ?thesis unfolding e unat_sub_u32[of "x - a"] u by simp
qed

lemma fill_fill:
  assumes "j + k \<le> 2 ^ 32"
  shows "fill (fill m a b j) (a + of_nat j) b k = fill m a b (j + k)"
proof (cases "k = 0")
  case True
  then show ?thesis by simp
next
  case False
  with assms have j: "j < 2 ^ 32" by simp
  have "unat (x - a) < 2 ^ 32" for x using unat_u32_less[of "x - a"] by simp
  then show ?thesis
    using assms by (auto simp: fill_def fun_eq_iff unat_diff_add[OF j])
qed

lemma wr32_fill:
  assumes "ucast w = b" "ucast (drop_bit 8 w) = b" "ucast (drop_bit 16 w) = b" "ucast (drop_bit 24 w) = b"
  shows "wr32 m a w = fill m a b 4"
proof -
  have "unat (x - a) < 4 \<longleftrightarrow> x = a \<or> x = a + 1 \<or> x = a + 2 \<or> x = a + 3" for x
  proof -
    have "unat (x - a) < 4 \<longleftrightarrow> x - a = 0 \<or> x - a = 1 \<or> x - a = 2 \<or> x - a = 3"
      by unat_arith
    then show ?thesis by (auto simp: diff_eq_eq add.commute)
  qed
  then show ?thesis using assms by (simp add: fill_def wr32_def fun_eq_iff)
qed

lemma stosl_eq:
  assumes "ucast w = b" "ucast (drop_bit 8 w) = b" "ucast (drop_bit 16 w) = b" "ucast (drop_bit 24 w) = b"
    and "4 * n \<le> 2 ^ 32"
  shows "stosl m a w n = fill m a b (4 * n)"
  using assms(5)
proof (induction n arbitrary: m a)
  case 0
  then show ?case by simp
next
  case (Suc n)
  then show ?case
    using fill_fill[of 4 "4 * n" m a b] by (simp add: wr32_fill[OF assms(1-4)])
qed

lemma memset_eq_fill: "memset m dst c n = fill m dst (ucast c) (unat n)"
proof (cases "dst mod 4 = 0 \<and> n mod 4 = 0")
  case True
  have lt: "unat n < 2 ^ 32" using unat_u32_less[of n] by simp
  have "unat (n mod 4) = unat n mod 4" "unat (n div 4) = unat n div 4"
    by (simp_all add: unat_mod unat_div)
  with True have n: "4 * unat (n div 4) = unat n" by auto
  have "memset m dst c n =
      stosl m dst (push_bit 24 (c AND 0xFF) OR push_bit 16 (c AND 0xFF) OR push_bit 8 (c AND 0xFF)
        OR (c AND 0xFF)) (unat (n div 4))"
    unfolding memset_def Let_def using True by (rule if_P)
  also have "\<dots> = fill m dst (ucast c) (4 * unat (n div 4))"
    by (rule stosl_eq[OF byte_of_repeated]) (use lt n in simp)
  finally show ?thesis by (simp only: n)
next
  case False
  have "unat n \<le> 2 ^ 32" using unat_u32_less[of n] by simp
  then have "stosb m dst (ucast c) (unat n) = fill m dst (ucast c) (unat n)" by (rule stosb_eq)
  then show ?thesis unfolding memset_def by (simp only: if_not_P[OF False])
qed

lemma copy_up_eq:
  assumes "n < 2 ^ 32" "unat (d - s) = 0 \<or> n \<le> unat (d - s)"
  shows "copy_up m d s n = copied m d s n"
  using assms
proof (induction n arbitrary: m d s)
  case 0
  then show ?case by simp
next
  case (Suc n)
  have "copy_up (m(d := m s)) (d + 1) (s + 1) n = copied (m(d := m s)) (d + 1) (s + 1) n"
    using Suc.prems by (intro Suc.IH) auto
  moreover have "copied (m(d := m s)) (d + 1) (s + 1) n x = copied m d s (Suc n) x" for x
  proof (cases "x = d")
    case True
    have "unat (d - (d + 1)) = 2 ^ 32 - 1"
      by (simp add: unsigned_minus_1_eq_mask mask_eq_exp_minus_1)
    with True Suc.prems show ?thesis by (simp add: copied_def)
  next
    case False
    have e: "s + 1 + (x - (d + 1)) = s + (x - d)" by simp
    have "s + (x - d) \<noteq> d" if "unat (x - d) < Suc n"
    proof
      assume "s + (x - d) = d"
      then have "x - d = d - s" by (simp add: eq_diff_eq add.commute)
      with that Suc.prems False show False by (auto simp: unat_eq_zero)
    qed
    with False e unat_diff_Suc[OF False] show ?thesis by (auto simp: copied_def)
  qed
  ultimately show ?case by (simp add: fun_eq_iff)
qed

lemma copy_down_eq:
  assumes "n < 2 ^ 32" "unat (s - d) = 0 \<or> n \<le> unat (s - d)"
  shows "copy_down m (d + of_nat n) (s + of_nat n) n = copied m d s n"
  using assms
proof (induction n arbitrary: m)
  case 0
  then show ?case by simp
next
  case (Suc n)
  let ?d = "d + of_nat n" and ?s = "s + of_nat n"
  have un: "unat (of_nat n :: u32) = n"
    using Suc.prems(1) by (simp add: unat_of_nat_u32)
  have "copy_down m (d + of_nat (Suc n)) (s + of_nat (Suc n)) (Suc n) =
      copied (m(?d := m ?s)) d s n"
  proof -
    have e: "d + of_nat (Suc n) - 1 = ?d" "s + of_nat (Suc n) - 1 = ?s" by simp_all
    have "copy_down (m(?d := m ?s)) ?d ?s n = copied (m(?d := m ?s)) d s n"
      by (rule Suc.IH) (use Suc.prems in auto)
    then show ?thesis by (simp only: copy_down.simps e)
  qed
  moreover have "copied (m(?d := m ?s)) d s n x = copied m d s (Suc n) x" for x
  proof -
    have eq: "x = ?d \<longleftrightarrow> unat (x - d) = n"
    proof
      show "unat (x - d) = n" if "x = ?d" using that un by simp
      show "x = ?d" if "unat (x - d) = n"
      proof -
        have "x - d = of_nat n" using that by (metis word_nat_cases unat_of_nat_u32 un word_unat_eq_iff)
        then show ?thesis by (simp add: diff_eq_eq add.commute)
      qed
    qed
    have "s + (x - d) \<noteq> ?d" if "unat (x - d) < n"
    proof
      assume "s + (x - d) = ?d"
      then have e: "s - d = of_nat n - (x - d)" by (simp add: algebra_simps)
      have "unat (s - d) = n - unat (x - d)"
        unfolding e using that un unat_sub_u32[of "of_nat n" "x - d"] by simp
      with that Suc.prems show False by auto
    qed
    then show ?thesis by (auto simp: copied_def eq less_Suc_eq)
  qed
  ultimately show ?case by (simp add: fun_eq_iff)
qed

section \<open>Strings\<close>

lemma strlen_from_Some:
  assumes "\<And>i. n \<le> i \<Longrightarrow> i < k \<Longrightarrow> s i \<noteq> 0" "s k = 0" "n \<le> k"
  shows "strlen_from s n = Some k"
  using assms
proof (induction "k - n" arbitrary: n)
  case 0
  then show ?case by (simp add: strlen_from.simps)
next
  case (Suc d)
  then have "n < k" "s n \<noteq> 0" by auto
  with Suc show ?case by (subst strlen_from.simps) auto
qed

lemma strlen_from_bound:
  assumes "strlen_from s n = Some k"
  shows "n \<le> k \<and> s k = 0 \<and> (\<forall>i. n \<le> i \<longrightarrow> i < k \<longrightarrow> s i \<noteq> 0)"
proof (rule strlen_from.raw_induct
    [where P = "\<lambda>s n k. n \<le> k \<and> s k = 0 \<and> (\<forall>i. n \<le> i \<longrightarrow> i < k \<longrightarrow> s i \<noteq> 0)", OF _ assms])
  fix f and s :: cview and n k
  assume IH: "\<And>s n k. f s n = Some k \<Longrightarrow>
      n \<le> k \<and> s k = 0 \<and> (\<forall>i. n \<le> i \<longrightarrow> i < k \<longrightarrow> s i \<noteq> 0)"
    and eq: "(if s n = 0 then Some n else f s (Suc n)) = Some k"
  show "n \<le> k \<and> s k = 0 \<and> (\<forall>i. n \<le> i \<longrightarrow> i < k \<longrightarrow> s i \<noteq> 0)"
  proof (cases "s n = 0")
    case True
    with eq show ?thesis by simp
  next
    case False
    with eq have k: "Suc n \<le> k" "s k = 0" "\<forall>i. Suc n \<le> i \<longrightarrow> i < k \<longrightarrow> s i \<noteq> 0"
      using IH[of s "Suc n" k] by auto
    have "s i \<noteq> 0" if "n \<le> i" "i < k" for i
      using that False k(3) by (cases "i = n") auto
    with k show ?thesis by simp
  qed
qed

lemma strlen_Some_iff: "strlen s = Some k \<longleftrightarrow> s k = 0 \<and> (\<forall>i < k. s i \<noteq> 0)"
  using strlen_from_bound[of s 0 k] strlen_from_Some[of 0 k s] by (auto simp: strlen_def)

lemma strncmp_eq_0_iff:
  "strncmp p q n = 0 \<longleftrightarrow> (\<forall>i < n. (\<forall>j < i. p j \<noteq> 0) \<longrightarrow> p i = q i)"
proof (induction p q n rule: strncmp.induct)
  case (1 p q)
  then show ?case by simp
next
  case (2 p q n)
  show ?case
  proof (cases "p 0 \<noteq> 0 \<and> p 0 = q 0")
    case True
    with 2 show ?thesis by (auto simp: All_less_Suc2)
  next
    case False
    then have "strncmp p q (Suc n) = uint (p 0) - uint (q 0)" by auto
    then have "strncmp p q (Suc n) = 0 \<longleftrightarrow> p 0 = q 0" by (simp add: word_uint_eq_iff)
    with False show ?thesis by (auto simp: All_less_Suc2)
  qed
qed

lemma length_strncpy [simp]: "length (strncpy t n) = n"
  by (induction t n rule: strncpy.induct) auto

lemma strncpy_nth:
  "i < n \<Longrightarrow> strncpy t n ! i = (if \<forall>j < i. t j \<noteq> 0 then t i else 0)"
proof (induction t n arbitrary: i rule: strncpy.induct)
  case (1 t)
  then show ?case by simp
next
  case (2 t n)
  then show ?case by (cases i) (auto simp: All_less_Suc2)
qed

lemma safestrcpy_nth:
  assumes "0 < n"
  shows "\<exists>k < length (safestrcpy t n). length (safestrcpy t n) \<le> n \<and>
     safestrcpy t n ! k = 0 \<and> k < n \<and> (\<forall>i < k. safestrcpy t n ! i = t i \<and> t i \<noteq> 0) \<and>
     (t k = 0 \<or> k = n - 1)"
  using assms
proof (induction t n rule: safestrcpy.induct)
  case (1 t)
  then show ?case by simp
next
  case (2 t)
  then show ?case by simp
next
  case (3 t n)
  show ?case
  proof (cases "t 0 = 0")
    case True
    then show ?thesis by (intro exI[of _ 0]) simp
  next
    case False
    let ?r = "safestrcpy (\<lambda>i. t (Suc i)) (Suc n)"
    from 3 False obtain k where k: "k < length ?r" "length ?r \<le> Suc n" "?r ! k = 0" "k < Suc n"
      "\<forall>i < k. ?r ! i = t (Suc i) \<and> t (Suc i) \<noteq> 0" "t (Suc k) = 0 \<or> k = n"
      by auto
    then show ?thesis using False by (intro exI[of _ "Suc k"]) (auto simp: All_less_Suc2)
  qed
qed

section \<open>Properties\<close>

text \<open>
  Property C18. \<open>memmove\<close> copies correctly whatever the overlap of source and destination: after it
  the destination holds the bytes that the source held before, and no other byte has changed,
  as long as neither region runs past the top of the address space.
\<close>

theorem memmove_correct:
  assumes "unat src + unat n < 2 ^ 32" "unat dst + unat n \<le> 2 ^ 32"
  shows "memmove m dst src n x =
    (if unat (x - dst) < unat n then m (src + (x - dst)) else m x)"
proof -
  have lt: "unat n < 2 ^ 32" using unat_u32_less[of n] by simp
  have sn: "unat (src + n) = unat src + unat n" using assms(1) by (simp add: unat_plus_if')
  have "memmove m dst src n = copied m dst src (unat n)"
  proof (cases "src < dst \<and> src + n > dst")
    case True
    then have o: "unat src < unat dst" "unat dst < unat src + unat n"
      by (simp_all add: word_less_nat_alt sn)
    have "unat n \<le> unat (src - dst)" using o assms by (simp add: unat_sub_u32)
    then have "copy_down m (dst + of_nat (unat n)) (src + of_nat (unat n)) (unat n) =
        copied m dst src (unat n)"
      using lt by (intro copy_down_eq) auto
    with True show ?thesis by (simp add: memmove_def)
  next
    case False
    then have "unat dst \<le> unat src \<or> unat src + unat n \<le> unat dst"
      by (auto simp: word_less_nat_alt sn)
    then have "unat (dst - src) = 0 \<or> unat n \<le> unat (dst - src)"
      using assms by (auto simp: unat_sub_u32)
    with lt have "copy_up m dst src (unat n) = copied m dst src (unat n)" by (rule copy_up_eq)
    then show ?thesis unfolding memmove_def by (simp only: if_not_P[OF False])
  qed
  then show ?thesis by (simp add: copied_def)
qed

theorem memmove_correct_witness:
  "memmove (\<lambda>x. ucast x) 0x101 0x100 3 0x103 = 2"
proof -
  have "unat (0x100::u32) + unat (3::u32) < 2 ^ 32" "unat (0x101::u32) + unat (3::u32) \<le> 2 ^ 32"
    by simp_all
  from memmove_correct[OF this, of "\<lambda>x. ucast x" "0x103"] show ?thesis by simp
qed

text \<open>
  Property C19. \<open>memset\<close> stores the low byte of \<open>c\<close> in exactly the \<open>n\<close> bytes from \<open>dst\<close>, both on its
  fast path, which stores 32-bit words when address and length are multiples of four, and on its
  byte path.
\<close>

theorem memset_correct:
  "memset m dst c n x = (if unat (x - dst) < unat n then ucast c else m x)"
  by (simp add: memset_eq_fill fill_def)

text \<open>
  Property C20. \<open>safestrcpy\<close> into a buffer of \<open>n > 0\<close> bytes stores at most \<open>n\<close> bytes and always leaves
  a NUL-terminated string: the longest prefix of the source that fits before its NUL.
\<close>

theorem safestrcpy_terminates_string:
  assumes "0 < n"
  shows "length (safestrcpy t n) \<le> n \<and>
    (\<exists>k < length (safestrcpy t n).
       strlen (\<lambda>i. safestrcpy t n ! i) = Some k \<and> (\<forall>i < k. safestrcpy t n ! i = t i) \<and>
       (t k = 0 \<or> k = n - 1))"
proof -
  from safestrcpy_nth[OF assms, of t] obtain k where k: "k < length (safestrcpy t n)"
    "length (safestrcpy t n) \<le> n" "safestrcpy t n ! k = 0"
    "\<forall>i < k. safestrcpy t n ! i = t i \<and> t i \<noteq> 0" "t k = 0 \<or> k = n - 1" by auto
  then have "strlen (\<lambda>i. safestrcpy t n ! i) = Some k" by (simp add: strlen_Some_iff)
  with k show ?thesis by auto
qed

theorem safestrcpy_terminates_string_witness:
  "length (safestrcpy (\<lambda>i. 65) 3) \<le> 3 \<and> safestrcpy (\<lambda>i. 65) 3 = [65, 65, 0]"
  using safestrcpy_terminates_string[of 3 "\<lambda>i. 65"] by (simp add: numeral_3_eq_3)

end
