(* ===== verification/Kalloc.thy ===== *)
theory Kalloc
  imports Spinlock CString
begin

text \<open>
  kernel/kalloc.c: the physical page allocator.  The free pages form a linked list through their
  own first words, as in the source: \<open>freelist\<close> is the address of the first one and \<open>run.next\<close> is the
  32-bit word stored at it.  \<open>ram\<close> is physical memory at its kernel virtual address (physical
  address plus \<open>KERNBASE\<close>); \<open>kend\<close> is the linker symbol \<open>end\<close>, a constant of the image.  \<open>kmem.lock\<close>
  brackets the list operations, which are atomic here.
\<close>

section \<open>Memory layout (memlayout.h, mmu.h)\<close>

abbreviation PGSIZE :: u32 where "PGSIZE \<equiv> 4096"
abbreviation EXTMEM :: u32 where "EXTMEM \<equiv> 0x100000"
abbreviation PHYSTOP :: u32 where "PHYSTOP \<equiv> 0xE000000"
abbreviation DEVSPACE :: u32 where "DEVSPACE \<equiv> 0xFE000000"
abbreviation KERNBASE :: u32 where "KERNBASE \<equiv> 0x80000000"
abbreviation KERNLINK :: u32 where "KERNLINK \<equiv> 0x80100000"

definition V2P :: "u32 \<Rightarrow> u32" where
  "V2P a = a - KERNBASE"

definition P2V :: "u32 \<Rightarrow> u32" where
  "P2V a = a + KERNBASE"

definition PGROUNDUP :: "u32 \<Rightarrow> u32" where
  "PGROUNDUP sz = (sz + PGSIZE - 1) AND NOT (PGSIZE - 1)"

definition PGROUNDDOWN :: "u32 \<Rightarrow> u32" where
  "PGROUNDDOWN a = a AND NOT (PGSIZE - 1)"

section \<open>The allocator\<close>

record kmem_state = machine +
  kmem_lock :: spinlock
  ram :: mem
  kend :: u32
  use_lock :: bool
  freelist :: u32

definition kfree :: "u32 \<Rightarrow> 'a kmem_state_scheme \<Rightarrow> 'a kmem_state_scheme res" where
  "kfree v s =
     guard_res (v mod PGSIZE \<noteq> 0 \<or> v < kend s \<or> V2P v \<ge> PHYSTOP) ''kfree''
       (let m = memset (ram s) v 1 PGSIZE
        in Inr (s\<lparr>ram := wr32 m v (freelist s), freelist := v\<rparr>))"

definition kalloc :: "'a kmem_state_scheme \<Rightarrow> u32 \<times> 'a kmem_state_scheme" where
  "kalloc s =
     (let r = freelist s
      in if r \<noteq> 0 then (r, s\<lparr>freelist := rd32 (ram s) r\<rparr>) else (r, s))"

function freerange_from :: "u32 \<Rightarrow> u32 \<Rightarrow> 'a kmem_state_scheme \<Rightarrow> 'a kmem_state_scheme res" where
  "freerange_from p vend s =
     (if p + PGSIZE \<le> vend
      then (case kfree p s of Inl e \<Rightarrow> Inl e | Inr s' \<Rightarrow> freerange_from (p + PGSIZE) vend s')
      else Inr s)"
  by pat_completeness auto
termination
proof (relation "measure (\<lambda>(p, vend, s). 2 ^ 32 - unat p)")
  fix p vend :: u32 and s s' :: "'a kmem_state_scheme"
  assume "kfree p s = Inr s'"
  then have "p - KERNBASE < PHYSTOP" by (simp add: kfree_def V2P_def not_le)
  then have "unat p < 0x8E000000" by unat_arith
  then have "unat (p + PGSIZE) = unat p + 4096" by (simp add: unat_plus_if')
  with \<open>unat p < 0x8E000000\<close>
  show "((p + PGSIZE, vend, s'), (p, vend, s)) \<in> measure (\<lambda>(p, vend, s). 2 ^ 32 - unat p)"
    by simp
qed auto

declare freerange_from.simps [simp del]

definition freerange :: "u32 \<Rightarrow> u32 \<Rightarrow> 'a kmem_state_scheme \<Rightarrow> 'a kmem_state_scheme res" where
  "freerange vstart vend s = freerange_from (PGROUNDUP vstart) vend s"

definition kinit1 :: "u32 \<Rightarrow> u32 \<Rightarrow> 'a kmem_state_scheme \<Rightarrow> 'a kmem_state_scheme res" where
  "kinit1 vstart vend s =
     freerange vstart vend (s\<lparr>kmem_lock := initlock ''kmem'' (kmem_lock s), use_lock := False\<rparr>)"

definition kinit2 :: "u32 \<Rightarrow> u32 \<Rightarrow> 'a kmem_state_scheme \<Rightarrow> 'a kmem_state_scheme res" where
  "kinit2 vstart vend s =
     bind_res (freerange vstart vend s) (\<lambda>s1. Inr (s1\<lparr>use_lock := True\<rparr>))"

section \<open>Pages\<close>

definition pg_aligned :: "u32 \<Rightarrow> bool" where
  "pg_aligned p \<longleftrightarrow> p mod PGSIZE = 0"

lemma pg_aligned_iff: "pg_aligned a \<longleftrightarrow> unat a mod 4096 = 0"
proof -
  have "unat (a mod PGSIZE) = unat a mod 4096" by (simp add: unat_mod)
  then show ?thesis unfolding pg_aligned_def by (metis unat_eq_zero)
qed

lemma pg_alignedE:
  assumes "pg_aligned a"
  obtains k where "unat a = 4096 * k"
  using assms by (auto simp: pg_aligned_iff)

definition page_ok :: "'a kmem_state_scheme \<Rightarrow> u32 \<Rightarrow> bool" where
  "page_ok s p \<longleftrightarrow> pg_aligned p \<and> kend s \<le> p \<and> V2P p < PHYSTOP"

definition in_page :: "u32 \<Rightarrow> u32 \<Rightarrow> bool" where
  "in_page p x \<longleftrightarrow> unat (x - p) < 4096"

primrec free_chain :: "mem \<Rightarrow> u32 \<Rightarrow> u32 list \<Rightarrow> bool" where
  "free_chain m r [] \<longleftrightarrow> r = 0"
| "free_chain m r (p # ps) \<longleftrightarrow> r = p \<and> p \<noteq> 0 \<and> free_chain m (rd32 m p) ps"

definition kmem_inv :: "u32 list \<Rightarrow> 'a kmem_state_scheme \<Rightarrow> bool" where
  "kmem_inv ps s \<longleftrightarrow>
     free_chain (ram s) (freelist s) ps \<and> distinct ps \<and> (\<forall>p \<in> set ps. page_ok s p)"

lemma page_ok_nonzero: "page_ok s p \<Longrightarrow> p \<noteq> 0"
  by (auto simp: page_ok_def V2P_def)

lemma in_page_iff:
  assumes "pg_aligned p"
  shows "in_page p x \<longleftrightarrow> unat x div 4096 = unat p div 4096"
proof -
  obtain k where k: "unat p = 4096 * k" using assms by (rule pg_alignedE)
  have "unat x < 4294967296" "unat p < 4294967296" by (rule unat_u32_less)+
  with k show ?thesis by (auto simp: in_page_def unat_sub_u32)
qed

lemma in_page_unique:
  assumes "pg_aligned p" and "pg_aligned q" and "in_page p x" and "in_page q x"
  shows "p = q"
proof -
  have p: "unat p mod 4096 = 0" and q: "unat q mod 4096 = 0"
    using assms(1,2) by (simp_all add: pg_aligned_iff)
  have "unat p div 4096 = unat q div 4096"
    using assms by (simp add: in_page_iff)
  with p q have "unat p = unat q" by (metis div_mult_mod_eq)
  then show ?thesis by (simp add: word_unat_eq_iff)
qed

lemma rd32_cong:
  assumes "\<And>x. unat (x - a) < 4 \<Longrightarrow> m x = m' x"
  shows "rd32 m a = rd32 m' a"
  by (simp add: rd32_def assms)

lemma rd32_page_cong:
  assumes "\<And>x. in_page p x \<Longrightarrow> m x = m' x"
  shows "rd32 m p = rd32 m' p"
  by (rule rd32_cong) (simp add: assms in_page_def)

lemma free_chain_cong:
  assumes "\<And>p x. p \<in> set ps \<Longrightarrow> in_page p x \<Longrightarrow> m x = m' x"
  shows "free_chain m r ps = free_chain m' r ps"
  using assms
proof (induction ps arbitrary: r)
  case (Cons q qs)
  have "rd32 m q = rd32 m' q" by (rule rd32_page_cong) (rule Cons.prems, simp_all)
  moreover have "free_chain m r' qs = free_chain m' r' qs" for r'
    by (rule Cons.IH) (rule Cons.prems, simp_all)
  ultimately show ?case by simp
qed simp

lemma wr32_outside: "4 \<le> unat (x - a) \<Longrightarrow> wr32 m a v x = m x"
  by (auto simp: wr32_def)

lemma kfree_Inr_iff:
  "kfree v s = Inr s' \<longleftrightarrow> page_ok s v \<and>
     s' = s\<lparr>ram := wr32 (memset (ram s) v 1 PGSIZE) v (freelist s), freelist := v\<rparr>"
  unfolding kfree_def page_ok_def pg_aligned_def Let_def guard_res_eq_Inr_iff de_Morgan_disj not_not not_le not_less
  by (simp only: sum.inject conj_assoc eq_commute [of s'])

lemma kfree_outside:
  assumes "kfree v s = Inr s'" and "\<not> in_page v x"
  shows "ram s' x = ram s x"
  using assms by (auto simp: kfree_Inr_iff wr32_outside in_page_def memset_eq_fill fill_def)

lemma kfree_inv:
  assumes inv: "kmem_inv ps s" and v: "page_ok s v" "v \<notin> set ps"
  shows "\<exists>s'. kfree v s = Inr s' \<and> kmem_inv (v # ps) s'"
proof -
  let ?s' = "s\<lparr>ram := wr32 (memset (ram s) v 1 PGSIZE) v (freelist s), freelist := v\<rparr>"
  have k: "kfree v s = Inr ?s'" using v by (simp add: kfree_Inr_iff)
  have "free_chain (ram s) (freelist s) ps = free_chain (ram ?s') (freelist s) ps"
  proof (rule free_chain_cong)
    fix p x assume "p \<in> set ps" "in_page p x"
    then have "\<not> in_page v x"
      using inv v in_page_unique [of v p x] by (auto simp: kmem_inv_def page_ok_def)
    from kfree_outside [OF k this] show "ram s x = ram ?s' x" by simp
  qed
  then have "kmem_inv (v # ps) ?s'"
    using inv v page_ok_nonzero [OF v(1)] by (auto simp: kmem_inv_def page_ok_def)
  with k show ?thesis by blast
qed

lemma kalloc_inv:
  assumes "kmem_inv (p # ps) s"
  shows "kalloc s = (p, s\<lparr>freelist := rd32 (ram s) p\<rparr>)"
    and "kmem_inv ps (s\<lparr>freelist := rd32 (ram s) p\<rparr>)"
  using assms by (auto simp: kalloc_def kmem_inv_def page_ok_def)

lemma kalloc_empty: "kmem_inv [] s \<Longrightarrow> kalloc s = (0, s)"
  by (simp add: kalloc_def kmem_inv_def)

lemma kalloc_frame:
  "kalloc s = (p, s') \<Longrightarrow> \<exists>f. s' = s\<lparr>freelist := f\<rparr>"
  by (auto simp: kalloc_def Let_def split: if_splits intro: exI [of _ "freelist s"])

section \<open>Rounding\<close>

lemma PGROUNDDOWN_eq: "PGROUNDDOWN a = a div 4096 * 4096"
proof -
  have "a AND NOT (mask 12) = push_bit 12 (drop_bit 12 a)"
    by (rule bit_word_eqI) (auto simp: bit_simps)
  moreover have "PGSIZE - 1 = mask 12" by (simp add: mask_eq_exp_minus_1)
  ultimately show ?thesis
    unfolding PGROUNDDOWN_def by (simp only: push_bit_eq_mult drop_bit_eq_div) simp
qed

lemma unat_PGROUNDDOWN: "unat (PGROUNDDOWN a) = unat a div 4096 * 4096"
proof -
  have "unat (a div 4096) * 4096 < 2 ^ 32"
    using unat_u32_less [of a] by (simp add: unat_div)
  then have "unat (a div 4096 * 4096) = unat (a div 4096) * unat (4096 :: u32)"
    by (subst unat_mult_lem [symmetric]) simp
  then show ?thesis by (simp add: PGROUNDDOWN_eq unat_div)
qed

lemma PGROUNDDOWN_aligned: "pg_aligned (PGROUNDDOWN a)"
  by (simp add: pg_aligned_iff unat_PGROUNDDOWN)

lemma PGROUNDUP_alt: "PGROUNDUP a = PGROUNDDOWN (a + 4095)"
  by (simp add: PGROUNDUP_def PGROUNDDOWN_def add.commute)

lemma PGROUNDUP_aligned: "pg_aligned (PGROUNDUP a)"
  by (simp only: PGROUNDUP_alt PGROUNDDOWN_aligned)

lemma unat_PGROUNDUP:
  assumes "unat a \<le> 0xFFFFF000"
  shows "unat (PGROUNDUP a) = (unat a + 4095) div 4096 * 4096"
proof -
  have "unat (a + 4095) = unat a + 4095" using assms by (simp add: unat_plus_if')
  then show ?thesis by (simp add: PGROUNDUP_alt unat_PGROUNDDOWN)
qed

section \<open>Filling the free list\<close>

definition whole_pages :: "u32 \<Rightarrow> u32 \<Rightarrow> u32 set" where
  "whole_pages a b = {p. pg_aligned p \<and> unat a \<le> unat p \<and> unat p + 4096 \<le> unat b}"

lemma kernel_page_range:
  fixes p :: u32
  assumes "KERNBASE \<le> p" and "unat p < 0x8E000000"
  shows "V2P p < PHYSTOP"
  using assms by (simp add: V2P_def word_less_nat_alt word_le_nat_alt unat_sub_u32)

lemma whole_pages_step:
  assumes "pg_aligned p" and "unat p + 4096 \<le> unat vend" and "unat (p + PGSIZE) = unat p + 4096"
  shows "whole_pages p vend = insert p (whole_pages (p + PGSIZE) vend)"
proof (rule set_eqI)
  fix q
  have "unat p \<le> unat q \<longleftrightarrow> q = p \<or> unat p + 4096 \<le> unat q" if "pg_aligned q"
  proof -
    obtain i j where "unat p = 4096 * i" "unat q = 4096 * j"
      using assms(1) \<open>pg_aligned q\<close> by (blast elim: pg_alignedE)
    then show ?thesis by (auto simp: word_unat_eq_iff)
  qed
  then show "q \<in> whole_pages p vend \<longleftrightarrow> q \<in> insert p (whole_pages (p + PGSIZE) vend)"
    using assms unfolding whole_pages_def by auto
qed

lemma whole_pages_none:
  "unat vend < unat p + 4096 \<Longrightarrow> whole_pages p vend = {}"
  by (auto simp: whole_pages_def)

lemma kend_kfree: "kfree p s = Inr s' \<Longrightarrow> kend s' = kend s"
  by (auto simp: kfree_Inr_iff)

lemma freerange_from_adds:
  assumes "kmem_inv ps s" and "pg_aligned p" and "kend s \<le> p" and "KERNBASE \<le> p"
    and "unat p \<le> 0x8E000000" and "unat vend \<le> 0x8E000000"
    and "set ps \<inter> whole_pages p vend = {}"
  shows "\<exists>s' ps'. freerange_from p vend s = Inr s' \<and> kmem_inv ps' s' \<and>
           set ps' = set ps \<union> whole_pages p vend"
  using assms
proof (induction p vend s arbitrary: ps rule: freerange_from.induct)
  case (1 p vend s)
  have up: "unat (p + PGSIZE) = unat p + 4096"
    using "1.prems"(5) by (simp add: unat_plus_if')
  show ?case
  proof (cases "p + PGSIZE \<le> vend")
    case True
    then have le: "unat p + 4096 \<le> unat vend" by (simp add: word_le_nat_alt up)
    note pages = whole_pages_step [OF "1.prems"(2) le up]
    have "page_ok s p"
      unfolding page_ok_def using "1.prems" le kernel_page_range by simp
    moreover have "p \<notin> set ps" using "1.prems"(7) pages by auto
    ultimately obtain s1 where s1: "kfree p s = Inr s1" "kmem_inv (p # ps) s1"
      using kfree_inv "1.prems"(1) by blast
    have "\<exists>s' ps'. freerange_from (p + PGSIZE) vend s1 = Inr s' \<and> kmem_inv ps' s' \<and>
        set ps' = set (p # ps) \<union> whole_pages (p + PGSIZE) vend"
    proof (rule "1.IH" [OF True s1(1) s1(2)])
      show "pg_aligned (p + PGSIZE)"
        using "1.prems"(2) up by (simp add: pg_aligned_iff)
      show "kend s1 \<le> p + PGSIZE" "KERNBASE \<le> p + PGSIZE"
        using "1.prems"(3,4) by (simp_all add: kend_kfree [OF s1(1)] word_le_nat_alt up)
      show "unat (p + PGSIZE) \<le> 0x8E000000" using le "1.prems"(6) up by simp
      show "set (p # ps) \<inter> whole_pages (p + PGSIZE) vend = {}"
        using "1.prems"(7) pages up by (auto simp: whole_pages_def)
    qed (rule "1.prems"(6))
    then show ?thesis
      by (subst freerange_from.simps) (auto simp: True s1(1) pages)
  next
    case False
    then have "unat vend < unat p + 4096" by (simp add: word_le_nat_alt up)
    with False "1.prems"(1) show ?thesis
      by (subst freerange_from.simps) (auto simp: whole_pages_none)
  qed
qed

lemma whole_pages_PGROUNDUP:
  assumes "unat a \<le> 0xFFFFF000"
  shows "whole_pages (PGROUNDUP a) b = whole_pages a b"
proof -
  have "(unat a + 4095) div 4096 * 4096 \<le> unat p \<longleftrightarrow> unat a \<le> unat p" if "pg_aligned p" for p
  proof -
    obtain k where "unat p = 4096 * k" using \<open>pg_aligned p\<close> by (rule pg_alignedE)
    then show ?thesis by auto
  qed
  then show ?thesis unfolding whole_pages_def unat_PGROUNDUP [OF assms] by auto
qed

section \<open>The allocator's contract\<close>

text \<open>
  What the virtual memory code and the process code rely on: the allocator is a stack of usable
  pages; allocation pops it and answers the null page when it is empty; a page is pushed back
  by freeing it, which is refused for anything that is not a page of the managed range.
\<close>

locale page_allocator =
  fixes alloc :: "'s \<Rightarrow> 'p \<times> 's"
    and free :: "'p \<Rightarrow> 's \<Rightarrow> 's res"
    and avail :: "'p list \<Rightarrow> 's \<Rightarrow> bool"
    and usable :: "'s \<Rightarrow> 'p \<Rightarrow> bool"
    and null :: 'p
  assumes alloc_none: "avail [] s \<Longrightarrow> alloc s = (null, s)"
    and alloc_some: "avail (p # ps) s \<Longrightarrow> \<exists>s'. alloc s = (p, s') \<and> avail ps s'"
    and free_usable: "avail ps s \<Longrightarrow> usable s p \<Longrightarrow> p \<notin> set ps \<Longrightarrow>
          \<exists>s'. free p s = Inr s' \<and> avail (p # ps) s'"
    and free_refused: "\<not> usable s p \<Longrightarrow> \<exists>msg. free p s = Inl (Panic msg)"
    and avail_distinct: "avail ps s \<Longrightarrow> distinct ps"
    and avail_not_null: "avail ps s \<Longrightarrow> null \<notin> set ps"

primrec alloc_seq :: "('s \<Rightarrow> 'p \<times> 's) \<Rightarrow> nat \<Rightarrow> 's \<Rightarrow> 'p list \<times> 's" where
  "alloc_seq alloc 0 s = ([], s)"
| "alloc_seq alloc (Suc n) s =
     (let (p, s1) = alloc s; (ps, s2) = alloc_seq alloc n s1 in (p # ps, s2))"

context page_allocator
begin

lemma alloc_seq_result:
  "avail ps s \<Longrightarrow> \<exists>s'. alloc_seq alloc n s = (take n ps @ replicate (n - length ps) null, s') \<and>
     avail (drop n ps) s'"
proof (induction n arbitrary: ps s)
  case (Suc n)
  show ?case
  proof (cases ps)
    case Nil
    with Suc.prems have "alloc s = (null, s)" by (simp add: alloc_none)
    moreover obtain s' where "alloc_seq alloc n s = (replicate n null, s')" "avail [] s'"
      using Suc.IH [of "[]" s] Suc.prems Nil by auto
    ultimately show ?thesis using Nil by simp
  next
    case (Cons p qs)
    then obtain s1 where "alloc s = (p, s1)" "avail qs s1"
      using alloc_some Suc.prems by blast
    moreover obtain s' where "alloc_seq alloc n s1 = (take n qs @ replicate (n - length qs) null, s')"
      "avail (drop n qs) s'"
      using Suc.IH [OF \<open>avail qs s1\<close>] by blast
    ultimately show ?thesis using Cons by simp
  qed
qed simp

lemma alloc_after_free:
  assumes "avail ps s" and "usable s p" and "p \<notin> set ps"
  obtains s1 s2 where "free p s = Inr s1" and "alloc s1 = (p, s2)" and "avail ps s2"
  using free_usable [OF assms] alloc_some by blast

end

lemma kfree_refused: "\<not> page_ok s v \<Longrightarrow> kfree v s = Inl (Panic ''kfree'')"
  by (auto simp: kfree_def page_ok_def pg_aligned_def guard_res_def not_le not_less)

interpretation pages: page_allocator kalloc kfree kmem_inv page_ok 0
proof
  fix s :: "'a kmem_state_scheme" and p ps
  show "kmem_inv (p # ps) s \<Longrightarrow> \<exists>s'. kalloc s = (p, s') \<and> kmem_inv ps s'"
    using kalloc_inv by blast
  show "kmem_inv ps s \<Longrightarrow> 0 \<notin> set ps"
    by (auto simp: kmem_inv_def dest: page_ok_nonzero)
  show "kmem_inv ps s \<Longrightarrow> page_ok s p \<Longrightarrow> p \<notin> set ps \<Longrightarrow>
      \<exists>s'. kfree p s = Inr s' \<and> kmem_inv (p # ps) s'"
    by (rule kfree_inv)
qed (auto simp: kalloc_empty kfree_refused kmem_inv_def)

section \<open>Properties\<close>


definition kmem_boot :: kmem_state where
  "kmem_boot =
     \<lparr>cpus = [], ncpu = 0, eflags_IF = (\<lambda>_. False),
      kmem_lock = \<lparr>lk_locked = False, lk_name = [], lk_cpu = None, lk_pcs = []\<rparr>,
      ram = (\<lambda>_. 0), kend = 0x80100500, use_lock = False, freelist = 0\<rparr>"

lemma kmem_boot_inv: "kmem_inv [] kmem_boot"
  by (simp add: kmem_inv_def kmem_boot_def)




text \<open>
  Property C22. \<open>kinit1\<close> on a range inside the kernel's memory does not panic and leaves free exactly
  the whole pages of the range, besides those that were free before.
\<close>

theorem kinit1_frees_range:
  assumes "kmem_inv ps s" and "kend s \<le> vstart" and "KERNBASE \<le> vstart"
    and "unat vstart \<le> 0x8DFFF000" and "unat vend \<le> 0x8E000000"
    and "set ps \<inter> whole_pages vstart vend = {}"
  shows "\<exists>s' ps'. kinit1 vstart vend s = Inr s' \<and> kmem_inv ps' s' \<and>
           set ps' = set ps \<union> whole_pages vstart vend"
proof -
  let ?s = "s\<lparr>kmem_lock := initlock ''kmem'' (kmem_lock s), use_lock := False\<rparr>"
  have up: "unat vstart \<le> unat (PGROUNDUP vstart)" "unat (PGROUNDUP vstart) \<le> 0x8E000000"
    using assms(4) by (auto simp: unat_PGROUNDUP)
  have "whole_pages (PGROUNDUP vstart) vend = whole_pages vstart vend"
    using assms(4) by (simp add: whole_pages_PGROUNDUP)
  moreover have "kmem_inv ps ?s" using assms(1) by (simp add: kmem_inv_def page_ok_def)
  moreover have "kend ?s \<le> PGROUNDUP vstart" "KERNBASE \<le> PGROUNDUP vstart"
    using assms(2,3) up(1) by (simp_all add: word_le_nat_alt)
  ultimately show ?thesis
    unfolding kinit1_def freerange_def
    using freerange_from_adds [of ps ?s "PGROUNDUP vstart" vend] PGROUNDUP_aligned assms(5,6) up
    by auto
qed

theorem kinit1_frees_range_witness:
  "\<exists>s' ps'. kinit1 0x80100500 0x80400000 kmem_boot = Inr s' \<and> kmem_inv ps' s' \<and>
     set ps' = whole_pages 0x80100500 0x80400000 \<and> 0x80101000 \<in> set ps'"
proof -
  have "0x80101000 \<in> whole_pages 0x80100500 0x80400000"
    by (simp add: whole_pages_def pg_aligned_def)
  with kinit1_frees_range [OF kmem_boot_inv, of "0x80100500" "0x80400000"]
  show ?thesis by (auto simp: kmem_boot_def)
qed

end
