(* ===== verification/Vm.thy ===== *)
theory Vm
  imports Kalloc
begin

text \<open>
  kernel/vm.c: two-level page tables, kept in the byte memory \<open>ram\<close> exactly as the hardware reads
  them.  \<open>pgdir\<close> arguments are kernel virtual addresses.  A loop over the pages of an address range
  has at most \<open>NPAGES\<close> iterations (the pages of a 32-bit address space); \<open>Diverges\<close> would be a
  longer one.  \<open>loaduvm\<close> reads files and stands with \<open>exec\<close>; \<open>switchuvm\<close> reads a process and stands
  with the processes.
\<close>

section \<open>Page table layout (mmu.h)\<close>

abbreviation PTE_P :: u32 where "PTE_P \<equiv> 1"
abbreviation PTE_W :: u32 where "PTE_W \<equiv> 2"
abbreviation PTE_U :: u32 where "PTE_U \<equiv> 4"
abbreviation NPDENTRIES :: nat where "NPDENTRIES \<equiv> 1024"
abbreviation NPAGES :: nat where "NPAGES \<equiv> 0x100000"

definition PDX :: "u32 \<Rightarrow> u32" where
  "PDX va = drop_bit 22 va AND 0x3FF"

definition PTX :: "u32 \<Rightarrow> u32" where
  "PTX va = drop_bit 12 va AND 0x3FF"

definition PGADDR :: "u32 \<Rightarrow> u32 \<Rightarrow> u32 \<Rightarrow> u32" where
  "PGADDR d t off = push_bit 22 d OR push_bit 12 t OR off"

definition PTE_ADDR :: "u32 \<Rightarrow> u32" where
  "PTE_ADDR pte = pte AND NOT 0xFFF"

definition PTE_FLAGS :: "u32 \<Rightarrow> u32" where
  "PTE_FLAGS pte = pte AND 0xFFF"

definition pte_present :: "u32 \<Rightarrow> bool" where
  "pte_present pte \<longleftrightarrow> pte AND PTE_P \<noteq> 0"

section \<open>Operations\<close>

record vm_state = kmem_state +
  kdata :: u32
  kpgdir :: u32

definition walkpgdir :: "u32 \<Rightarrow> u32 \<Rightarrow> bool \<Rightarrow> 'a vm_state_scheme \<Rightarrow> u32 \<times> 'a vm_state_scheme" where
  "walkpgdir pgdir va alloc s =
     (let pde = pgdir + 4 * PDX va
      in if pte_present (rd32 (ram s) pde)
         then (P2V (PTE_ADDR (rd32 (ram s) pde)) + 4 * PTX va, s)
         else if \<not> alloc then (0, s)
         else (case kalloc s of (pgtab, s1) \<Rightarrow>
                 if pgtab = 0 then (0, s1)
                 else let m = memset (ram s1) pgtab 0 PGSIZE
                      in (pgtab + 4 * PTX va,
                          s1\<lparr>ram := wr32 m pde (V2P pgtab OR PTE_P OR PTE_W OR PTE_U)\<rparr>)))"

primrec mappages_loop ::
  "nat \<Rightarrow> u32 \<Rightarrow> u32 \<Rightarrow> u32 \<Rightarrow> u32 \<Rightarrow> u32 \<Rightarrow> 'a vm_state_scheme \<Rightarrow> (int \<times> 'a vm_state_scheme) res" where
  "mappages_loop 0 pgdir a lastpg pa perm s = Inl Diverges"
| "mappages_loop (Suc n) pgdir a lastpg pa perm s =
     (case walkpgdir pgdir a True s of (pte, s1) \<Rightarrow>
        if pte = 0 then Inr (-1, s1)
        else guard_res (pte_present (rd32 (ram s1) pte)) ''remap''
          (let s2 = s1\<lparr>ram := wr32 (ram s1) pte (pa OR perm OR PTE_P)\<rparr>
           in if a = lastpg then Inr (0, s2)
              else mappages_loop n pgdir (a + PGSIZE) lastpg (pa + PGSIZE) perm s2))"

definition mappages ::
  "u32 \<Rightarrow> u32 \<Rightarrow> u32 \<Rightarrow> u32 \<Rightarrow> u32 \<Rightarrow> 'a vm_state_scheme \<Rightarrow> (int \<times> 'a vm_state_scheme) res" where
  "mappages pgdir va sz pa perm s =
     mappages_loop NPAGES pgdir (PGROUNDDOWN va) (PGROUNDDOWN (va + sz - 1)) pa perm s"

primrec deallocuvm_loop :: "nat \<Rightarrow> u32 \<Rightarrow> u32 \<Rightarrow> u32 \<Rightarrow> 'a vm_state_scheme \<Rightarrow> 'a vm_state_scheme res" where
  "deallocuvm_loop 0 pgdir a oldsz s = (if a < oldsz then Inl Diverges else Inr s)"
| "deallocuvm_loop (Suc n) pgdir a oldsz s =
     (if a < oldsz
      then let pte = fst (walkpgdir pgdir a False s)
           in if pte = 0
              then deallocuvm_loop n pgdir (PGADDR (PDX a + 1) 0 0 - PGSIZE + PGSIZE) oldsz s
              else if pte_present (rd32 (ram s) pte)
              then let pa = PTE_ADDR (rd32 (ram s) pte)
                   in guard_res (pa = 0) ''kfree''
                        (bind_res (kfree (P2V pa) s) (\<lambda>s1.
                           deallocuvm_loop n pgdir (a + PGSIZE) oldsz
                             (s1\<lparr>ram := wr32 (ram s1) pte 0\<rparr>)))
              else deallocuvm_loop n pgdir (a + PGSIZE) oldsz s
      else Inr s)"

definition deallocuvm ::
  "u32 \<Rightarrow> u32 \<Rightarrow> u32 \<Rightarrow> 'a vm_state_scheme \<Rightarrow> (u32 \<times> 'a vm_state_scheme) res" where
  "deallocuvm pgdir oldsz newsz s =
     (if newsz \<ge> oldsz then Inr (oldsz, s)
      else bind_res (deallocuvm_loop NPAGES pgdir (PGROUNDUP newsz) oldsz s)
             (\<lambda>s1. Inr (newsz, s1)))"

primrec allocuvm_loop ::
  "nat \<Rightarrow> u32 \<Rightarrow> u32 \<Rightarrow> u32 \<Rightarrow> u32 \<Rightarrow> 'a vm_state_scheme \<Rightarrow> (u32 \<times> 'a vm_state_scheme) res" where
  "allocuvm_loop 0 pgdir a oldsz newsz s = (if a < newsz then Inl Diverges else Inr (newsz, s))"
| "allocuvm_loop (Suc n) pgdir a oldsz newsz s =
     (if a < newsz
      then (case kalloc s of (pg, s1) \<Rightarrow>
              if pg = 0
              then bind_res (deallocuvm pgdir newsz oldsz s1) (\<lambda>(_, s2). Inr (0, s2))
              else bind_res (mappages pgdir a PGSIZE (V2P pg) (PTE_W OR PTE_U)
                               (s1\<lparr>ram := memset (ram s1) pg 0 PGSIZE\<rparr>)) (\<lambda>(r, s2).
                     if r < 0
                     then bind_res (deallocuvm pgdir newsz oldsz s2) (\<lambda>(_, s3).
                          bind_res (kfree pg s3) (\<lambda>s4. Inr (0, s4)))
                     else allocuvm_loop n pgdir (a + PGSIZE) oldsz newsz s2))
      else Inr (newsz, s))"

definition allocuvm ::
  "u32 \<Rightarrow> u32 \<Rightarrow> u32 \<Rightarrow> 'a vm_state_scheme \<Rightarrow> (u32 \<times> 'a vm_state_scheme) res" where
  "allocuvm pgdir oldsz newsz s =
     (if newsz \<ge> KERNBASE then Inr (0, s)
      else if newsz < oldsz then Inr (oldsz, s)
      else allocuvm_loop NPAGES pgdir (PGROUNDUP oldsz) oldsz newsz s)"

primrec freevm_entries :: "u32 \<Rightarrow> nat list \<Rightarrow> 'a vm_state_scheme \<Rightarrow> 'a vm_state_scheme res" where
  "freevm_entries pgdir [] s = Inr s"
| "freevm_entries pgdir (i # js) s =
     (let pde = rd32 (ram s) (pgdir + 4 * of_nat i)
      in if pte_present pde
         then bind_res (kfree (P2V (PTE_ADDR pde)) s) (freevm_entries pgdir js)
         else freevm_entries pgdir js s)"

definition freevm :: "u32 \<Rightarrow> 'a vm_state_scheme \<Rightarrow> 'a vm_state_scheme res" where
  "freevm pgdir s =
     guard_res (pgdir = 0) ''freevm: no pgdir''
       (bind_res (deallocuvm pgdir KERNBASE 0 s) (\<lambda>(_, s1).
        bind_res (freevm_entries pgdir [0..<NPDENTRIES] s1) (\<lambda>s2.
        kfree pgdir s2)))"

definition kmap :: "u32 \<Rightarrow> (u32 \<times> u32 \<times> u32 \<times> u32) list" where
  "kmap data =
     [(KERNBASE, 0, EXTMEM, PTE_W),
      (KERNLINK, V2P KERNLINK, V2P data, 0),
      (data, V2P data, PHYSTOP, PTE_W),
      (DEVSPACE, DEVSPACE, 0, PTE_W)]"

primrec setupkvm_map ::
  "u32 \<Rightarrow> (u32 \<times> u32 \<times> u32 \<times> u32) list \<Rightarrow> 'a vm_state_scheme \<Rightarrow> (u32 \<times> 'a vm_state_scheme) res" where
  "setupkvm_map pgdir [] s = Inr (pgdir, s)"
| "setupkvm_map pgdir (k # ks) s =
     (case k of (virt, phys_start, phys_end, perm) \<Rightarrow>
        bind_res (mappages pgdir virt (phys_end - phys_start) phys_start perm s) (\<lambda>(r, s1).
          if r < 0 then bind_res (freevm pgdir s1) (\<lambda>s2. Inr (0, s2))
          else setupkvm_map pgdir ks s1))"

definition setupkvm :: "'a vm_state_scheme \<Rightarrow> (u32 \<times> 'a vm_state_scheme) res" where
  "setupkvm s =
     (case kalloc s of (pgdir, s1) \<Rightarrow>
        if pgdir = 0 then Inr (0, s1)
        else let s2 = s1\<lparr>ram := memset (ram s1) pgdir 0 PGSIZE\<rparr>
             in guard_res (P2V PHYSTOP > DEVSPACE) ''PHYSTOP too high''
                  (setupkvm_map pgdir (kmap (kdata s2)) s2))"

definition switchkvm :: "nat \<Rightarrow> 'a vm_state_scheme \<Rightarrow> 'a vm_state_scheme" where
  "switchkvm c s = upd_cpu c (\<lambda>x. x\<lparr>c_cr3 := V2P (kpgdir s)\<rparr>) s"

definition kvmalloc :: "nat \<Rightarrow> 'a vm_state_scheme \<Rightarrow> 'a vm_state_scheme res" where
  "kvmalloc c s = bind_res (setupkvm s) (\<lambda>(d, s1). Inr (switchkvm c (s1\<lparr>kpgdir := d\<rparr>)))"

definition inituvm :: "u32 \<Rightarrow> u32 \<Rightarrow> u32 \<Rightarrow> 'a vm_state_scheme \<Rightarrow> 'a vm_state_scheme res" where
  "inituvm pgdir init sz s =
     guard_res (sz \<ge> PGSIZE) ''inituvm: more than a page''
       (case kalloc s of (pg, s1) \<Rightarrow>
          if pg = 0 then Inl (Undefined ''inituvm'')
          else bind_res (mappages pgdir 0 PGSIZE (V2P pg) (PTE_W OR PTE_U)
                           (s1\<lparr>ram := memset (ram s1) pg 0 PGSIZE\<rparr>)) (\<lambda>(_, s2).
               Inr (s2\<lparr>ram := memmove (ram s2) pg init sz\<rparr>)))"

definition clearpteu :: "u32 \<Rightarrow> u32 \<Rightarrow> 'a vm_state_scheme \<Rightarrow> 'a vm_state_scheme res" where
  "clearpteu pgdir uva s =
     (let pte = fst (walkpgdir pgdir uva False s)
      in guard_res (pte = 0) ''clearpteu''
           (Inr (s\<lparr>ram := wr32 (ram s) pte (rd32 (ram s) pte AND NOT PTE_U)\<rparr>)))"

primrec copyuvm_loop ::
  "nat \<Rightarrow> u32 \<Rightarrow> u32 \<Rightarrow> u32 \<Rightarrow> u32 \<Rightarrow> 'a vm_state_scheme \<Rightarrow> (u32 \<times> 'a vm_state_scheme) res" where
  "copyuvm_loop 0 pgdir d i sz s = (if i < sz then Inl Diverges else Inr (d, s))"
| "copyuvm_loop (Suc n) pgdir d i sz s =
     (if i < sz
      then let pte = fst (walkpgdir pgdir i False s); e = rd32 (ram s) pte
           in guard_res (pte = 0) ''copyuvm: pte should exist''
               (guard_res (\<not> pte_present e) ''copyuvm: page not present''
                 (case kalloc s of (pg, s1) \<Rightarrow>
                    if pg = 0 then bind_res (freevm d s1) (\<lambda>s2. Inr (0, s2))
                    else let s2 = s1\<lparr>ram := memmove (ram s1) pg (P2V (PTE_ADDR e)) PGSIZE\<rparr>
                         in bind_res (mappages d i PGSIZE (V2P pg) (PTE_FLAGS e) s2) (\<lambda>(r, s3).
                              if r < 0
                              then bind_res (kfree pg s3) (\<lambda>s4.
                                   bind_res (freevm d s4) (\<lambda>s5. Inr (0, s5)))
                              else copyuvm_loop n pgdir d (i + PGSIZE) sz s3)))
      else Inr (d, s))"

definition copyuvm :: "u32 \<Rightarrow> u32 \<Rightarrow> 'a vm_state_scheme \<Rightarrow> (u32 \<times> 'a vm_state_scheme) res" where
  "copyuvm pgdir sz s =
     bind_res (setupkvm s) (\<lambda>(d, s1).
       if d = 0 then Inr (0, s1) else copyuvm_loop NPAGES pgdir d 0 sz s1)"

definition uva2ka :: "u32 \<Rightarrow> u32 \<Rightarrow> 'a vm_state_scheme \<Rightarrow> u32 res" where
  "uva2ka pgdir uva s =
     (let pte = fst (walkpgdir pgdir uva False s); e = rd32 (ram s) pte
      in if pte = 0 then Inl (Undefined ''uva2ka'')
         else if \<not> pte_present e then Inr 0
         else if e AND PTE_U = 0 then Inr 0
         else Inr (P2V (PTE_ADDR e)))"

text \<open>
  \<open>copyout\<close> takes the bytes of the buffer: the callers pass kernel arrays and strings of the current user image, which
  the copy does not overlap.
\<close>

primrec put_bytes :: "mem \<Rightarrow> u32 \<Rightarrow> u8 list \<Rightarrow> mem" where
  "put_bytes m a [] = m"
| "put_bytes m a (b # bs) = put_bytes (m(a := b)) (a + 1) bs"

function copyout :: "u32 \<Rightarrow> u32 \<Rightarrow> u8 list \<Rightarrow> 'a vm_state_scheme \<Rightarrow> (int \<times> 'a vm_state_scheme) res" where
  "copyout pgdir va bs s =
     (if bs \<noteq> []
      then let va0 = PGROUNDDOWN va
           in (case uva2ka pgdir va0 s of
                 Inl e \<Rightarrow> Inl e
               | Inr pa0 \<Rightarrow>
                   if pa0 = 0 then Inr (-1, s)
                   else let n = min (unat (PGSIZE - (va - va0))) (length bs)
                        in copyout pgdir (va0 + PGSIZE) (drop n bs)
                             (s\<lparr>ram := put_bytes (ram s) (pa0 + (va - va0)) (take n bs)\<rparr>))
      else Inr (0, s))"
  by pat_completeness auto

lemma page_offset: "va - PGROUNDDOWN va < PGSIZE"
proof -
  have "unat (va - PGROUNDDOWN va) = unat va - unat va div 4096 * 4096"
    by (simp add: unat_sub_u32 unat_PGROUNDDOWN)
  then show ?thesis
    by (simp add: word_less_nat_alt minus_div_mult_eq_mod)
qed

lemma copyout_decreases:
  assumes "bs \<noteq> []"
  shows "length (drop (min (unat (PGSIZE - (va - PGROUNDDOWN va))) (length bs)) bs) < length bs"
proof -
  have "0 < unat (PGSIZE - (va - PGROUNDDOWN va))"
    using page_offset [of va] by (simp add: word_less_nat_alt unat_sub_u32)
  moreover have "0 < length bs" using assms by simp
  ultimately show ?thesis unfolding length_drop by linarith
qed

termination copyout
  by (relation "measure (\<lambda>(pgdir, va, bs, s). length bs)")
    (simp, simp only: in_measure prod.case, rule copyout_decreases)

declare copyout.simps [simp del]

section \<open>Cells of a page\<close>

definition word_aligned :: "u32 \<Rightarrow> bool" where
  "word_aligned a \<longleftrightarrow> unat a mod 4 = 0"

lemma word_aligned_disjoint:
  assumes "word_aligned a" and "word_aligned b" and "a \<noteq> b"
  shows "cells_disjoint a b"
proof -
  obtain i j where ij: "unat a = 4 * i" "unat b = 4 * j"
    using assms by (auto simp: word_aligned_def elim!: dvdE)
  have "unat a < 4294967296" "unat b < 4294967296" by (rule unat_u32_less)+
  then have "i < 1073741824" "j < 1073741824" using ij by simp_all
  moreover have "i \<noteq> j" using assms(3) ij by (auto simp: word_unat_eq_iff)
  ultimately show ?thesis
    unfolding cells_disjoint_def word_le_nat_alt unat_sub_u32 ij by auto
qed

definition cell :: "u32 \<Rightarrow> u32 \<Rightarrow> u32" where
  "cell p i = p + 4 * i"

lemma unat_cell:
  assumes "pg_aligned p" and "i < 1024"
  shows "unat (cell p i) = unat p + 4 * unat i"
proof -
  obtain k where k: "unat p = 4096 * k" using assms(1) by (rule pg_alignedE)
  have i: "unat i < 1024" using assms(2) by (simp add: word_less_nat_alt)
  have "unat (4 * i) = 4 * unat i" using i by (simp add: unat_mult_lem [THEN iffD1])
  moreover have "unat p + 4 * unat i < 2 ^ 32" using k i unat_u32_less [of p] by simp
  ultimately show ?thesis by (simp add: cell_def unat_plus_if')
qed

lemma cell_aligned: "pg_aligned p \<Longrightarrow> i < 1024 \<Longrightarrow> word_aligned (cell p i)"
  by (auto simp: word_aligned_def unat_cell elim!: pg_alignedE)

lemma cell_in_page:
  assumes "pg_aligned p" and "i < 1024"
  shows "in_page p (cell p i)"
  using assms by (auto simp: in_page_iff unat_cell word_less_nat_alt elim!: pg_alignedE)

lemma cell_eq_iff:
  assumes "pg_aligned p" and "pg_aligned q" and "i < 1024" and "j < 1024"
  shows "cell p i = cell q j \<longleftrightarrow> p = q \<and> i = j"
proof
  assume eq: "cell p i = cell q j"
  have "p = q"
    using in_page_unique [OF assms(1,2) cell_in_page [OF assms(1,3)]] cell_in_page [OF assms(2,4)] eq
    by simp
  moreover from this have "unat i = unat j"
    using eq assms by (metis unat_cell add_left_cancel mult_left_cancel zero_neq_numeral)
  ultimately show "p = q \<and> i = j" by (simp add: word_unat_eq_iff)
qed simp

lemma rd32_wr32_cell:
  assumes "pg_aligned p" and "pg_aligned q" and "i < 1024" and "j < 1024"
  shows "rd32 (wr32 m (cell p i) v) (cell q j) = (if p = q \<and> i = j then v else rd32 m (cell q j))"
proof (cases "cell p i = cell q j")
  case False
  then have "cells_disjoint (cell p i) (cell q j)"
    using assms by (intro word_aligned_disjoint cell_aligned)
  then show ?thesis using False by auto
qed (use assms in \<open>simp add: cell_eq_iff\<close>)

lemma cell_byte_in_page:
  assumes "pg_aligned p" and "i < 1024" and "unat (x - cell p i) < 4"
  shows "in_page p x"
proof -
  obtain k where k: "unat p = 4096 * k" using assms(1) by (rule pg_alignedE)
  have "unat x = unat (cell p i) + unat (x - cell p i)"
    using k assms unat_u32_less [of p] unat_u32_less [of x]
    by (auto simp: unat_cell unat_sub_u32 word_less_nat_alt split: if_splits)
  then show ?thesis
    using k assms by (auto simp: in_page_iff unat_cell word_less_nat_alt)
qed

lemma rd32_fill_page:
  assumes "pg_aligned p" and "pg_aligned q" and "j < 1024"
  shows "rd32 (fill m p 0 4096) (cell q j) = (if p = q then 0 else rd32 m (cell q j))"
proof -
  have "fill m p 0 4096 x = (if p = q then 0 else m x)" if "unat (x - cell q j) < 4" for x
  proof -
    have "in_page q x" using assms(2,3) that by (rule cell_byte_in_page)
    then have "in_page p x \<longleftrightarrow> p = q" using in_page_unique assms(1,2) by blast
    then show ?thesis by (simp add: fill_def in_page_def)
  qed
  then have "rd32 (fill m p 0 4096) (cell q j) = rd32 (\<lambda>x. if p = q then 0 else m x) (cell q j)"
    by (rule rd32_cong)
  then show ?thesis by (simp add: rd32_def)
qed

lemma rd32_cell_cong:
  assumes "pg_aligned p" and "i < 1024" and "\<And>x. in_page p x \<Longrightarrow> m x = m' x"
  shows "rd32 m (cell p i) = rd32 m' (cell p i)"
  by (rule rd32_cong) (rule assms(3), rule cell_byte_in_page [OF assms(1,2)])

section \<open>What a page table maps\<close>

definition pde_of :: "mem \<Rightarrow> u32 \<Rightarrow> u32 \<Rightarrow> u32" where
  "pde_of m pgdir d = rd32 m (cell pgdir d)"

definition table_of :: "mem \<Rightarrow> u32 \<Rightarrow> u32 \<Rightarrow> u32" where
  "table_of m pgdir d = P2V (PTE_ADDR (pde_of m pgdir d))"

definition pte_of :: "mem \<Rightarrow> u32 \<Rightarrow> u32 \<Rightarrow> u32" where
  "pte_of m pgdir va = rd32 m (cell (table_of m pgdir (PDX va)) (PTX va))"

definition pt_entry :: "mem \<Rightarrow> u32 \<Rightarrow> u32 \<Rightarrow> u32 option" where
  "pt_entry m pgdir va =
     (if pte_present (pde_of m pgdir (PDX va)) \<and> pte_present (pte_of m pgdir va)
      then Some (pte_of m pgdir va) else None)"

text \<open>
  The address the hardware accesses for a virtual address of a page table, and a store of the kernel
  through it: a missing translation is a page fault in kernel mode, on which \<open>trap\<close> panics.
\<close>

definition mmu_addr :: "mem \<Rightarrow> u32 \<Rightarrow> u32 \<Rightarrow> u32 option" where
  "mmu_addr m pgdir va =
     map_option (\<lambda>e. P2V (PTE_ADDR e) + (va - PGROUNDDOWN va)) (pt_entry m pgdir va)"

definition ustore8 :: "u32 \<Rightarrow> u32 \<Rightarrow> u8 \<Rightarrow> 'a vm_state_scheme \<Rightarrow> 'a vm_state_scheme res" where
  "ustore8 pgdir va b s =
     (case mmu_addr (ram s) pgdir va of
        None \<Rightarrow> Inl (Panic ''trap'')
      | Some a \<Rightarrow> Inr (s\<lparr>ram := (ram s)(a := b)\<rparr>))"

definition uload8 :: "u32 \<Rightarrow> u32 \<Rightarrow> 'a vm_state_scheme \<Rightarrow> u8 res" where
  "uload8 pgdir va s =
     (case mmu_addr (ram s) pgdir va of None \<Rightarrow> Inl (Panic ''trap'') | Some a \<Rightarrow> Inr (ram s a))"

definition ustore32 :: "u32 \<Rightarrow> u32 \<Rightarrow> u32 \<Rightarrow> 'a vm_state_scheme \<Rightarrow> 'a vm_state_scheme res" where
  "ustore32 pgdir va v s =
     bind_res (ustore8 pgdir va (ucast v) s) (\<lambda>s1.
     bind_res (ustore8 pgdir (va + 1) (ucast (drop_bit 8 v)) s1) (\<lambda>s2.
     bind_res (ustore8 pgdir (va + 2) (ucast (drop_bit 16 v)) s2) (\<lambda>s3.
     ustore8 pgdir (va + 3) (ucast (drop_bit 24 v)) s3)))"

text \<open>
  A page table is well formed beside the free list \<open>ps\<close>: the directory and its tables are pages of the
  allocator's range that are not free, and no table is used twice.
\<close>

definition pt_inv :: "u32 list \<Rightarrow> u32 \<Rightarrow> 'a vm_state_scheme \<Rightarrow> bool" where
  "pt_inv ps pgdir s \<longleftrightarrow> page_ok s pgdir \<and> pgdir \<notin> set ps \<and>
     (\<forall>d < 1024. pte_present (pde_of (ram s) pgdir d) \<longrightarrow>
        page_ok s (table_of (ram s) pgdir d) \<and> table_of (ram s) pgdir d \<notin> set ps \<and>
        table_of (ram s) pgdir d \<noteq> pgdir \<and>
        (\<forall>d' < 1024. pte_present (pde_of (ram s) pgdir d') \<longrightarrow>
           table_of (ram s) pgdir d = table_of (ram s) pgdir d' \<longrightarrow> d = d'))"

lemma PDX_less: "PDX va < 1024"
  unfolding PDX_def by (rule order_le_less_trans [OF word_and_le1]) simp

lemma PTX_less: "PTX va < 1024"
  unfolding PTX_def by (rule order_le_less_trans [OF word_and_le1]) simp

lemma unat_PDX: "unat (PDX va) = unat va div 4194304"
proof -
  have "drop_bit 22 va AND 0x3FF = drop_bit 22 va AND mask 10" by (simp add: mask_eq_exp_minus_1)
  also have "\<dots> = drop_bit 22 va"
    by (rule bit_word_eqI) (auto simp: bit_simps dest: bit_imp_le_length)
  finally show ?thesis by (simp add: PDX_def drop_bit_eq_div unat_div)
qed

lemma unat_PTX: "unat (PTX va) = unat va div 4096 mod 1024"
proof -
  have "PTX va = take_bit 10 (drop_bit 12 va)"
    by (simp add: PTX_def take_bit_eq_mask mask_eq_exp_minus_1)
  then show ?thesis by (simp add: drop_bit_eq_div take_bit_eq_mod unat_div unat_mod)
qed

lemma div_mod_1024_eq_iff: "(a::nat) div 1024 = b div 1024 \<and> a mod 1024 = b mod 1024 \<longleftrightarrow> a = b"
  by (metis div_mult_mod_eq)

lemma same_page_iff: "PDX va = PDX va' \<and> PTX va = PTX va' \<longleftrightarrow> PGROUNDDOWN va = PGROUNDDOWN va'"
proof -
  have "PDX va = PDX va' \<and> PTX va = PTX va' \<longleftrightarrow>
      unat va div 4096 div 1024 = unat va' div 4096 div 1024 \<and>
      unat va div 4096 mod 1024 = unat va' div 4096 mod 1024"
    unfolding word_unat_eq_iff unat_PDX unat_PTX by (simp add: div_mult2_eq [symmetric])
  then show ?thesis
    by (simp only: div_mod_1024_eq_iff) (simp add: word_unat_eq_iff unat_PGROUNDDOWN)
qed

lemma P2V_aligned:
  assumes "pg_aligned a"
  shows "pg_aligned (P2V a)"
proof -
  obtain k where "unat a = 4096 * k" using assms by (rule pg_alignedE)
  moreover from this have "4096 * k + 2147483648 = 4096 * (k + 524288)"
    "4096 * k - 2147483648 = 4096 * (k - 524288)" by simp_all
  ultimately have "unat (P2V a) = 4096 * (k + 524288) \<or> unat (P2V a) = 4096 * (k - 524288)"
    by (simp add: P2V_def unat_plus_if')
  then show ?thesis by (auto simp: pg_aligned_iff)
qed

lemma PTE_ADDR_alt: "PTE_ADDR x = PGROUNDDOWN x"
  by (simp add: PTE_ADDR_def PGROUNDDOWN_def)

lemma table_aligned: "pg_aligned (table_of m pgdir d)"
  by (simp add: table_of_def PTE_ADDR_alt P2V_aligned PGROUNDDOWN_aligned)

lemma walkpgdir_False:
  "walkpgdir pgdir va False s =
     (if pte_present (pde_of (ram s) pgdir (PDX va))
      then cell (table_of (ram s) pgdir (PDX va)) (PTX va) else 0, s)"
  by (simp add: walkpgdir_def pde_of_def table_of_def cell_def)

section \<open>What the memory code leaves alone\<close>

text \<open>
  None of these operations changes anything but the contents of memory and the head of the free list.
\<close>

named_theorems mem_frames \<open>an operation changes memory and the free list only\<close>

definition mem_only :: "'a kmem_state_scheme \<Rightarrow> 'a kmem_state_scheme \<Rightarrow> bool" where
  "mem_only s s' \<longleftrightarrow> (\<exists>m f. s' = s\<lparr>ram := m, freelist := f\<rparr>)"

lemma mem_only_refl [simp]: "mem_only s s"
proof -
  have "s = s\<lparr>ram := ram s, freelist := freelist s\<rparr>" by simp
  then show ?thesis unfolding mem_only_def by blast
qed

lemma mem_only_trans: "mem_only s1 s2 \<Longrightarrow> mem_only s2 s3 \<Longrightarrow> mem_only s1 s3"
proof -
  assume "mem_only s1 s2" "mem_only s2 s3"
  then obtain m f m' f' where "s2 = s1\<lparr>ram := m, freelist := f\<rparr>" "s3 = s2\<lparr>ram := m', freelist := f'\<rparr>"
    unfolding mem_only_def by blast
  then have "s3 = s1\<lparr>ram := m', freelist := f'\<rparr>" by simp
  then show ?thesis unfolding mem_only_def by blast
qed

lemma mem_only_ram [simp]: "mem_only s (s\<lparr>ram := m\<rparr>)"
proof -
  have "s\<lparr>ram := m\<rparr> = s\<lparr>ram := m, freelist := freelist s\<rparr>" by simp
  then show ?thesis unfolding mem_only_def by blast
qed

lemma mem_only_freelist [simp]: "mem_only s (s\<lparr>freelist := f\<rparr>)"
proof -
  have "s\<lparr>freelist := f\<rparr> = s\<lparr>ram := ram s, freelist := f\<rparr>" by simp
  then show ?thesis unfolding mem_only_def by blast
qed

lemma mem_only_ram_freelist [simp]: "mem_only s (s\<lparr>ram := m, freelist := f\<rparr>)"
  unfolding mem_only_def by blast

lemma mem_only_update: "mem_only s s' \<Longrightarrow> mem_only s (s'\<lparr>ram := m\<rparr>)"
  using mem_only_trans mem_only_ram by blast

lemma kfree_mem [mem_frames]: "kfree v s = Inr s' \<Longrightarrow> mem_only s s'"
  by (auto simp: kfree_Inr_iff)

lemma kalloc_mem [mem_frames]: "kalloc s = (p, s') \<Longrightarrow> mem_only s s'"
  using kalloc_frame by fastforce

lemma walkpgdir_mem [mem_frames]:
  assumes "walkpgdir pgdir va alloc s = (pte, s')"
  shows "mem_only s s'"
  using assms
  by (auto simp: walkpgdir_def Let_def intro: kalloc_mem mem_only_update split: if_splits prod.splits)

lemma mappages_loop_mem:
  "mappages_loop n pgdir a l pa perm s = Inr (r, s') \<Longrightarrow> mem_only s s'"
proof (induction n arbitrary: a pa s)
  case (Suc n)
  obtain pte s1 where w: "walkpgdir pgdir a True s = (pte, s1)" by fastforce
  note m = walkpgdir_mem [OF w]
  show ?case
    using Suc.prems w m mem_only_update [OF m]
    by (auto simp: Let_def split: if_splits dest!: Suc.IH intro: mem_only_trans)
qed simp

lemma mappages_mem [mem_frames]: "mappages pgdir va sz pa perm s = Inr (r, s') \<Longrightarrow> mem_only s s'"
  unfolding mappages_def by (rule mappages_loop_mem)

lemma deallocuvm_loop_mem:
  "deallocuvm_loop n pgdir a oldsz s = Inr s' \<Longrightarrow> mem_only s s'"
proof (induction n arbitrary: a s)
  case (Suc n)
  then show ?case
    by (auto simp: Let_def bind_res_eq_Inr_iff split: if_splits
        dest!: kfree_mem Suc.IH intro: mem_only_trans mem_only_update)
qed (auto split: if_splits)

lemma deallocuvm_mem [mem_frames]: "deallocuvm pgdir oldsz newsz s = Inr (r, s') \<Longrightarrow> mem_only s s'"
  by (auto simp: deallocuvm_def bind_res_eq_Inr_iff dest: deallocuvm_loop_mem split: if_splits)

lemma freevm_entries_mem: "freevm_entries pgdir js s = Inr s' \<Longrightarrow> mem_only s s'"
proof (induction js arbitrary: s)
  case (Cons j js)
  then show ?case
    by (auto simp: Let_def bind_res_eq_Inr_iff split: if_splits dest!: kfree_mem intro: mem_only_trans)
qed auto

lemma freevm_mem [mem_frames]:
  assumes "freevm pgdir s = Inr s'"
  shows "mem_only s s'"
proof -
  obtain r s1 s2 where "deallocuvm pgdir KERNBASE 0 s = Inr (r, s1)"
    "freevm_entries pgdir [0..<NPDENTRIES] s1 = Inr s2" "kfree pgdir s2 = Inr s'"
    using assms by (auto simp: freevm_def bind_res_eq_Inr_iff)
  then show ?thesis
    by (meson deallocuvm_mem freevm_entries_mem kfree_mem mem_only_trans)
qed

lemma setupkvm_map_mem: "setupkvm_map pgdir ks s = Inr (r, s') \<Longrightarrow> mem_only s s'"
proof (induction ks arbitrary: s)
  case (Cons k ks)
  then show ?case
    by (auto simp: bind_res_eq_Inr_iff split: if_splits prod.splits
        dest!: mappages_mem freevm_mem intro: mem_only_trans)
qed auto

lemma setupkvm_mem [mem_frames]:
  assumes "setupkvm s = Inr (r, s')"
  shows "mem_only s s'"
proof -
  obtain pg s1 where k: "kalloc s = (pg, s1)" by fastforce
  have "mem_only s1 s'"
    using assms k setupkvm_map_mem mem_only_trans mem_only_ram
    by (fastforce simp: setupkvm_def Let_def split: if_splits)
  with kalloc_mem [OF k] show ?thesis by (rule mem_only_trans)
qed

lemma allocuvm_loop_mem: "allocuvm_loop n pgdir a oldsz newsz s = Inr (r, s') \<Longrightarrow> mem_only s s'"
proof (induction n arbitrary: a s)
  case (Suc n)
  obtain pg s1 where k: "kalloc s = (pg, s1)" by fastforce
  note k1 = kalloc_mem [OF k] mem_only_update [OF kalloc_mem [OF k]]
  show ?case
    using Suc.prems k k1
    by (auto simp: bind_res_eq_Inr_iff split: if_splits prod.splits
        dest!: Suc.IH mappages_mem deallocuvm_mem kfree_mem intro: mem_only_trans)
qed (auto split: if_splits)

lemma allocuvm_mem [mem_frames]: "allocuvm pgdir oldsz newsz s = Inr (r, s') \<Longrightarrow> mem_only s s'"
  by (auto simp: allocuvm_def split: if_splits dest: allocuvm_loop_mem)

lemma copyuvm_loop_mem: "copyuvm_loop n pgdir d i sz s = Inr (r, s') \<Longrightarrow> mem_only s s'"
proof (induction n arbitrary: i s)
  case (Suc n)
  obtain pg s1 where k: "kalloc s = (pg, s1)" by fastforce
  note k1 = kalloc_mem [OF k] mem_only_update [OF kalloc_mem [OF k]]
  show ?case
    using Suc.prems k k1
    by (auto simp: bind_res_eq_Inr_iff Let_def split: if_splits prod.splits
        dest!: Suc.IH mappages_mem freevm_mem kfree_mem intro: mem_only_trans)
qed (auto split: if_splits)

lemma copyuvm_mem [mem_frames]: "copyuvm pgdir sz s = Inr (r, s') \<Longrightarrow> mem_only s s'"
  by (auto simp: copyuvm_def bind_res_eq_Inr_iff split: if_splits
      dest!: setupkvm_mem copyuvm_loop_mem intro: mem_only_trans)

lemma inituvm_mem [mem_frames]:
  assumes "inituvm pgdir init sz s = Inr s'"
  shows "mem_only s s'"
proof -
  obtain pg s1 where k: "kalloc s = (pg, s1)" by fastforce
  show ?thesis
    using assms k mem_only_update [OF kalloc_mem [OF k]]
    by (auto simp: inituvm_def bind_res_eq_Inr_iff split: if_splits
        dest!: mappages_mem intro: mem_only_trans mem_only_update)
qed

lemma clearpteu_mem [mem_frames]: "clearpteu pgdir uva s = Inr s' \<Longrightarrow> mem_only s s'"
  by (auto simp: clearpteu_def Let_def)

lemma copyout_mem [mem_frames]: "copyout pgdir va bs s = Inr (r, s') \<Longrightarrow> mem_only s s'"
proof (induction pgdir va bs s rule: copyout.induct)
  case (1 pgdir va bs s)
  note step = mem_only_trans [OF mem_only_ram "1.IH" [OF _ refl _ _ refl]]
  from "1.prems" show ?case
    by (subst (asm) copyout.simps)
      (simp add: Let_def split: if_splits sum.splits, auto intro: step)
qed

lemma ustore8_mem: "ustore8 pgdir va b s = Inr s' \<Longrightarrow> mem_only s s'"
  by (auto simp: ustore8_def split: option.splits)

lemma ustore32_mem [mem_frames]: "ustore32 pgdir va v s = Inr s' \<Longrightarrow> mem_only s s'"
  by (auto simp: ustore32_def bind_res_eq_Inr_iff dest!: ustore8_mem intro: mem_only_trans)

section \<open>Entries\<close>

lemma pte_present_odd: "pte_present e \<longleftrightarrow> odd e"
  by (simp add: pte_present_def and_one_eq mod2_eq_if)

lemma pte_present_or: "pte_present (a OR PTE_P)"
  by (simp add: pte_present_odd even_or_iff)

lemma pte_present_0 [simp]: "\<not> pte_present 0"
  by (simp add: pte_present_def)

lemma PTE_ADDR_or: "PTE_ADDR (a OR b) = PTE_ADDR a OR PTE_ADDR b"
  by (simp add: PTE_ADDR_def bit.conj_disj_distrib2)

lemma PTE_ADDR_aligned: "pg_aligned a \<Longrightarrow> PTE_ADDR a = a"
  by (auto simp: PTE_ADDR_alt word_unat_eq_iff unat_PGROUNDDOWN elim!: pg_alignedE)

lemma PTE_ADDR_flags: "f < 4096 \<Longrightarrow> PTE_ADDR f = 0"
  by (simp add: PTE_ADDR_alt word_unat_eq_iff unat_PGROUNDDOWN word_less_nat_alt)

lemma P2V_V2P [simp]: "P2V (V2P a) = a"
  by (simp add: P2V_def V2P_def)

lemma V2P_P2V [simp]: "V2P (P2V a) = a"
  by (simp add: P2V_def V2P_def)

lemma V2P_alt: "V2P a = P2V a"
  by (simp add: P2V_def V2P_def)

lemma V2P_aligned: "pg_aligned a \<Longrightarrow> pg_aligned (V2P a)"
  unfolding V2P_alt by (rule P2V_aligned)

lemma PTE_ADDR_entry:
  assumes "pg_aligned a" and "f < 4096"
  shows "PTE_ADDR (a OR f) = a"
  using assms by (simp add: PTE_ADDR_or PTE_ADDR_aligned PTE_ADDR_flags)

section \<open>Writing page tables\<close>

lemma wr32_cell_other:
  assumes "pg_aligned p" and "i < 1024" and "\<not> in_page p x"
  shows "wr32 m (cell p i) v x = m x"
  using cell_byte_in_page [OF assms(1,2), of x] assms(3) by (intro wr32_outside) linarith

lemma freelist_ram_commute: "s\<lparr>freelist := f, ram := m\<rparr> = s\<lparr>ram := m, freelist := f\<rparr>"
  by (cases s) simp

lemma kmem_inv_ram:
  assumes "kmem_inv ps s" and "\<And>p x. p \<in> set ps \<Longrightarrow> in_page p x \<Longrightarrow> m x = ram s x"
  shows "kmem_inv ps (s\<lparr>ram := m\<rparr>)"
proof -
  have "free_chain m (freelist s) ps = free_chain (ram s) (freelist s) ps"
    by (rule free_chain_cong) (rule assms(2))
  with assms(1) show ?thesis by (simp add: kmem_inv_def page_ok_def)
qed

definition pt_owned :: "u32 list \<Rightarrow> u32 \<Rightarrow> 'a vm_state_scheme \<Rightarrow> u32 set" where
  "pt_owned ps pgdir s =
     insert pgdir (set ps \<union> table_of (ram s) pgdir ` {d. d < 1024 \<and> pte_present (pde_of (ram s) pgdir d)})"

text \<open>
  \<open>vm_ext pgdir ps s ps' s'\<close>: from \<open>s\<close> to \<open>s'\<close> the page table \<open>pgdir\<close> was extended with pages taken from the
  free list \<open>ps\<close>; both stay well formed and no byte outside the table and the free pages changed.
\<close>

definition vm_ext ::
  "u32 \<Rightarrow> u32 list \<Rightarrow> 'a vm_state_scheme \<Rightarrow> u32 list \<Rightarrow> 'a vm_state_scheme \<Rightarrow> bool" where
  "vm_ext pgdir ps s ps' s' \<longleftrightarrow>
     kmem_inv ps' s' \<and> pt_inv ps' pgdir s' \<and> set ps' \<subseteq> set ps \<and>
     pt_owned ps' pgdir s' \<subseteq> pt_owned ps pgdir s \<and>
     (\<forall>x. (\<forall>p \<in> pt_owned ps pgdir s. \<not> in_page p x) \<longrightarrow> ram s' x = ram s x) \<and>
     (\<exists>m f. s' = s\<lparr>ram := m, freelist := f\<rparr>)"

lemma vm_ext_refl: "kmem_inv ps s \<Longrightarrow> pt_inv ps pgdir s \<Longrightarrow> vm_ext pgdir ps s ps s"
  by (auto simp: vm_ext_def intro!: exI [of _ "ram s"] exI [of _ "freelist s"])

lemma vm_ext_trans:
  assumes "vm_ext pgdir ps s ps1 s1" and "vm_ext pgdir ps1 s1 ps2 s2"
  shows "vm_ext pgdir ps s ps2 s2"
proof -
  obtain m f m' f' where "s1 = s\<lparr>ram := m, freelist := f\<rparr>" "s2 = s1\<lparr>ram := m', freelist := f'\<rparr>"
    using assms unfolding vm_ext_def by blast
  then have "s2 = s\<lparr>ram := m', freelist := f'\<rparr>" by simp
  then have "\<exists>m f. s2 = s\<lparr>ram := m, freelist := f\<rparr>" by blast
  moreover have "ram s2 x = ram s x" if "\<forall>p \<in> pt_owned ps pgdir s. \<not> in_page p x" for x
  proof -
    have "ram s1 x = ram s x" using assms(1) that by (simp add: vm_ext_def)
    moreover have "\<forall>p \<in> pt_owned ps1 pgdir s1. \<not> in_page p x"
      using assms(1) that by (auto simp: vm_ext_def)
    then have "ram s2 x = ram s1 x" using assms(2) by (simp add: vm_ext_def)
    ultimately show ?thesis by simp
  qed
  ultimately show ?thesis using assms unfolding vm_ext_def by blast
qed

lemma vm_extD:
  assumes "vm_ext pgdir ps s ps' s'"
  shows "kmem_inv ps' s'" "pt_inv ps' pgdir s'" "set ps' \<subseteq> set ps"
    and "pt_owned ps' pgdir s' \<subseteq> pt_owned ps pgdir s"
    and "\<And>x. \<forall>p \<in> pt_owned ps pgdir s. \<not> in_page p x \<Longrightarrow> ram s' x = ram s x"
  using assms unfolding vm_ext_def by blast+

lemma pt_invD:
  assumes "pt_inv ps pgdir s"
  shows "page_ok s pgdir" "pg_aligned pgdir" "pgdir \<notin> set ps"
    and "\<And>d. d < 1024 \<Longrightarrow> pte_present (pde_of (ram s) pgdir d) \<Longrightarrow>
           page_ok s (table_of (ram s) pgdir d) \<and> table_of (ram s) pgdir d \<notin> set ps \<and>
           table_of (ram s) pgdir d \<noteq> pgdir"
    and "\<And>d d'. d < 1024 \<Longrightarrow> d' < 1024 \<Longrightarrow> pte_present (pde_of (ram s) pgdir d) \<Longrightarrow>
           pte_present (pde_of (ram s) pgdir d') \<Longrightarrow>
           table_of (ram s) pgdir d = table_of (ram s) pgdir d' \<Longrightarrow> d = d'"
  using assms unfolding pt_inv_def page_ok_def by blast+

lemma cell_nonzero:
  assumes "page_ok s p" and "i < 1024"
  shows "cell p i \<noteq> 0"
proof
  assume "cell p i = 0"
  moreover have "pg_aligned p" using assms(1) by (simp add: page_ok_def)
  ultimately have "unat p = 0" using unat_cell [of p i] assms(2) by simp
  then show False using page_ok_nonzero [OF assms(1)] by (simp add: unat_eq_zero)
qed

text \<open>Writing one page table entry.\<close>

lemma write_pte:
  fixes v :: u32
  assumes inv: "kmem_inv ps s" "pt_inv ps pgdir s"
    and present: "pte_present (pde_of (ram s) pgdir (PDX va))"
  defines "s' \<equiv> s\<lparr>ram := wr32 (ram s) (cell (table_of (ram s) pgdir (PDX va)) (PTX va)) v\<rparr>"
  shows "vm_ext pgdir ps s ps s'"
    and "\<And>d. d < 1024 \<Longrightarrow> pde_of (ram s') pgdir d = pde_of (ram s) pgdir d"
    and "pt_entry (ram s') pgdir va' =
           (if PGROUNDDOWN va' = PGROUNDDOWN va then if pte_present v then Some v else None
            else pt_entry (ram s) pgdir va')"
proof -
  let ?t = "table_of (ram s) pgdir (PDX va)"
  note D = pt_invD [OF inv(2)]
  have t: "page_ok s ?t" "?t \<notin> set ps" "?t \<noteq> pgdir" "pg_aligned ?t"
    using D(4) [OF PDX_less present] by (simp_all add: table_aligned)
  show pde: "pde_of (ram s') pgdir d = pde_of (ram s) pgdir d" if "d < 1024" for d
    using t D(2) that by (simp add: pde_of_def s'_def rd32_wr32_cell PTX_less)
  then have tab: "table_of (ram s') pgdir d = table_of (ram s) pgdir d" if "d < 1024" for d
    using that by (simp add: table_of_def)
  have other: "\<not> in_page ?t x \<Longrightarrow> ram s' x = ram s x" for x
    by (simp add: s'_def wr32_cell_other t PTX_less)
  have "kmem_inv ps s'"
    unfolding s'_def
  proof (rule kmem_inv_ram [OF inv(1)])
    fix p x assume "p \<in> set ps" "in_page p x"
    then have "\<not> in_page ?t x"
      using in_page_unique [of ?t p x] t inv(1) by (auto simp: kmem_inv_def page_ok_def)
    then show "wr32 (ram s) (cell ?t (PTX va)) v x = ram s x"
      by (simp add: wr32_cell_other t PTX_less)
  qed
  moreover have "pt_inv ps pgdir s'"
    using inv(2) by (simp add: pt_inv_def pde tab) (simp add: s'_def page_ok_def)
  moreover have "pt_owned ps pgdir s' = pt_owned ps pgdir s"
    using tab by (auto simp: pt_owned_def pde image_iff cong: conj_cong)
  moreover have "?t \<in> pt_owned ps pgdir s"
    using present PDX_less by (auto simp: pt_owned_def)
  moreover have "\<exists>m f. s' = s\<lparr>ram := m, freelist := f\<rparr>"
    unfolding s'_def by (rule exI, rule exI [of _ "freelist s"]) simp
  ultimately show "vm_ext pgdir ps s ps s'"
    unfolding vm_ext_def using other by blast
  show "pt_entry (ram s') pgdir va' =
      (if PGROUNDDOWN va' = PGROUNDDOWN va then if pte_present v then Some v else None
       else pt_entry (ram s) pgdir va')"
  proof (cases "pte_present (pde_of (ram s) pgdir (PDX va'))")
    case True
    have "table_of (ram s) pgdir (PDX va') = ?t \<longleftrightarrow> PDX va' = PDX va"
      using D(5) [OF PDX_less PDX_less True present] by auto
    moreover have "ram s' = wr32 (ram s) (cell ?t (PTX va)) v" by (simp add: s'_def)
    ultimately have "pte_of (ram s') pgdir va' =
        (if PGROUNDDOWN va' = PGROUNDDOWN va then v else pte_of (ram s) pgdir va')"
      unfolding pte_of_def tab [OF PDX_less] same_page_iff [symmetric]
      by (auto simp: rd32_wr32_cell t table_aligned PTX_less)
    then show ?thesis using True by (simp add: pt_entry_def pde PDX_less)
  next
    case False
    then have "PGROUNDDOWN va' \<noteq> PGROUNDDOWN va" using present same_page_iff by metis
    with False show ?thesis by (simp add: pt_entry_def pde PDX_less)
  qed
qed

text \<open>Walking to an entry, with allocation of the table.\<close>

lemma new_table:
  assumes inv: "kmem_inv (t # ps) s" "pt_inv (t # ps) pgdir s"
    and absent: "\<not> pte_present (pde_of (ram s) pgdir D)" and D: "D < 1024"
  defines "s' \<equiv> s\<lparr>ram := wr32 (memset (ram s) t 0 PGSIZE) (cell pgdir D)
                            (V2P t OR PTE_P OR PTE_W OR PTE_U), freelist := rd32 (ram s) t\<rparr>"
  shows "vm_ext pgdir (t # ps) s ps s'"
    and "pte_present (pde_of (ram s') pgdir D)" and "table_of (ram s') pgdir D = t"
    and "pt_entry (ram s') pgdir va' = pt_entry (ram s) pgdir va'"
proof -
  let ?v = "V2P t OR PTE_P OR PTE_W OR PTE_U"
  note I = pt_invD [OF inv(2)]
  have t: "page_ok s t" "pg_aligned t" "t \<noteq> pgdir" "t \<notin> set ps"
    using inv(1) I(3) by (auto simp: kmem_inv_def page_ok_def)
  have ram': "ram s' = wr32 (fill (ram s) t 0 4096) (cell pgdir D) ?v"
    by (simp add: s'_def memset_eq_fill)
  have v: "pte_present ?v" "P2V (PTE_ADDR ?v) = t"
  proof -
    have "?v = V2P t OR 7" by (simp add: or.assoc)
    then show "P2V (PTE_ADDR ?v) = t" by (simp add: PTE_ADDR_entry V2P_aligned t)
    show "pte_present ?v" by (simp add: pte_present_odd even_or_iff)
  qed
  have rd: "rd32 (ram s') (cell q j) =
      (if q = pgdir \<and> j = D then ?v else if q = t then 0 else rd32 (ram s) (cell q j))"
    if "pg_aligned q" "j < 1024" for q j
    using that t I(2) D by (auto simp: ram' rd32_wr32_cell rd32_fill_page)
  have pde: "pde_of (ram s') pgdir d = (if d = D then ?v else pde_of (ram s) pgdir d)" if "d < 1024" for d
    using that rd [OF I(2) that] t by (simp add: pde_of_def)
  show present: "pte_present (pde_of (ram s') pgdir D)" using v D by (simp add: pde)
  show tabD: "table_of (ram s') pgdir D = t" using v D by (simp add: table_of_def pde)
  have tab: "table_of (ram s') pgdir d = table_of (ram s) pgdir d" if "d < 1024" "d \<noteq> D" for d
    using that by (simp add: table_of_def pde)
  have other: "ram s' x = ram s x" if "\<not> in_page pgdir x" "\<not> in_page t x" for x
    using that I(2) D by (simp add: ram' wr32_cell_other fill_def in_page_def)
  have "kmem_inv ps (s\<lparr>freelist := rd32 (ram s) t\<rparr>)" using kalloc_inv(2) [OF inv(1)] .
  then have "kmem_inv ps ((s\<lparr>freelist := rd32 (ram s) t\<rparr>)\<lparr>ram := ram s'\<rparr>)"
  proof (rule kmem_inv_ram)
    fix p x assume p: "p \<in> set ps" "in_page p x"
    then have "pg_aligned p" using inv(1) by (auto simp: kmem_inv_def page_ok_def)
    with p have "\<not> in_page pgdir x" "\<not> in_page t x"
      using in_page_unique [of p pgdir x] in_page_unique [of p t x] I(2,3) t by auto
    then show "ram s' x = ram (s\<lparr>freelist := rd32 (ram s) t\<rparr>) x" by (simp add: other)
  qed
  then have "kmem_inv ps s'" by (simp add: s'_def kmem_inv_def page_ok_def)
  moreover have "pt_inv ps pgdir s'"
  proof -
    have ok: "page_ok s' = page_ok s" by (simp add: page_ok_def s'_def fun_eq_iff)
    have "pte_present (pde_of (ram s) pgdir d)" if "d < 1024" "d \<noteq> D" "pte_present (pde_of (ram s') pgdir d)" for d
      using that by (simp add: pde)
    then show ?thesis
      unfolding pt_inv_def ok using I t tab tabD by (metis list.set_intros(2) list.set_intros(1))
  qed
  moreover have "pt_owned ps pgdir s' \<subseteq> pt_owned (t # ps) pgdir s"
  proof -
    have "table_of (ram s') pgdir d = t \<or>
        pte_present (pde_of (ram s) pgdir d) \<and> table_of (ram s') pgdir d = table_of (ram s) pgdir d"
      if "d < 1024" "pte_present (pde_of (ram s') pgdir d)" for d
      using that tabD tab [of d] pde [of d] by (cases "d = D") simp_all
    then show ?thesis unfolding pt_owned_def by fastforce
  qed
  moreover have "\<exists>m f. s' = s\<lparr>ram := m, freelist := f\<rparr>" unfolding s'_def by blast
  ultimately show "vm_ext pgdir (t # ps) s ps s'"
    unfolding vm_ext_def using other by (auto simp: pt_owned_def)
  show "pt_entry (ram s') pgdir va' = pt_entry (ram s) pgdir va'"
  proof (cases "PDX va' = D")
    case True
    then have "pte_of (ram s') pgdir va' = 0"
      using t by (simp add: pte_of_def tabD rd PTX_less)
    then show ?thesis using True absent by (simp add: pt_entry_def)
  next
    case False
    have "pte_of (ram s') pgdir va' = pte_of (ram s) pgdir va'" if "pte_present (pde_of (ram s) pgdir (PDX va'))"
      using I(4) [OF PDX_less that] False
      by (auto simp: pte_of_def tab PDX_less rd table_aligned PTX_less)
    then show ?thesis using False by (auto simp: pt_entry_def pde PDX_less)
  qed
qed

lemma walkpgdir_True:
  assumes inv: "kmem_inv ps s" "pt_inv ps pgdir s"
  obtains (full) "walkpgdir pgdir va True s = (0, s)" "ps = []"
  | (entry) s1 ps1 where "walkpgdir pgdir va True s = (cell (table_of (ram s1) pgdir (PDX va)) (PTX va), s1)"
      and "cell (table_of (ram s1) pgdir (PDX va)) (PTX va) \<noteq> 0"
      and "vm_ext pgdir ps s ps1 s1" and "pte_present (pde_of (ram s1) pgdir (PDX va))"
      and "\<And>va'. pt_entry (ram s1) pgdir va' = pt_entry (ram s) pgdir va'"
proof (cases "pte_present (pde_of (ram s) pgdir (PDX va))")
  case True
  have "cell (table_of (ram s) pgdir (PDX va)) (PTX va) \<noteq> 0"
    using pt_invD(4) [OF inv(2) PDX_less True] cell_nonzero PTX_less by blast
  moreover have "walkpgdir pgdir va True s = (cell (table_of (ram s) pgdir (PDX va)) (PTX va), s)"
    using True by (simp add: walkpgdir_def pde_of_def table_of_def cell_def)
  ultimately show thesis using entry [of s ps] vm_ext_refl [OF inv] True by blast
next
  case absent: False
  show thesis
  proof (cases ps)
    case Nil
    then have "kalloc s = (0, s)" using inv(1) by (simp add: kalloc_empty)
    then show thesis
      using absent Nil full by (simp add: walkpgdir_def pde_of_def cell_def)
  next
    case (Cons t ps1)
    let ?s1 = "s\<lparr>ram := wr32 (memset (ram s) t 0 PGSIZE) (cell pgdir (PDX va))
                            (V2P t OR PTE_P OR PTE_W OR PTE_U), freelist := rd32 (ram s) t\<rparr>"
    have k: "kalloc s = (t, s\<lparr>freelist := rd32 (ram s) t\<rparr>)" "page_ok s t"
      using kalloc_inv inv(1) Cons by (auto simp: kmem_inv_def)
    note N = new_table [OF inv [unfolded Cons] absent PDX_less]
    have "walkpgdir pgdir va True s = (cell t (PTX va), ?s1)"
      using absent k page_ok_nonzero [OF k(2)]
      by (simp add: walkpgdir_def pde_of_def cell_def freelist_ram_commute)
    then show thesis
      using entry [of ?s1 ps1] N Cons cell_nonzero [OF k(2) PTX_less] by simp
  qed
qed

section \<open>Mapping a range\<close>

definition map_range ::
  "(u32 \<Rightarrow> u32 option) \<Rightarrow> u32 \<Rightarrow> nat \<Rightarrow> u32 \<Rightarrow> u32 \<Rightarrow> u32 \<Rightarrow> u32 option" where
  "map_range E a j pa perm va =
     (if unat (va - a) < 4096 * j then Some ((pa + (PGROUNDDOWN va - a)) OR perm OR PTE_P) else E va)"

lemma in_page_PGROUNDDOWN:
  assumes "pg_aligned a"
  shows "unat (va - a) < 4096 \<longleftrightarrow> PGROUNDDOWN va = a"
proof -
  obtain k where "unat a = 4096 * k" using assms by (rule pg_alignedE)
  then show ?thesis
    using in_page_iff [OF assms, of va] by (auto simp: in_page_def word_unat_eq_iff unat_PGROUNDDOWN)
qed

lemma unat_next_page:
  fixes va a :: u32
  assumes "j < 0x100000"
  shows "unat (va - (a + PGSIZE)) < 4096 * j \<longleftrightarrow> 4096 \<le> unat (va - a) \<and> unat (va - a) < 4096 * (j + 1)"
proof -
  have "unat (va - (a + PGSIZE)) = unat ((va - a) - PGSIZE)" by (simp add: algebra_simps)
  then show ?thesis
    using assms unat_u32_less [of "va - a"] by (auto simp: unat_sub_u32)
qed

lemma map_range_next:
  assumes "pg_aligned a" and "j < 0x100000"
  shows "map_range (\<lambda>va. if PGROUNDDOWN va = a then Some (pa OR perm OR PTE_P) else E va)
           (a + PGSIZE) j (pa + PGSIZE) perm va = map_range E a (Suc j) pa perm va"
proof -
  have "pa + PGSIZE + (PGROUNDDOWN va - (a + PGSIZE)) = pa + (PGROUNDDOWN va - a)"
    by (simp add: algebra_simps)
  moreover have "PGROUNDDOWN va = a \<longleftrightarrow> unat (va - a) < 4096"
    using in_page_PGROUNDDOWN [OF assms(1)] by simp
  ultimately show ?thesis
    using unat_next_page [OF assms(2), of va a] by (auto simp: map_range_def)
qed

lemma pg_aligned_next: "pg_aligned a \<Longrightarrow> pg_aligned (a + PGSIZE)"
proof -
  assume "pg_aligned a"
  then obtain k where k: "unat a = 4096 * k" by (rule pg_alignedE)
  then have "unat (a + PGSIZE) = 4096 * (k + 1) \<or> unat (a + PGSIZE) = 0"
    using unat_u32_less [of a] by (auto simp: unat_plus_if')
  then show "pg_aligned (a + PGSIZE)" by (auto simp: pg_aligned_iff)
qed

lemma unat_pages: "k < 0x100000 \<Longrightarrow> unat (PGSIZE * of_nat k) = 4096 * k"
  by (simp add: unat_word_ariths unat_of_nat take_bit_nat_eq_self)

lemma pages_nonzero: "0 < k \<Longrightarrow> k < 0x100000 \<Longrightarrow> PGSIZE * of_nat k \<noteq> 0"
  using unat_pages [of k] by force

lemma mappages_loop_maps:
  assumes "kmem_inv ps s" and "pt_inv ps pgdir s" and "pg_aligned a"
    and "lastpg = a + PGSIZE * of_nat k" and "k < n" and "k < 0x100000"
    and "\<And>va. unat (va - a) < 4096 * Suc k \<Longrightarrow> pt_entry (ram s) pgdir va = None"
  shows "\<exists>r s' ps' j. mappages_loop n pgdir a lastpg pa perm s = Inr (r, s') \<and>
           vm_ext pgdir ps s ps' s' \<and> (r = 0 \<and> j = Suc k \<or> r = -1 \<and> j \<le> k \<and> ps' = []) \<and>
           pt_entry (ram s') pgdir = map_range (pt_entry (ram s) pgdir) a j pa perm"
  using assms
proof (induction n arbitrary: ps s a k pa)
  case (Suc n)
  note inv = Suc.prems(1,2) and al = Suc.prems(3)
  have pa0: "PGROUNDDOWN a = a" using in_page_PGROUNDDOWN [OF al, of a] by simp
  from inv show ?case
  proof (cases rule: walkpgdir_True [of ps s pgdir a])
    case full
    have "map_range (pt_entry (ram s) pgdir) a 0 pa perm = pt_entry (ram s) pgdir"
      by (simp add: map_range_def fun_eq_iff)
    with full vm_ext_refl [OF inv] show ?thesis
      by (intro exI [of _ "-1"] exI [of _ s] exI [of _ ps] exI [of _ 0]) simp
  next
    case (entry s1 ps1)
    let ?pte = "cell (table_of (ram s1) pgdir (PDX a)) (PTX a)"
    let ?s2 = "s1\<lparr>ram := wr32 (ram s1) ?pte (pa OR perm OR PTE_P)\<rparr>"
    note W = write_pte [OF vm_extD(1,2) [OF entry(3)] entry(4), where v = "pa OR perm OR PTE_P"]
    have ext: "vm_ext pgdir ps s ps1 ?s2" using vm_ext_trans [OF entry(3) W(1)] .
    have ent: "pt_entry (ram ?s2) pgdir =
        (\<lambda>va. if PGROUNDDOWN va = a then Some (pa OR perm OR PTE_P) else pt_entry (ram s) pgdir va)"
      using W(3) entry(5) by (simp add: fun_eq_iff pa0 pte_present_or or.assoc [symmetric])
    have "\<not> pte_present (rd32 (ram s1) ?pte)"
      using Suc.prems(7) [of a] entry(4) entry(5) [of a] by (auto simp: pt_entry_def pte_of_def split: if_splits)
    then have loop: "mappages_loop (Suc n) pgdir a lastpg pa perm s =
        (if a = lastpg then Inr (0, ?s2)
         else mappages_loop n pgdir (a + PGSIZE) lastpg (pa + PGSIZE) perm ?s2)"
      using entry(1,2) by simp
    show ?thesis
    proof (cases k)
      case 0
      have "map_range (pt_entry (ram s) pgdir) a (Suc 0) pa perm = pt_entry (ram ?s2) pgdir"
        unfolding ent using in_page_PGROUNDDOWN [OF al] by (auto simp: map_range_def fun_eq_iff)
      with 0 ext loop Suc.prems(4) show ?thesis by fastforce
    next
      case (Suc k')
      have ne: "a \<noteq> lastpg" using Suc Suc.prems(4,6) pages_nonzero [of k] by simp
      have "pt_entry (ram ?s2) pgdir va = None" if "unat (va - (a + PGSIZE)) < 4096 * Suc k'" for va
        unfolding ent
        using that Suc.prems(6,7) Suc unat_next_page [of "Suc k'" va a] in_page_PGROUNDDOWN [OF al, of va]
        by auto
      then have "\<exists>r s' ps' j. mappages_loop n pgdir (a + PGSIZE) lastpg (pa + PGSIZE) perm ?s2 = Inr (r, s') \<and>
           vm_ext pgdir ps1 ?s2 ps' s' \<and> (r = 0 \<and> j = Suc k' \<or> r = -1 \<and> j \<le> k' \<and> ps' = []) \<and>
           pt_entry (ram s') pgdir = map_range (pt_entry (ram ?s2) pgdir) (a + PGSIZE) j (pa + PGSIZE) perm"
        using Suc Suc.prems(4-6) vm_extD(1,2) [OF ext]
        by (intro Suc.IH) (auto simp: pg_aligned_next al algebra_simps)
      then obtain r s' ps' j where R: "mappages_loop n pgdir (a + PGSIZE) lastpg (pa + PGSIZE) perm ?s2 = Inr (r, s')"
        "vm_ext pgdir ps1 ?s2 ps' s'" "r = 0 \<and> j = Suc k' \<or> r = -1 \<and> j \<le> k' \<and> ps' = []"
        "pt_entry (ram s') pgdir = map_range (pt_entry (ram ?s2) pgdir) (a + PGSIZE) j (pa + PGSIZE) perm"
        by blast
      have "pt_entry (ram s') pgdir = map_range (pt_entry (ram s) pgdir) a (Suc j) pa perm"
        unfolding R(4) ent using map_range_next [OF al] R(3) Suc Suc.prems(6) by (auto simp: fun_eq_iff)
      moreover have "vm_ext pgdir ps s ps' s'" using vm_ext_trans [OF ext R(2)] .
      ultimately show ?thesis using loop ne R(1,3) Suc by fastforce
    qed
  qed
qed simp

lemma page_count:
  fixes a b :: u32
  assumes "pg_aligned a" and "pg_aligned b"
  defines "k \<equiv> unat (b - a) div 4096"
  shows "b = a + PGSIZE * of_nat k" and "k < 0x100000"
proof -
  obtain i j where ij: "unat a = 4096 * i" "unat b = 4096 * j"
    using assms(1,2) by (blast elim: pg_alignedE)
  show k: "k < 0x100000" using unat_u32_less [of "b - a"] by (simp add: k_def)
  have "unat (b - a) = 4096 * (if i \<le> j then j - i else j + 1048576 - i)"
    using ij by (simp add: unat_sub_u32 diff_mult_distrib2)
  then have "unat (b - a) = 4096 * k" by (simp add: k_def)
  then have "b - a = PGSIZE * of_nat k" by (simp add: word_unat_eq_iff unat_pages k)
  then show "b = a + PGSIZE * of_nat k" by (simp add: algebra_simps)
qed

lemma mappages_maps:
  fixes va sz :: u32
  assumes "kmem_inv ps s" and "pt_inv ps pgdir s"
    and a: "a = PGROUNDDOWN va" and k: "k = unat (PGROUNDDOWN (va + sz - 1) - PGROUNDDOWN va) div 4096"
    and "\<And>va'. unat (va' - a) < 4096 * Suc k \<Longrightarrow> pt_entry (ram s) pgdir va' = None"
  shows "\<exists>r s' ps' j. mappages pgdir va sz pa perm s = Inr (r, s') \<and>
           vm_ext pgdir ps s ps' s' \<and> (r = 0 \<and> j = Suc k \<or> r = -1 \<and> j \<le> k \<and> ps' = []) \<and>
           pt_entry (ram s') pgdir = map_range (pt_entry (ram s) pgdir) a j pa perm"
  unfolding mappages_def a [symmetric]
proof (rule mappages_loop_maps [OF assms(1,2)])
  show "PGROUNDDOWN (va + sz - 1) = a + PGSIZE * of_nat k" "k < NPAGES" "k < 0x100000"
    unfolding a k by (rule page_count [OF PGROUNDDOWN_aligned PGROUNDDOWN_aligned])+
qed (simp_all add: a PGROUNDDOWN_aligned assms(5))

section \<open>Properties\<close>

text \<open>
  Property C11. \<open>mappages\<close> on a range with no mapped page never panics and never loops: it returns 0 with
  exactly the pages of the range mapped, in order, to consecutive frames with the requested permissions,
  or -1 with a prefix of them mapped when the free list is exhausted.  Every other translation, and
  every byte outside the page table and the pages that were free, is unchanged.
\<close>

theorem mappages_correct:
  fixes va sz :: u32
  defines "a \<equiv> PGROUNDDOWN va" and "k \<equiv> unat (PGROUNDDOWN (va + sz - 1) - PGROUNDDOWN va) div 4096"
  assumes "kmem_inv ps s" and "pt_inv ps pgdir s"
    and "\<And>va'. unat (va' - a) < 4096 * Suc k \<Longrightarrow> pt_entry (ram s) pgdir va' = None"
  shows "\<exists>r s' ps' j. mappages pgdir va sz pa perm s = Inr (r, s') \<and>
           (r = 0 \<and> j = Suc k \<or> r = -1 \<and> j \<le> k \<and> ps' = []) \<and>
           kmem_inv ps' s' \<and> pt_inv ps' pgdir s' \<and>
           pt_entry (ram s') pgdir = map_range (pt_entry (ram s) pgdir) a j pa perm \<and>
           (\<forall>x. (\<forall>p \<in> pt_owned ps pgdir s. \<not> in_page p x) \<longrightarrow> ram s' x = ram s x)"
  using mappages_maps [OF assms(3,4) meta_eq_to_obj_eq [OF a_def] meta_eq_to_obj_eq [OF k_def] assms(5)]
  unfolding vm_ext_def by blast

definition vm_boot :: vm_state where
  "vm_boot =
     \<lparr>cpus = [], ncpu = 0, eflags_IF = (\<lambda>_. False),
      kmem_lock = \<lparr>lk_locked = False, lk_name = [], lk_cpu = None, lk_pcs = []\<rparr>,
      ram = (\<lambda>_. 0), kend = 0x80108000, use_lock = False, freelist = 0x80300000,
      kdata = 0x80108000, kpgdir = 0\<rparr>"

lemma rd32_zero [simp]: "rd32 (\<lambda>_. 0) a = 0"
  by (simp add: rd32_def)

lemma vm_boot_inv: "kmem_inv [0x80300000] vm_boot" "pt_inv [0x80300000] 0x80200000 vm_boot"
  by (simp_all add: kmem_inv_def pt_inv_def vm_boot_def page_ok_def pg_aligned_def V2P_def pde_of_def)

theorem mappages_correct_witness:
  "\<exists>r s'. mappages 0x80200000 0x1000 0x1000 0x300000 6 vm_boot = Inr (r, s') \<and> (r = 0 \<or> r = -1)"
proof -
  have "pt_entry (ram vm_boot) 0x80200000 va' = None" for va'
    by (simp add: pt_entry_def pde_of_def vm_boot_def)
  from mappages_correct [OF vm_boot_inv this, of "0x1000" "0x1000"] show ?thesis by blast
qed

end
