(* ===== verification/ProcTable.thy ===== *)
theory ProcTable
  imports Vm
begin

text \<open>
  The process and group tables of kernel/proc.h and kernel/proc.c, with the kernel state that the
  process code shares.  A \<open>struct proc *\<close> is an index into the process table and the null pointer is
  \<open>None\<close>; trap frames and contexts are addresses of the kernel stack page in \<open>ram\<close>, as in the source.
\<close>

abbreviation NPROC :: nat where "NPROC \<equiv> 64"
abbreviation NCPU :: nat where "NCPU \<equiv> 8"
abbreviation NOFILE :: nat where "NOFILE \<equiv> 16"
abbreviation KSTACKSIZE :: u32 where "KSTACKSIZE \<equiv> 4096"
abbreviation NGROUPS :: nat where "NGROUPS \<equiv> 16"
abbreviation FSS_BIG :: u32 where "FSS_BIG \<equiv> 100000"

datatype procstate = UNUSED | EMBRYO | SLEEPING | RUNNABLE | RUNNING | ZOMBIE

record proc =
  p_sz :: u32
  p_pgdir :: u32
  p_kstack :: u32
  p_state :: procstate
  p_pid :: int
  p_parent :: "nat option"
  p_tf :: u32
  p_context :: u32
  p_chan :: "chan option"
  p_killed :: bool
  p_ofile :: "nat option list"
  p_cwd :: "nat option"
  p_name :: "u8 list"
  p_gid :: int
  p_rtime :: int
  p_wtime :: int
  p_stime :: int

record group =
  g_gid :: int
  g_active :: bool
  g_pass :: u32
  g_stride :: u32
  g_rr_cursor :: nat

text \<open>
  \<open>sched_g c\<close> is the local variable \<open>g\<close> of \<open>scheduler\<close> on processor \<open>c\<close>: it lives on the scheduler's stack
  while a process runs.  \<open>forkret_first\<close> is the static variable of \<open>forkret\<close>; \<open>sym_forkret\<close> and
  \<open>sym_trapret\<close> are code addresses of the image.
\<close>

record kernel = vm_state +
  ptable_lock :: spinlock
  ptable :: "proc list"
  nextpid :: int
  initproc :: "nat option"
  gtable :: "group list"
  sched_g :: "nat \<Rightarrow> nat option"
  forkret_first :: bool
  sym_forkret :: u32
  sym_trapret :: u32
  tickslock :: spinlock
  ticks :: u32

definition upd_proc :: "nat \<Rightarrow> (proc \<Rightarrow> proc) \<Rightarrow> 'a kernel_scheme \<Rightarrow> 'a kernel_scheme" where
  "upd_proc i f s = s\<lparr>ptable := (ptable s)[i := f (ptable s ! i)]\<rparr>"

definition upd_group :: "nat \<Rightarrow> (group \<Rightarrow> group) \<Rightarrow> 'a kernel_scheme \<Rightarrow> 'a kernel_scheme" where
  "upd_group i f s = s\<lparr>gtable := (gtable s)[i := f (gtable s ! i)]\<rparr>"

lemma ptable_upd_proc [simp]: "ptable (upd_proc i f s) = (ptable s)[i := f (ptable s ! i)]"
  by (simp add: upd_proc_def)

lemma gtable_upd_proc [simp]: "gtable (upd_proc i f s) = gtable s"
  by (simp add: upd_proc_def)

lemma gtable_upd_group [simp]: "gtable (upd_group i f s) = (gtable s)[i := f (gtable s ! i)]"
  by (simp add: upd_group_def)

lemma ptable_upd_group [simp]: "ptable (upd_group i f s) = ptable s"
  by (simp add: upd_group_def)

section \<open>The tables before boot\<close>

text \<open>The zeroed image of a process, and a kernel state with given tables and everything else zero.\<close>

definition zero_proc :: proc where
  "zero_proc =
     \<lparr>p_sz = 0, p_pgdir = 0, p_kstack = 0, p_state = UNUSED, p_pid = 0, p_parent = None, p_tf = 0,
      p_context = 0, p_chan = None, p_killed = False, p_ofile = replicate NOFILE None, p_cwd = None,
      p_name = replicate 16 0, p_gid = 0, p_rtime = 0, p_wtime = 0, p_stime = 0\<rparr>"

definition zero_lock :: spinlock where
  "zero_lock = \<lparr>lk_locked = False, lk_name = [], lk_cpu = None, lk_pcs = []\<rparr>"

definition zero_cpu :: cpu where
  "zero_cpu = \<lparr>c_apicid = 0, c_started = False, c_ncli = 0, c_intena = False, c_proc = None,
      c_esp0 = 0, c_cr3 = 0\<rparr>"

definition mk_kernel :: "proc list \<Rightarrow> group list \<Rightarrow> kernel" where
  "mk_kernel pt gt =
     \<lparr>cpus = [zero_cpu], ncpu = 1, eflags_IF = (\<lambda>_. False), kmem_lock = zero_lock,
      ram = (\<lambda>_. 0), kend = 0x80108000, use_lock = True, freelist = 0, kdata = 0x80108000, kpgdir = 0,
      ptable_lock = zero_lock, ptable = pt, nextpid = 1, initproc = None, gtable = gt,
      sched_g = (\<lambda>_. None), forkret_first = True, sym_forkret = 0x80103000, sym_trapret = 0x80105000,
      tickslock = zero_lock, ticks = 0\<rparr>"

lemma mk_kernel_simps [simp]:
  "ptable (mk_kernel pt gt) = pt" "gtable (mk_kernel pt gt) = gt" "sched_g (mk_kernel pt gt) = (\<lambda>_. None)"
  by (simp_all add: mk_kernel_def)

end
