(* ===== verification/Fss.thy ===== *)
theory Fss
  imports ProcTable
begin

text \<open>
  The Fair Share Scheduler of kernel/proc.c: the group table, the choice of a group by least pass, the
  round robin inside a group, and the two halves of an iteration of \<open>scheduler\<close> around \<open>swtch\<close>.  All of
  it runs with \<open>ptable.lock\<close> held.
\<close>

section \<open>The group table\<close>

definition fss_fresh_group :: "int \<Rightarrow> bool \<Rightarrow> group" where
  "fss_fresh_group gid act =
     \<lparr>g_gid = gid, g_active = act, g_pass = 0, g_stride = FSS_BIG, g_rr_cursor = 0\<rparr>"

definition fss_init_groups :: "'a kernel_scheme \<Rightarrow> 'a kernel_scheme" where
  "fss_init_groups s =
     (let s1 = s\<lparr>gtable := map (\<lambda>_. fss_fresh_group 0 False) [0..<NGROUPS]\<rparr>
      in upd_group 0 (\<lambda>_. fss_fresh_group 0 True) s1)"

definition fss_group_lookup :: "int \<Rightarrow> 'a kernel_scheme \<Rightarrow> nat option" where
  "fss_group_lookup gid s = find_index (\<lambda>g. g_active g \<and> g_gid g = gid) (gtable s)"

definition fss_group_ensure :: "int \<Rightarrow> 'a kernel_scheme \<Rightarrow> nat option \<times> 'a kernel_scheme" where
  "fss_group_ensure gid s =
     (case fss_group_lookup gid s of
        Some i \<Rightarrow> (Some i, s)
      | None \<Rightarrow>
          (case find_index (\<lambda>g. \<not> g_active g) (gtable s) of
             Some i \<Rightarrow>
               (Some i, upd_group i (\<lambda>g. g\<lparr>g_active := True, g_gid := gid, g_pass := 0,
                                           g_stride := FSS_BIG, g_rr_cursor := 0\<rparr>) s)
           | None \<Rightarrow> (None, s)))"

section \<open>Choosing a group and a process\<close>

definition fss_runs_in :: "int \<Rightarrow> proc \<Rightarrow> bool" where
  "fss_runs_in gid p \<longleftrightarrow> p_state p = RUNNABLE \<and> p_gid p = gid"

definition fss_group_has_runnable :: "group \<Rightarrow> proc list \<Rightarrow> bool" where
  "fss_group_has_runnable g ps \<longleftrightarrow> find_index (fss_runs_in (g_gid g)) ps \<noteq> None"

definition fss_better :: "group \<Rightarrow> group \<Rightarrow> bool" where
  "fss_better g best \<longleftrightarrow>
     g_pass g < g_pass best \<or> g_pass g = g_pass best \<and> g_gid g < g_gid best"

primrec fss_pick_group_scan :: "group list \<Rightarrow> proc list \<Rightarrow> nat list \<Rightarrow> nat option \<Rightarrow> nat option" where
  "fss_pick_group_scan gs ps [] best = best"
| "fss_pick_group_scan gs ps (i # js) best =
     fss_pick_group_scan gs ps js
       (if \<not> g_active (gs ! i) then best
        else if \<not> fss_group_has_runnable (gs ! i) ps then best
        else case best of
               None \<Rightarrow> Some i
             | Some b \<Rightarrow> if fss_better (gs ! i) (gs ! b) then Some i else best)"

definition fss_pick_group :: "'a kernel_scheme \<Rightarrow> nat option" where
  "fss_pick_group s = fss_pick_group_scan (gtable s) (ptable s) [0..<NGROUPS] None"

primrec fss_pick_proc_scan :: "int \<Rightarrow> proc list \<Rightarrow> nat \<Rightarrow> nat list \<Rightarrow> nat option" where
  "fss_pick_proc_scan gid ps start [] = None"
| "fss_pick_proc_scan gid ps start (j # js) =
     (let i = (start + j) mod NPROC
      in if fss_runs_in gid (ps ! i) then Some i else fss_pick_proc_scan gid ps start js)"

definition fss_pick_proc_in_group :: "nat option \<Rightarrow> 'a kernel_scheme \<Rightarrow> nat option \<times> 'a kernel_scheme" where
  "fss_pick_proc_in_group g s =
     (case g of
        None \<Rightarrow> (None, s)
      | Some gi \<Rightarrow>
          let start = g_rr_cursor (gtable s ! gi) mod NPROC
          in case fss_pick_proc_scan (g_gid (gtable s ! gi)) (ptable s) start [0..<NPROC] of
               None \<Rightarrow> (None, s)
             | Some i \<Rightarrow> (Some i, upd_group gi (\<lambda>g. g\<lparr>g_rr_cursor := (i + 1) mod NPROC\<rparr>) s))"

section \<open>The scheduler\<close>

definition switchuvm :: "nat \<Rightarrow> nat option \<Rightarrow> 'a kernel_scheme \<Rightarrow> 'a kernel_scheme res" where
  "switchuvm c p s =
     (case p of
        None \<Rightarrow> Inl (Panic ''switchuvm: no process'')
      | Some i \<Rightarrow>
          guard_res (p_kstack (ptable s ! i) = 0) ''switchuvm: no kstack''
            (guard_res (p_pgdir (ptable s ! i) = 0) ''switchuvm: no pgdir''
              (Inr (upd_cpu c (\<lambda>x. x\<lparr>c_esp0 := p_kstack (ptable s ! i) + KSTACKSIZE,
                                     c_cr3 := V2P (p_pgdir (ptable s ! i))\<rparr>) s))))"

text \<open>
  One iteration of the loop of \<open>scheduler\<close>, up to \<open>swtch\<close>: the result is the process switched to, or
  \<open>None\<close> when the iteration releases the lock and starts over.
\<close>

definition scheduler_pick :: "nat \<Rightarrow> 'a kernel_scheme \<Rightarrow> (nat option \<times> 'a kernel_scheme) res" where
  "scheduler_pick c s =
     (case fss_pick_group s of
        None \<Rightarrow> Inr (None, s)
      | Some g \<Rightarrow>
          (case fss_pick_proc_in_group (Some g) s of
             (None, s1) \<Rightarrow> Inr (None, s1)
           | (Some p, s1) \<Rightarrow>
               let s2 = upd_cpu c (\<lambda>x. x\<lparr>c_proc := Some p\<rparr>) s1
               in bind_res (switchuvm c (Some p) s2) (\<lambda>s3.
                    Inr (Some p, (upd_proc p (\<lambda>q. q\<lparr>p_state := RUNNING\<rparr>) s3)
                                   \<lparr>sched_g := (sched_g s3)(c := Some g)\<rparr>))))"

text \<open>The rest of the iteration, when a process has switched back to the scheduler of processor \<open>c\<close>.\<close>

definition scheduler_return :: "nat \<Rightarrow> 'a kernel_scheme \<Rightarrow> 'a kernel_scheme" where
  "scheduler_return c s =
     (case sched_g s c of
        None \<Rightarrow> s
      | Some g \<Rightarrow>
          let s1 = upd_cpu c (\<lambda>x. x\<lparr>c_proc := None\<rparr>) (switchkvm c s)
          in (upd_group g (\<lambda>x. x\<lparr>g_pass := g_pass x + g_stride x\<rparr>) s1)
               \<lparr>sched_g := (sched_g s1)(c := None)\<rparr>)"

section \<open>Least pass first\<close>

lemma fss_group_has_runnable_iff:
  "fss_group_has_runnable g ps \<longleftrightarrow> (\<exists>p \<in> set ps. fss_runs_in (g_gid g) p)"
  using find_index_None_iff [of "fss_runs_in (g_gid g)" ps] by (auto simp: fss_group_has_runnable_def)

text \<open>A group that the scheduler may choose.\<close>

definition fss_ready :: "group list \<Rightarrow> proc list \<Rightarrow> nat \<Rightarrow> bool" where
  "fss_ready gs ps i \<longleftrightarrow> g_active (gs ! i) \<and> fss_group_has_runnable (gs ! i) ps"

lemma not_fss_better_iff:
  "\<not> fss_better a b \<longleftrightarrow> g_pass b < g_pass a \<or> g_pass b = g_pass a \<and> g_gid b \<le> g_gid a"
  by (auto simp: fss_better_def)

lemma fss_better_trans: "\<not> fss_better a b \<Longrightarrow> \<not> fss_better b c \<Longrightarrow> \<not> fss_better a c"
  unfolding not_fss_better_iff by (elim disjE conjE) (simp_all, meson less_trans)

lemma fss_better_irrefl [simp]: "\<not> fss_better a a"
  by (simp add: fss_better_def)

lemma fss_better_asym: "fss_better a b \<Longrightarrow> \<not> fss_better b a"
  by (auto simp: fss_better_def)

lemma fss_pick_group_scan_None:
  "fss_pick_group_scan gs ps js best = None \<longleftrightarrow> best = None \<and> (\<forall>j \<in> set js. \<not> fss_ready gs ps j)"
  by (induction js arbitrary: best) (auto simp: fss_ready_def split: option.splits)

lemma fss_pick_group_scan_Some:
  assumes "fss_pick_group_scan gs ps js best = Some i"
  shows "(best = Some i \<or> i \<in> set js \<and> fss_ready gs ps i) \<and>
         (\<forall>j \<in> set js. fss_ready gs ps j \<longrightarrow> \<not> fss_better (gs ! j) (gs ! i)) \<and>
         (\<forall>b. best = Some b \<longrightarrow> \<not> fss_better (gs ! b) (gs ! i))"
  using assms
proof (induction js arbitrary: best)
  case (Cons k js)
  show ?case
  proof (cases "fss_ready gs ps k \<and> (\<forall>b. best = Some b \<longrightarrow> fss_better (gs ! k) (gs ! b))")
    case True
    then have "fss_pick_group_scan gs ps js (Some k) = Some i"
      using Cons.prems by (auto simp: fss_ready_def split: option.splits)
    note IH = Cons.IH [OF this]
    have "\<not> fss_better (gs ! b) (gs ! i)" if "best = Some b" for b
      using fss_better_trans [of "gs ! b" "gs ! k" "gs ! i"] fss_better_asym True that IH by blast
    with IH True show ?thesis by auto
  next
    case False
    then have "fss_pick_group_scan gs ps js best = Some i"
      using Cons.prems by (auto simp: fss_ready_def split: option.splits if_splits)
    note IH = Cons.IH [OF this]
    have "\<not> fss_better (gs ! k) (gs ! i)" if "fss_ready gs ps k"
      using False that IH fss_better_trans [of "gs ! k" _ "gs ! i"] by blast
    with IH show ?thesis by auto
  qed
qed simp

lemma fss_pick_group_Some:
  assumes "fss_pick_group s = Some i"
  shows "i < NGROUPS" "fss_ready (gtable s) (ptable s) i"
    and "\<And>j. j < NGROUPS \<Longrightarrow> fss_ready (gtable s) (ptable s) j \<Longrightarrow>
           \<not> fss_better (gtable s ! j) (gtable s ! i)"
  using fss_pick_group_scan_Some [OF assms [unfolded fss_pick_group_def]] by simp_all

lemma fss_pick_group_None:
  "fss_pick_group s = None \<longleftrightarrow> (\<forall>j < NGROUPS. \<not> fss_ready (gtable s) (ptable s) j)"
  by (auto simp: fss_pick_group_def fss_pick_group_scan_None)

section \<open>Round robin\<close>

text \<open>The distance from the cursor to a slot, in the direction of the scan.\<close>

definition rr_dist :: "nat \<Rightarrow> nat \<Rightarrow> nat" where
  "rr_dist cur i = (i + NPROC - cur mod NPROC) mod NPROC"

lemma rr_dist_less: "rr_dist cur i < NPROC"
  by (simp add: rr_dist_def)

lemma rr_dist_inverse:
  assumes "i < NPROC"
  shows "(cur mod NPROC + rr_dist cur i) mod NPROC = i"
proof -
  have "cur mod NPROC < NPROC" by simp
  then obtain c where "cur mod NPROC = c" "c < NPROC" by blast
  then show ?thesis using assms by (simp add: rr_dist_def mod_add_right_eq)
qed

lemma rr_dist_of:
  assumes "j < NPROC"
  shows "rr_dist cur ((cur mod NPROC + j) mod NPROC) = j"
proof -
  obtain c where c: "cur mod NPROC = c" "c < NPROC" by (metis mod_less_divisor zero_less_numeral)
  have "(c + j) mod NPROC = (if c + j < NPROC then c + j else c + j - NPROC)"
    using assms c by (simp add: mod_if)
  then show ?thesis using assms c by (auto simp: rr_dist_def mod_if)
qed

lemma fss_pick_proc_scan_eq:
  "fss_pick_proc_scan gid ps st js =
     map_option (\<lambda>k. (st + js ! k) mod NPROC)
       (find_index (\<lambda>j. fss_runs_in gid (ps ! ((st + j) mod NPROC))) js)"
  by (induction js) (auto simp: Let_def option.map_comp comp_def)

lemma fss_pick_proc_scan_None:
  "fss_pick_proc_scan gid ps (cur mod NPROC) [0..<NPROC] = None \<longleftrightarrow>
     (\<forall>i < NPROC. \<not> fss_runs_in gid (ps ! i))"
proof -
  have "(\<forall>j \<in> set [0..<NPROC]. \<not> fss_runs_in gid (ps ! ((cur mod NPROC + j) mod NPROC))) \<longleftrightarrow>
      (\<forall>i < NPROC. \<not> fss_runs_in gid (ps ! i))"
    using rr_dist_inverse [of _ cur] rr_dist_less [of cur]
    by (metis atLeastLessThan_iff atLeast_upt lessThan_iff mod_less_divisor set_upt zero_less_numeral le0)
  then show ?thesis by (simp add: fss_pick_proc_scan_eq find_index_None_iff)
qed

lemma fss_pick_proc_scan_Some:
  "fss_pick_proc_scan gid ps (cur mod NPROC) [0..<NPROC] = Some i \<longleftrightarrow>
     i < NPROC \<and> fss_runs_in gid (ps ! i) \<and>
     (\<forall>j < NPROC. rr_dist cur j < rr_dist cur i \<longrightarrow> \<not> fss_runs_in gid (ps ! j))"
  (is "?scan = Some i \<longleftrightarrow> ?first")
proof
  assume "?scan = Some i"
  then obtain k where k: "k < NPROC" "i = (cur mod NPROC + k) mod NPROC"
    "fss_runs_in gid (ps ! ((cur mod NPROC + k) mod NPROC))"
    "\<And>j. j < k \<Longrightarrow> \<not> fss_runs_in gid (ps ! ((cur mod NPROC + j) mod NPROC))"
    by (auto simp: fss_pick_proc_scan_eq find_index_Some_iff)
  moreover have "rr_dist cur i = k" using k rr_dist_of by simp
  ultimately show ?first using rr_dist_inverse [of _ cur] by (metis mod_less_divisor zero_less_numeral)
next
  assume first: ?first
  have "find_index (\<lambda>j. fss_runs_in gid (ps ! ((cur mod NPROC + j) mod NPROC))) [0..<NPROC] =
      Some (rr_dist cur i)"
  proof -
    have "\<not> fss_runs_in gid (ps ! ((cur mod NPROC + j) mod NPROC))" if "j < rr_dist cur i" for j
      using first that rr_dist_of [of j cur] rr_dist_less [of cur i]
      by (metis less_trans mod_less_divisor zero_less_numeral)
    then show ?thesis
      using first rr_dist_inverse rr_dist_less [of cur i] by (simp add: find_index_Some_iff)
  qed
  then show "?scan = Some i"
    using first rr_dist_less [of cur i] by (simp add: fss_pick_proc_scan_eq rr_dist_inverse)
qed

lemma fss_pick_proc_in_group_Some:
  "fss_pick_proc_in_group (Some g) s = (Some i, s') \<longleftrightarrow>
     i < NPROC \<and> fss_runs_in (g_gid (gtable s ! g)) (ptable s ! i) \<and>
     (\<forall>j < NPROC. rr_dist (g_rr_cursor (gtable s ! g)) j < rr_dist (g_rr_cursor (gtable s ! g)) i \<longrightarrow>
        \<not> fss_runs_in (g_gid (gtable s ! g)) (ptable s ! j)) \<and>
     s' = upd_group g (\<lambda>x. x\<lparr>g_rr_cursor := (i + 1) mod NPROC\<rparr>) s"
proof -
  let ?scan = "fss_pick_proc_scan (g_gid (gtable s ! g)) (ptable s)
                 (g_rr_cursor (gtable s ! g) mod NPROC) [0..<NPROC]"
  have "fss_pick_proc_in_group (Some g) s = (Some i, s') \<longleftrightarrow>
      ?scan = Some i \<and> s' = upd_group g (\<lambda>x. x\<lparr>g_rr_cursor := (i + 1) mod NPROC\<rparr>) s"
    unfolding fss_pick_proc_in_group_def option.case Let_def by (cases ?scan) auto
  then show ?thesis by (simp only: fss_pick_proc_scan_Some conj_assoc)
qed

lemma fss_pick_proc_in_group_None:
  "fss_pick_proc_in_group (Some g) s = (None, s') \<longleftrightarrow>
     (\<forall>i < NPROC. \<not> fss_runs_in (g_gid (gtable s ! g)) (ptable s ! i)) \<and> s' = s"
proof -
  let ?scan = "fss_pick_proc_scan (g_gid (gtable s ! g)) (ptable s)
                 (g_rr_cursor (gtable s ! g) mod NPROC) [0..<NPROC]"
  have "fss_pick_proc_in_group (Some g) s = (None, s') \<longleftrightarrow> ?scan = None \<and> s' = s"
    unfolding fss_pick_proc_in_group_def option.case Let_def by (cases ?scan) auto
  then show ?thesis by (simp only: fss_pick_proc_scan_None)
qed

lemma fss_ready_pick_proc:
  assumes "length (ptable s) = NPROC" and "fss_ready (gtable s) (ptable s) g"
  obtains i where "fss_pick_proc_in_group (Some g) s =
    (Some i, upd_group g (\<lambda>x. x\<lparr>g_rr_cursor := (i + 1) mod NPROC\<rparr>) s)"
proof -
  obtain k where "k < NPROC" "fss_runs_in (g_gid (gtable s ! g)) (ptable s ! k)"
    using assms by (auto simp: fss_ready_def fss_group_has_runnable_iff in_set_conv_nth)
  then have "fst (fss_pick_proc_in_group (Some g) s) \<noteq> None"
    using fss_pick_proc_in_group_None [of g s "snd (fss_pick_proc_in_group (Some g) s)"]
    by (metis prod.collapse)
  then obtain i s' where "fss_pick_proc_in_group (Some g) s = (Some i, s')"
    by (metis not_Some_eq prod.collapse)
  with that fss_pick_proc_in_group_Some [of g s i s'] show thesis by simp
qed

text \<open>Advancing the cursor past a slot that comes before \<open>i\<close> brings the cursor nearer to \<open>i\<close>.\<close>

lemma rr_dist_advance:
  assumes "i < NPROC" and "j < NPROC" and "rr_dist cur j < rr_dist cur i"
  shows "rr_dist ((j + 1) mod NPROC) i = rr_dist cur i - rr_dist cur j - 1"
proof -
  obtain c where c: "cur mod NPROC = c" "c < NPROC" by (metis mod_less_divisor zero_less_numeral)
  have "rr_dist cur k = (if c \<le> k then k - c else k + NPROC - c)" if "k < NPROC" for k
    using c that by (auto simp: rr_dist_def mod_if)
  moreover have "rr_dist ((j + 1) mod NPROC) i =
      (if j + 1 = NPROC then i else if j + 1 \<le> i then i - (j + 1) else i + NPROC - (j + 1))"
    using assms(1,2) by (auto simp: rr_dist_def mod_if)
  ultimately show ?thesis using assms c by (auto split: if_splits)
qed

text \<open>
  The processes that successive rounds of group \<open>g\<close> choose, each round on the process table as it is
  then: between two rounds the rest of the kernel may change it in any way.
\<close>

primrec rr_picks :: "nat \<Rightarrow> proc list list \<Rightarrow> 'a kernel_scheme \<Rightarrow> nat option list" where
  "rr_picks g [] s = []"
| "rr_picks g (pt # pts) s =
     (case fss_pick_proc_in_group (Some g) (s\<lparr>ptable := pt\<rparr>) of (r, s') \<Rightarrow> r # rr_picks g pts s')"

lemma rr_picks_reaches:
  assumes "g < length (gtable s)" and "i < NPROC" and "rr_dist (g_rr_cursor (gtable s ! g)) i < length pts"
    and "\<forall>pt \<in> set pts. fss_runs_in (g_gid (gtable s ! g)) (pt ! i)"
  shows "Some i \<in> set (rr_picks g pts s)"
  using assms
proof (induction pts arbitrary: s)
  case (Cons pt pts)
  let ?s = "s\<lparr>ptable := pt\<rparr>" and ?cur = "g_rr_cursor (gtable s ! g)" and ?gid = "g_gid (gtable s ! g)"
  have run: "fss_runs_in ?gid (pt ! i)" using Cons.prems(4) by simp
  obtain r s' where r: "fss_pick_proc_in_group (Some g) ?s = (r, s')" by fastforce
  show ?case
  proof (cases r)
    case None
    with r have "\<forall>k < NPROC. \<not> fss_runs_in ?gid (pt ! k)"
      using fss_pick_proc_in_group_None [of g ?s s'] by simp
    with run Cons.prems(2) show ?thesis by blast
  next
    case (Some k)
    with r have k: "k < NPROC" "\<forall>j < NPROC. rr_dist ?cur j < rr_dist ?cur k \<longrightarrow> \<not> fss_runs_in ?gid (pt ! j)"
      "s' = upd_group g (\<lambda>x. x\<lparr>g_rr_cursor := (k + 1) mod NPROC\<rparr>) ?s"
      using fss_pick_proc_in_group_Some [of g ?s k s'] by simp_all
    show ?thesis
    proof (cases "k = i")
      case True
      with Some r show ?thesis by simp
    next
      case False
      have "rr_dist ?cur k \<le> rr_dist ?cur i" using k(2) run Cons.prems(2) by (meson not_less)
      moreover have "rr_dist ?cur k \<noteq> rr_dist ?cur i"
        using False rr_dist_inverse k(1) Cons.prems(2) by metis
      ultimately have lt: "rr_dist ?cur k < rr_dist ?cur i" by simp
      have "Some i \<in> set (rr_picks g pts s')"
        using Cons.prems k(3) rr_dist_advance [OF Cons.prems(2) k(1) lt] lt
        by (intro Cons.IH) auto
      with r show ?thesis by simp
    qed
  qed
qed simp

section \<open>One scheduling round\<close>

lemma tables_upd_cpu [simp]:
  "ptable (upd_cpu c f s) = ptable s" "gtable (upd_cpu c f s) = gtable s"
  "sched_g (upd_cpu c f s) = sched_g s"
  by (simp_all add: upd_cpu_def)

lemma tables_switchkvm [simp]:
  "ptable (switchkvm c s) = ptable s" "gtable (switchkvm c s) = gtable s"
  "sched_g (switchkvm c s) = sched_g s"
  by (simp_all add: switchkvm_def)

lemma sched_g_upd [simp]:
  "sched_g (upd_proc i f s) = sched_g s" "sched_g (upd_group i h s) = sched_g s"
  by (simp_all add: upd_proc_def upd_group_def)

lemma switchuvm_Inr:
  assumes "switchuvm c (Some p) s = Inr s'"
  shows "ptable s' = ptable s" "gtable s' = gtable s" "sched_g s' = sched_g s"
  using assms by (auto simp: switchuvm_def)

lemma scheduler_pick_None:
  "scheduler_pick c s = Inr (None, s') \<Longrightarrow> s' = s"
  by (auto simp: scheduler_pick_def Let_def bind_res_eq_Inr_iff fss_pick_proc_in_group_None
      split: option.splits prod.splits)

lemma scheduler_pick_Some:
  assumes "scheduler_pick c s = Inr (Some p, s')"
  obtains g where "fss_pick_group s = Some g" and "p < NPROC"
    and "fss_runs_in (g_gid (gtable s ! g)) (ptable s ! p)"
    and "gtable s' = (gtable s)[g := (gtable s ! g)\<lparr>g_rr_cursor := (p + 1) mod NPROC\<rparr>]"
    and "ptable s' = (ptable s)[p := (ptable s ! p)\<lparr>p_state := RUNNING\<rparr>]"
    and "sched_g s' = (sched_g s)(c := Some g)"
proof -
  obtain g s1 s3 where g: "fss_pick_group s = Some g"
    and s1: "fss_pick_proc_in_group (Some g) s = (Some p, s1)"
    and s3: "switchuvm c (Some p) (upd_cpu c (\<lambda>x. x\<lparr>c_proc := Some p\<rparr>) s1) = Inr s3"
    and s': "s' = (upd_proc p (\<lambda>q. q\<lparr>p_state := RUNNING\<rparr>) s3)\<lparr>sched_g := (sched_g s3)(c := Some g)\<rparr>"
    using assms
    by (auto simp: scheduler_pick_def Let_def bind_res_eq_Inr_iff split: option.splits prod.splits)
  note P = s1 [unfolded fss_pick_proc_in_group_Some]
  show thesis
    by (rule that [OF g]) (use P switchuvm_Inr [OF s3] in \<open>simp_all add: s'\<close>)
qed

lemma scheduler_return_tables:
  assumes "sched_g s c = Some g"
  shows "gtable (scheduler_return c s) =
           (gtable s)[g := (gtable s ! g)\<lparr>g_pass := g_pass (gtable s ! g) + g_stride (gtable s ! g)\<rparr>]"
    and "ptable (scheduler_return c s) = ptable s"
    and "sched_g (scheduler_return c s) = (sched_g s)(c := None)"
  using assms by (simp_all add: scheduler_return_def Let_def)

section \<open>Fair shares\<close>

text \<open>
  Runs of the schedulers of \<open>N\<close> processors in any interleaving with the rest of the kernel, which changes
  neither the passes nor the schedulers' variables except by creating groups.  \<open>fss_reach N b s0 n s\<close>: the
  run leads from \<open>s0\<close> to \<open>s\<close> with \<open>n\<close> completed dispatches, and group \<open>b\<close> had a runnable process
  whenever a scheduler chose.
\<close>

inductive fss_reach :: "nat \<Rightarrow> nat \<Rightarrow> 'a kernel_scheme \<Rightarrow> nat \<Rightarrow> 'a kernel_scheme \<Rightarrow> bool"
  for N b s0 where
  fr_start: "fss_reach N b s0 0 s0"
| fr_pick: "fss_reach N b s0 n s' "
    if "fss_reach N b s0 n s" and "c < N" and "sched_g s c = None"
      and "fss_ready (gtable s) (ptable s) b" and "scheduler_pick c s = Inr (p, s')"
| fr_return: "fss_reach N b s0 (Suc n) (scheduler_return c s)"
    if "fss_reach N b s0 n s" and "c < N" and "sched_g s c \<noteq> None"
| fr_kernel: "fss_reach N b s0 n s'"
    if "fss_reach N b s0 n s" and "gtable s' = gtable s \<or> gtable s' = gtable (snd (fss_group_ensure gid s))"
      and "sched_g s' = sched_g s"

text \<open>How many processors are running a process of group \<open>a\<close>.\<close>

definition fss_running :: "nat \<Rightarrow> nat \<Rightarrow> 'a kernel_scheme \<Rightarrow> nat" where
  "fss_running N a s = card {c. c < N \<and> sched_g s c = Some a}"

lemma fss_running_le: "fss_running N a s \<le> N"
proof -
  have "card {c. c < N \<and> sched_g s c = Some a} \<le> card {..<N}" by (intro card_mono) auto
  then show ?thesis by (simp add: fss_running_def)
qed

lemma fss_running_set:
  assumes "c < N" and "sched_g s' = (sched_g s)(c := g)"
  shows "fss_running N a s' + (if sched_g s c = Some a then 1 else 0) =
         fss_running N a s + (if g = Some a then 1 else 0)"
proof -
  let ?R = "{d. d < N \<and> sched_g s d = Some a \<and> d \<noteq> c}"
  have "{d. d < N \<and> sched_g s' d = Some a} = (if g = Some a then insert c ?R else ?R)"
    "{d. d < N \<and> sched_g s d = Some a} = (if sched_g s c = Some a then insert c ?R else ?R)"
    using assms by auto
  then show ?thesis by (simp add: fss_running_def)
qed

section \<open>The group table stays well formed\<close>

definition groups_ok :: "group list \<Rightarrow> bool" where
  "groups_ok gs \<longleftrightarrow> length gs = NGROUPS \<and>
     (\<forall>i < NGROUPS. g_stride (gs ! i) = FSS_BIG \<and> g_rr_cursor (gs ! i) < NPROC) \<and>
     (\<forall>i < NGROUPS. \<forall>j < NGROUPS. g_active (gs ! i) \<and> g_active (gs ! j) \<and> g_gid (gs ! i) = g_gid (gs ! j)
        \<longrightarrow> i = j)"

lemma groups_okD:
  assumes "groups_ok gs"
  shows "length gs = NGROUPS" "i < NGROUPS \<Longrightarrow> g_stride (gs ! i) = FSS_BIG"
    and "i < NGROUPS \<Longrightarrow> g_rr_cursor (gs ! i) < NPROC"
    and "i < NGROUPS \<Longrightarrow> j < NGROUPS \<Longrightarrow> g_active (gs ! i) \<Longrightarrow> g_active (gs ! j) \<Longrightarrow>
           g_gid (gs ! i) = g_gid (gs ! j) \<Longrightarrow> i = j"
  using assms unfolding groups_ok_def by blast+

lemma groups_ok_update:
  assumes "groups_ok gs" and "g_stride x = FSS_BIG" and "g_rr_cursor x < NPROC"
    and "\<And>j. j < NGROUPS \<Longrightarrow> j \<noteq> i \<Longrightarrow> g_active x \<Longrightarrow> g_active (gs ! j) \<Longrightarrow> g_gid (gs ! j) \<noteq> g_gid x"
  shows "groups_ok (gs[i := x])"
  unfolding groups_ok_def
proof (intro conjI allI impI)
  fix j k assume jk: "j < NGROUPS" "k < NGROUPS"
    "g_active (gs[i := x] ! j) \<and> g_active (gs[i := x] ! k) \<and> g_gid (gs[i := x] ! j) = g_gid (gs[i := x] ! k)"
  show "j = k"
    using jk assms(4) [of j] assms(4) [of k] groups_okD(4) [OF assms(1), of j k] groups_okD(1) [OF assms(1)]
    by (cases "j = i"; cases "k = i") auto
qed (use assms groups_okD [OF assms(1)] in \<open>auto simp: nth_update_if\<close>)

lemma fss_group_ensure_cases:
  obtains (found) i where "fss_group_ensure gid s = (Some i, s)" "i < length (gtable s)"
      "g_active (gtable s ! i)" "g_gid (gtable s ! i) = gid"
  | (created) i where "fss_group_ensure gid s = (Some i, upd_group i (\<lambda>_. fss_fresh_group gid True) s)"
      "i < length (gtable s)" "\<not> g_active (gtable s ! i)"
      "\<And>j. j < length (gtable s) \<Longrightarrow> g_active (gtable s ! j) \<Longrightarrow> g_gid (gtable s ! j) \<noteq> gid"
  | (full) "fss_group_ensure gid s = (None, s)"
      "\<And>j. j < length (gtable s) \<Longrightarrow> g_active (gtable s ! j) \<and> g_gid (gtable s ! j) \<noteq> gid"
proof (cases "fss_group_lookup gid s")
  case None
  note lookup = None
  have none: "\<not> (g_active (gtable s ! j) \<and> g_gid (gtable s ! j) = gid)" if "j < length (gtable s)" for j
    using None that by (auto simp: fss_group_lookup_def find_index_None_iff)
  show thesis
  proof (cases "find_index (\<lambda>g. \<not> g_active g) (gtable s)")
    case None
    then have "g_active (gtable s ! j)" if "j < length (gtable s)" for j
      using that by (auto simp: find_index_None_iff)
    then show thesis
      using full None lookup none by (simp add: fss_group_ensure_def)
  next
    case (Some i)
    have "fss_group_ensure gid s = (Some i, upd_group i (\<lambda>_. fss_fresh_group gid True) s)"
      using Some lookup
      by (cases "gtable s ! i") (simp add: fss_group_ensure_def upd_group_def fss_fresh_group_def)
    then show thesis
      using created find_index_SomeD(1,2) [OF Some] none by blast
  qed
next
  case (Some i)
  then have "fss_group_ensure gid s = (Some i, s)" by (simp add: fss_group_ensure_def)
  then show thesis
    using found find_index_SomeD(1,2) [OF Some [unfolded fss_group_lookup_def]] by blast
qed

lemma fss_group_ensure_tables [simp]:
  "ptable (snd (fss_group_ensure gid s)) = ptable s" "sched_g (snd (fss_group_ensure gid s)) = sched_g s"
  by (cases rule: fss_group_ensure_cases [of gid s]; simp)+

lemma groups_ok_ensure:
  assumes "groups_ok (gtable s)"
  shows "groups_ok (gtable (snd (fss_group_ensure gid s)))"
proof (cases rule: fss_group_ensure_cases [of gid s])
  case (created i)
  then show ?thesis
    using groups_okD(1) [OF assms]
    by (auto simp: fss_fresh_group_def intro!: groups_ok_update [OF assms])
qed (use assms in simp_all)

lemma fss_group_ensure_keeps:
  assumes "g_active (gtable s ! a)"
  shows "gtable (snd (fss_group_ensure gid s)) ! a = gtable s ! a"
  by (cases rule: fss_group_ensure_cases [of gid s]) (use assms in \<open>auto simp: nth_list_update\<close>)

lemma fss_group_ensure_pass:
  assumes "i < length (gtable s)"
  shows "unat (g_pass (gtable (snd (fss_group_ensure gid s)) ! i)) \<le> unat (g_pass (gtable s ! i))"
  by (cases rule: fss_group_ensure_cases [of gid s])
    (use assms in \<open>auto simp: nth_list_update fss_fresh_group_def\<close>)

lemma groups_ok_pick:
  assumes "groups_ok (gtable s)" and "scheduler_pick c s = Inr (p, s')"
  shows "groups_ok (gtable s')"
proof (cases p)
  case (Some i)
  with assms(2) obtain g where "fss_pick_group s = Some g"
    "gtable s' = (gtable s)[g := (gtable s ! g)\<lparr>g_rr_cursor := (i + 1) mod NPROC\<rparr>]"
    by (auto elim: scheduler_pick_Some)
  then show ?thesis
    using groups_okD [OF assms(1)] fss_pick_group_Some(1) [of s g]
    by (auto intro!: groups_ok_update [OF assms(1)])
qed (use assms scheduler_pick_None in auto)

lemma groups_ok_return:
  assumes "groups_ok (gtable s)"
  shows "groups_ok (gtable (scheduler_return c s))"
proof (cases "sched_g s c")
  case (Some g)
  show ?thesis
  proof (cases "g < NGROUPS")
    case True
    then show ?thesis
      using groups_okD [OF assms] Some
      by (auto simp: scheduler_return_tables intro!: groups_ok_update [OF assms])
  next
    case False
    then show ?thesis using assms groups_okD(1) [OF assms] Some
      by (simp add: scheduler_return_tables list_update_beyond)
  qed
qed (use assms in \<open>simp add: scheduler_return_def\<close>)

section \<open>The fairness invariant\<close>

definition fss_fair :: "nat \<Rightarrow> nat \<Rightarrow> nat \<Rightarrow> nat \<Rightarrow> nat \<Rightarrow> 'a kernel_scheme \<Rightarrow> bool" where
  "fss_fair N a b P n s \<longleftrightarrow>
     groups_ok (gtable s) \<and> g_active (gtable s ! a) \<and> g_active (gtable s ! b) \<and>
     (\<forall>i < NGROUPS. unat (g_pass (gtable s ! i)) \<le> P + 100000 * n) \<and>
     (\<forall>c < N. \<forall>g. sched_g s c = Some g \<longrightarrow> g < NGROUPS) \<and>
     unat (g_pass (gtable s ! a)) + 100000 * fss_running N a s \<le> unat (g_pass (gtable s ! b)) + 100000 * N"

lemma fss_fair_pick:
  assumes inv: "fss_fair N a b P n s" and ab: "a < NGROUPS" "b < NGROUPS" and c: "c < N" "sched_g s c = None"
    and ready: "fss_ready (gtable s) (ptable s) b" and pick: "scheduler_pick c s = Inr (p, s')"
  shows "fss_fair N a b P n s'"
proof (cases p)
  case (Some i)
  with pick obtain g where g: "fss_pick_group s = Some g"
    "gtable s' = (gtable s)[g := (gtable s ! g)\<lparr>g_rr_cursor := (i + 1) mod NPROC\<rparr>]"
    "sched_g s' = (sched_g s)(c := Some g)"
    by (auto elim: scheduler_pick_Some)
  have len: "length (gtable s) = NGROUPS" using inv by (simp add: fss_fair_def groups_okD)
  have gt: "gtable s' ! j = (if g = j then (gtable s ! g)\<lparr>g_rr_cursor := (i + 1) mod NPROC\<rparr> else gtable s ! j)"
    if "j < NGROUPS" for j using that len by (simp add: g(2) nth_update_if)
  have "unat (g_pass (gtable s ! a)) + 100000 * fss_running N a s' \<le> unat (g_pass (gtable s ! b)) + 100000 * N"
  proof (cases "g = a")
    case True
    then have "g_pass (gtable s ! a) \<le> g_pass (gtable s ! b)"
      using fss_pick_group_Some(3) [OF g(1) ab(2) ready] by (auto simp: not_fss_better_iff)
    then show ?thesis using fss_running_le [of N a s'] by (simp add: word_le_nat_alt add_mono)
  next
    case False
    then have "fss_running N a s' = fss_running N a s"
      using fss_running_set [OF c(1) g(3), of a] c(2) by simp
    then show ?thesis using inv by (simp add: fss_fair_def)
  qed
  then show ?thesis
    using inv ab groups_ok_pick [OF _ pick] fss_pick_group_Some(1) [OF g(1)]
    by (auto simp: fss_fair_def gt g(3))
next
  case None
  with pick scheduler_pick_None have "s' = s" by auto
  with inv show ?thesis by simp
qed

lemma fss_fair_return:
  assumes inv: "fss_fair N a b P n s" and ab: "a < NGROUPS" "b < NGROUPS" "a \<noteq> b"
    and c: "c < N" "sched_g s c = Some g" and wrap: "P + 100000 * Suc n < 2 ^ 32"
  shows "fss_fair N a b P (Suc n) (scheduler_return c s)"
proof -
  let ?s' = "scheduler_return c s"
  have ok: "groups_ok (gtable s)" and g: "g < NGROUPS" using inv c by (auto simp: fss_fair_def)
  have pass: "unat (g_pass (gtable ?s' ! j)) =
      unat (g_pass (gtable s ! j)) + (if g = j then 100000 else 0)" if "j < NGROUPS" for j
  proof -
    have "unat (g_pass (gtable s ! j)) \<le> P + 100000 * n" using inv that by (simp add: fss_fair_def)
    then have "unat (g_pass (gtable s ! j)) + 100000 < 4294967296" using wrap by simp
    then have "unat (g_pass (gtable s ! j) + 100000) = unat (g_pass (gtable s ! j)) + 100000"
      by (simp add: unat_plus_if')
    then show ?thesis
      using that groups_okD(1,2) [OF ok] g by (simp add: scheduler_return_tables [OF c(2)] nth_update_if)
  qed
  have act: "g_active (gtable ?s' ! j) = g_active (gtable s ! j)" if "j < NGROUPS" for j
    using that groups_okD(1) [OF ok] by (simp add: scheduler_return_tables [OF c(2)] nth_update_if)
  have "fss_running N a ?s' + (if g = a then 1 else 0) = fss_running N a s"
    using fss_running_set [OF c(1) scheduler_return_tables(3) [OF c(2)], of a] c(2) by simp
  then have "unat (g_pass (gtable ?s' ! a)) + 100000 * fss_running N a ?s' \<le>
      unat (g_pass (gtable ?s' ! b)) + 100000 * N"
    using inv ab by (auto simp: fss_fair_def pass split: if_splits)
  moreover have "\<forall>i < NGROUPS. unat (g_pass (gtable ?s' ! i)) \<le> P + 100000 * Suc n"
    using inv by (auto simp: fss_fair_def pass)
  ultimately show ?thesis
    using inv ab groups_ok_return [OF ok]
    by (simp add: fss_fair_def act scheduler_return_tables(3) [OF c(2)])
qed

lemma fss_fair_kernel:
  assumes inv: "fss_fair N a b P n s" and ab: "a < NGROUPS" "b < NGROUPS"
    and gt: "gtable s' = gtable s \<or> gtable s' = gtable (snd (fss_group_ensure gid s))"
    and sg: "sched_g s' = sched_g s"
  shows "fss_fair N a b P n s'"
proof -
  have ok: "groups_ok (gtable s)" and act: "g_active (gtable s ! a)" "g_active (gtable s ! b)"
    using inv by (auto simp: fss_fair_def)
  have "gtable s' ! a = gtable s ! a" "gtable s' ! b = gtable s ! b"
    using gt fss_group_ensure_keeps act by metis+
  moreover have "unat (g_pass (gtable s' ! i)) \<le> unat (g_pass (gtable s ! i))" if "i < NGROUPS" for i
    using gt fss_group_ensure_pass [of i s gid] that groups_okD(1) [OF ok] by auto
  moreover have "groups_ok (gtable s')" using gt ok groups_ok_ensure by metis
  moreover have "fss_running N a s' = fss_running N a s" by (simp add: fss_running_def sg)
  ultimately show ?thesis
    using inv by (auto simp: fss_fair_def sg intro: order.trans)
qed

lemma fss_fair_reach:
  assumes "fss_reach N b s0 n s" and "a < NGROUPS" and "b < NGROUPS" and "a \<noteq> b"
    and "fss_fair N a b P 0 s0" and "P + 100000 * n < 2 ^ 32"
  shows "fss_fair N a b P n s"
  using assms
proof (induction rule: fss_reach.induct)
  case (fr_pick n s c p s')
  then show ?case using fss_fair_pick by blast
next
  case (fr_return n s c)
  then have "fss_fair N a b P n s" by simp
  then show ?case using fr_return fss_fair_return by blast
next
  case (fr_kernel n s s' gid)
  then show ?case using fss_fair_kernel by blast
qed

section \<open>Consecutive rounds\<close>

text \<open>A round in which the chosen process runs and then yields, and a number of such rounds.\<close>

definition fss_round :: "nat \<Rightarrow> 'a kernel_scheme \<Rightarrow> 'a kernel_scheme res" where
  "fss_round c s =
     bind_res (scheduler_pick c s) (\<lambda>(p, s1).
       case p of None \<Rightarrow> Inr s1
       | Some i \<Rightarrow> Inr (scheduler_return c (upd_proc i (\<lambda>q. q\<lparr>p_state := RUNNABLE\<rparr>) s1)))"

primrec fss_rounds :: "nat \<Rightarrow> nat \<Rightarrow> 'a kernel_scheme \<Rightarrow> 'a kernel_scheme res" where
  "fss_rounds c 0 s = Inr s"
| "fss_rounds c (Suc n) s = bind_res (fss_round c s) (fss_rounds c n)"

definition runnable_ok :: "proc list \<Rightarrow> bool" where
  "runnable_ok ps \<longleftrightarrow> length ps = NPROC \<and>
     (\<forall>i < NPROC. p_state (ps ! i) = RUNNABLE \<longrightarrow> p_kstack (ps ! i) \<noteq> 0 \<and> p_pgdir (ps ! i) \<noteq> 0)"

text \<open>A ready group is always served: the second test for a null process in \<open>scheduler\<close> never fires.\<close>

lemma scheduler_pick_serves:
  assumes ok: "runnable_ok (ptable s)" and g: "fss_pick_group s = Some g"
  obtains p s' where "scheduler_pick c s = Inr (Some p, s')"
proof -
  have len: "length (ptable s) = NPROC" using ok by (simp add: runnable_ok_def)
  obtain i where i: "fss_pick_proc_in_group (Some g) s =
      (Some i, upd_group g (\<lambda>x. x\<lparr>g_rr_cursor := (i + 1) mod NPROC\<rparr>) s)"
    using fss_ready_pick_proc [OF len fss_pick_group_Some(2) [OF g]] .
  then have "p_state (ptable s ! i) = RUNNABLE" "i < NPROC"
    using fss_pick_proc_in_group_Some by (auto simp: fss_runs_in_def)
  then have "p_kstack (ptable s ! i) \<noteq> 0" "p_pgdir (ptable s ! i) \<noteq> 0"
    using ok by (auto simp: runnable_ok_def)
  then show thesis
    by (intro that) (simp add: scheduler_pick_def g i Let_def switchuvm_def)
qed

lemma fss_pick_group_low:
  assumes "b < NGROUPS" and "fss_ready (gtable s) (ptable s) b"
    and "\<And>j. j < NGROUPS \<Longrightarrow> j \<noteq> b \<Longrightarrow> fss_ready (gtable s) (ptable s) j \<Longrightarrow>
           g_pass (gtable s ! b) < g_pass (gtable s ! j)"
  shows "fss_pick_group s = Some b"
proof (cases "fss_pick_group s")
  case None
  then show ?thesis using assms by (simp add: fss_pick_group_None)
next
  case (Some i)
  note P = fss_pick_group_Some [OF Some]
  have "i = b"
  proof (rule ccontr)
    assume "i \<noteq> b"
    then have "fss_better (gtable s ! b) (gtable s ! i)" using assms(3) P by (simp add: fss_better_def)
    then show False using P(3) assms(1,2) by blast
  qed
  with Some show ?thesis by simp
qed

lemma fss_round_low:
  assumes ok: "groups_ok (gtable s)" "runnable_ok (ptable s)" and g: "fss_pick_group s = Some b"
  obtains s' cur where "fss_round c s = Inr s'" "ptable s' = ptable s"
    "gtable s' = (gtable s)[b := (gtable s ! b)\<lparr>g_rr_cursor := cur,
                                                g_pass := g_pass (gtable s ! b) + FSS_BIG\<rparr>]"
    "cur < NPROC"
proof -
  obtain p s1 where p: "scheduler_pick c s = Inr (Some p, s1)"
    using scheduler_pick_serves [OF ok(2) g] .
  have b: "b < NGROUPS" using fss_pick_group_Some(1) [OF g] .
  from p show thesis
  proof (cases rule: scheduler_pick_Some)
    case (1 g')
    have g': "g' = b" using 1(1) g by simp
    let ?s2 = "upd_proc p (\<lambda>q. q\<lparr>p_state := RUNNABLE\<rparr>) s1"
    have sg: "sched_g ?s2 c = Some b" using 1(6) g' by simp
    have len: "p < length (ptable s)" using 1(2) ok(2) by (simp add: runnable_ok_def)
    have "ptable (scheduler_return c ?s2) = ptable s"
      using 1(3,5) len
      by (simp add: scheduler_return_tables(2) [OF sg] fss_runs_in_def) (metis list_update_id proc.surjective proc.update_convs(4))
    moreover have "gtable (scheduler_return c ?s2) =
        (gtable s)[b := (gtable s ! b)\<lparr>g_rr_cursor := (p + 1) mod NPROC,
                                       g_pass := g_pass (gtable s ! b) + FSS_BIG\<rparr>]"
      using 1(4) g' b groups_okD(1,2) [OF ok(1)]
      by (simp add: scheduler_return_tables(1) [OF sg])
    ultimately show thesis
      using that [of "scheduler_return c ?s2"] p by (simp add: fss_round_def)
  qed
qed

lemma fss_rounds_low:
  assumes "groups_ok (gtable s)" and "runnable_ok (ptable s)" and "b < NGROUPS"
    and "fss_ready (gtable s) (ptable s) b"
    and "\<And>j. j < NGROUPS \<Longrightarrow> j \<noteq> b \<Longrightarrow> fss_ready (gtable s) (ptable s) j \<Longrightarrow>
           unat (g_pass (gtable s ! b)) + 100000 * n \<le> unat (g_pass (gtable s ! j))"
    and "unat (g_pass (gtable s ! b)) + 100000 * n < 2 ^ 32"
  shows "\<exists>s'. fss_rounds c n s = Inr s' \<and> ptable s' = ptable s \<and>
           unat (g_pass (gtable s' ! b)) = unat (g_pass (gtable s ! b)) + 100000 * n \<and>
           (\<forall>j < NGROUPS. j \<noteq> b \<longrightarrow> gtable s' ! j = gtable s ! j)"
  using assms
proof (induction n arbitrary: s)
  case (Suc n)
  have "g_pass (gtable s ! b) < g_pass (gtable s ! j)"
    if "j < NGROUPS" "j \<noteq> b" "fss_ready (gtable s) (ptable s) j" for j
    using Suc.prems(5) [OF that] by (simp add: word_less_nat_alt)
  then have "fss_pick_group s = Some b"
    using Suc.prems(3,4) fss_pick_group_low by blast
  then obtain s1 cur where s1: "fss_round c s = Inr s1" "ptable s1 = ptable s"
    "gtable s1 = (gtable s)[b := (gtable s ! b)\<lparr>g_rr_cursor := cur,
                                                g_pass := g_pass (gtable s ! b) + FSS_BIG\<rparr>]"
    "cur < NPROC"
    using fss_round_low Suc.prems(1,2) by metis
  have len: "length (gtable s) = NGROUPS" using Suc.prems(1) by (rule groups_okD)
  have pass: "unat (g_pass (gtable s1 ! b)) = unat (g_pass (gtable s ! b)) + 100000"
    using Suc.prems(3,6) len by (simp add: s1(3) unat_plus_if')
  have other: "gtable s1 ! j = gtable s ! j" if "j \<noteq> b" for j using that by (simp add: s1(3))
  have ready: "fss_ready (gtable s1) (ptable s1) j = fss_ready (gtable s) (ptable s) j" if "j < NGROUPS" for j
    using that len by (simp add: fss_ready_def fss_group_has_runnable_def s1(2,3) nth_update_if)
  have "groups_ok (gtable s1)"
    unfolding s1(3) using s1(4) groups_okD [OF Suc.prems(1)] Suc.prems(3)
    by (auto intro!: groups_ok_update [OF Suc.prems(1)])
  then have "\<exists>s'. fss_rounds c n s1 = Inr s' \<and> ptable s' = ptable s1 \<and>
      unat (g_pass (gtable s' ! b)) = unat (g_pass (gtable s1 ! b)) + 100000 * n \<and>
      (\<forall>j < NGROUPS. j \<noteq> b \<longrightarrow> gtable s' ! j = gtable s1 ! j)"
    using Suc.prems(2-4,6) Suc.prems(5) [unfolded mult_Suc_right]
    by (intro Suc.IH) (auto simp: s1(2) ready [unfolded s1(2)] pass other add.assoc)
  then show ?case using s1(1,2) pass other by auto
qed simp

section \<open>Properties\<close>

text \<open>Two processes in two groups, with given passes.\<close>

definition a_proc :: "int \<Rightarrow> int \<Rightarrow> proc" where
  "a_proc pid gid = zero_proc\<lparr>p_state := RUNNABLE, p_pid := pid, p_gid := gid, p_kstack := 0x80200000,
     p_pgdir := 0x80201000\<rparr>"

definition duo :: "u32 \<Rightarrow> u32 \<Rightarrow> kernel" where
  "duo x y = mk_kernel (a_proc 1 0 # a_proc 2 1 # replicate 62 zero_proc)
     ((fss_fresh_group 0 True)\<lparr>g_pass := x\<rparr> # (fss_fresh_group 1 True)\<lparr>g_pass := y\<rparr> #
      replicate 14 (fss_fresh_group 0 False))"

lemma duo_ready: "fss_ready (gtable (duo x y)) (ptable (duo x y)) 0"
  "fss_ready (gtable (duo x y)) (ptable (duo x y)) 1"
  by (simp_all add: fss_ready_def duo_def fss_fresh_group_def fss_group_has_runnable_iff a_proc_def
      fss_runs_in_def)

lemma duo_simps:
  "g_pass (gtable (duo x y) ! 0) = x" "g_pass (gtable (duo x y) ! 1) = y"
  "g_gid (gtable (duo x y) ! 0) = 0" "g_gid (gtable (duo x y) ! 1) = 1"
  by (simp_all add: duo_def fss_fresh_group_def)

lemma nth_pair_replicate:
  "(u # v # replicate n w) ! i = (if i = 0 then u else if i = 1 then v else replicate n w ! (i - 2))"
  by (cases i; cases "i - 1") auto

lemma duo_groups_ok: "groups_ok (gtable (duo x y))"
  by (auto simp: groups_ok_def duo_def fss_fresh_group_def nth_pair_replicate split: if_splits)

lemma duo_runnable_ok: "runnable_ok (ptable (duo x y))"
  by (auto simp: runnable_ok_def duo_def nth_pair_replicate a_proc_def zero_proc_def)

lemma duo_only_two: "2 \<le> j \<Longrightarrow> j < NGROUPS \<Longrightarrow> \<not> fss_ready (gtable (duo x y)) (ptable (duo x y)) j"
  by (simp add: fss_ready_def duo_def nth_pair_replicate fss_fresh_group_def)

text \<open>
  Property C2. \<open>fss_pick_group\<close> returns a null pointer exactly when no active group has a runnable process, and
  otherwise an active group with a runnable process whose pass is the least, the least group
  id among equal passes.
\<close>

theorem fss_pick_group_least:
  "case fss_pick_group s of
     None \<Rightarrow> \<forall>j < NGROUPS. \<not> (g_active (gtable s ! j) \<and> fss_group_has_runnable (gtable s ! j) (ptable s))
   | Some i \<Rightarrow> i < NGROUPS \<and> g_active (gtable s ! i) \<and> fss_group_has_runnable (gtable s ! i) (ptable s) \<and>
       (\<forall>j < NGROUPS. g_active (gtable s ! j) \<and> fss_group_has_runnable (gtable s ! j) (ptable s) \<longrightarrow>
          g_pass (gtable s ! i) < g_pass (gtable s ! j) \<or>
          g_pass (gtable s ! i) = g_pass (gtable s ! j) \<and> g_gid (gtable s ! i) \<le> g_gid (gtable s ! j))"
proof (cases "fss_pick_group s")
  case None
  then have "\<forall>j < NGROUPS. \<not> fss_ready (gtable s) (ptable s) j" by (simp only: fss_pick_group_None)
  then show ?thesis by (simp add: None fss_ready_def)
next
  case (Some i)
  show ?thesis
    using fss_pick_group_Some [OF Some] by (simp add: Some fss_ready_def not_fss_better_iff)
qed

theorem fss_pick_group_least_witness: "fss_pick_group (duo 300000 200000) = Some 1"
proof (cases "fss_pick_group (duo 300000 200000)")
  case None
  then have "\<not> fss_ready (gtable (duo 300000 200000)) (ptable (duo 300000 200000)) 1"
    using fss_pick_group_least [of "duo 300000 200000"] by (simp add: fss_ready_def)
  then show ?thesis using duo_ready(2) by blast
next
  case (Some i)
  have "i < 2"
    using fss_pick_group_least [of "duo 300000 200000"] Some duo_only_two [of i 300000 200000]
    by (cases "i < 2") (auto simp: fss_ready_def)
  moreover have "i \<noteq> 0"
  proof
    assume "i = 0"
    with fss_pick_group_least [of "duo 300000 200000"] Some duo_ready(2) [of 300000 200000]
    have "g_pass (gtable (duo 300000 200000) ! 0) < g_pass (gtable (duo 300000 200000) ! 1) \<or>
        g_pass (gtable (duo 300000 200000) ! 0) = g_pass (gtable (duo 300000 200000) ! 1)"
      by (auto simp: fss_ready_def simp del: One_nat_def dest: spec [of _ 1])
    then show False by (simp add: duo_simps del: One_nat_def)
  qed
  ultimately show ?thesis using Some by auto
qed

text \<open>
  Property C3. \<open>fss_pick_proc_in_group\<close> returns the first runnable process of the group at or after the cursor, in
  cyclic order, and moves the cursor just past it; it returns a null pointer, and changes
  nothing, exactly when the group has no runnable process.
\<close>

theorem fss_pick_proc_round_robin:
  "case fss_pick_proc_in_group (Some g) s of
     (None, s') \<Rightarrow> s' = s \<and> (\<forall>i < NPROC. \<not> fss_runs_in (g_gid (gtable s ! g)) (ptable s ! i))
   | (Some i, s') \<Rightarrow> i < NPROC \<and> fss_runs_in (g_gid (gtable s ! g)) (ptable s ! i) \<and>
       (\<forall>j < NPROC. rr_dist (g_rr_cursor (gtable s ! g)) j < rr_dist (g_rr_cursor (gtable s ! g)) i \<longrightarrow>
          \<not> fss_runs_in (g_gid (gtable s ! g)) (ptable s ! j)) \<and>
       s' = upd_group g (\<lambda>x. x\<lparr>g_rr_cursor := (i + 1) mod NPROC\<rparr>) s"
proof (cases "fss_pick_proc_in_group (Some g) s")
  case (Pair r s')
  then show ?thesis
  proof (cases r)
    case None
    with Pair fss_pick_proc_in_group_None [of g s s'] show ?thesis by simp
  next
    case (Some i)
    with Pair have "fss_pick_proc_in_group (Some g) s = (Some i, s')" by simp
    then show ?thesis using fss_pick_proc_in_group_Some [of g s i s'] by simp
  qed
qed

theorem fss_pick_proc_round_robin_witness: "fst (fss_pick_proc_in_group (Some 1) (duo 0 0)) = Some 1"
proof -
  have run: "fss_runs_in 1 (ptable (duo 0 0) ! i) \<longleftrightarrow> i = 1" if "i < NPROC" for i
    using that by (auto simp: fss_runs_in_def duo_def nth_pair_replicate a_proc_def zero_proc_def)
  have gid: "g_gid (gtable (duo 0 0) ! 1) = 1" by (simp add: duo_def fss_fresh_group_def)
  obtain r s' where r: "fss_pick_proc_in_group (Some 1) (duo 0 0) = (r, s')" by fastforce
  show ?thesis
  proof (cases r)
    case None
    with fss_pick_proc_round_robin [of "duo 0 0" 1] r gid have "\<not> fss_runs_in 1 (ptable (duo 0 0) ! 1)"
      by (simp del: One_nat_def)
    then show ?thesis using run [of 1] by simp
  next
    case (Some i)
    with fss_pick_proc_round_robin [of "duo 0 0" 1] r gid run [of i] show ?thesis
      by (simp del: One_nat_def)
  qed
qed

text \<open>
  Property C8. Round robin starves nobody: a process that stays runnable in a group is chosen within 64 choices
  from that group, whatever the rest of the kernel does to the process table in between.
\<close>

theorem fss_no_starvation_in_group:
  assumes "g < length (gtable s)" and "i < NPROC" and "NPROC \<le> length pts"
    and "\<forall>pt \<in> set pts. fss_runs_in (g_gid (gtable s ! g)) (pt ! i)"
  shows "Some i \<in> set (rr_picks g pts s)"
  using rr_picks_reaches [OF assms(1,2) _ assms(4)] rr_dist_less [of "g_rr_cursor (gtable s ! g)" i] assms(3)
  by linarith

theorem fss_no_starvation_in_group_witness:
  "Some 1 \<in> set (rr_picks 1 (replicate 64 (ptable (duo 0 0))) (duo 0 0))"
  by (rule fss_no_starvation_in_group) (simp_all add: duo_def fss_fresh_group_def fss_runs_in_def a_proc_def)

text \<open>
  Property C23. An iteration of \<open>scheduler\<close> never panics; it dispatches nothing exactly when no active group has a
  runnable process, and otherwise it makes running a runnable process of the chosen group, so the
  test for a group without runnable process after the choice is dead code.
\<close>

theorem scheduler_dispatches:
  assumes "runnable_ok (ptable s)"
  shows "\<exists>p s'. scheduler_pick c s = Inr (p, s') \<and>
           (case fss_pick_group s of
              None \<Rightarrow> p = None \<and> s' = s
            | Some g \<Rightarrow> \<exists>i < NPROC. p = Some i \<and> p_state (ptable s ! i) = RUNNABLE \<and>
                p_gid (ptable s ! i) = g_gid (gtable s ! g) \<and>
                ptable s' = (ptable s)[i := (ptable s ! i)\<lparr>p_state := RUNNING\<rparr>] \<and>
                sched_g s' = (sched_g s)(c := Some g))"
proof (cases "fss_pick_group s")
  case None
  then show ?thesis by (simp add: scheduler_pick_def)
next
  case (Some g)
  from scheduler_pick_serves [OF assms Some] obtain p s' where p: "scheduler_pick c s = Inr (Some p, s')" .
  from p show ?thesis by (rule scheduler_pick_Some) (use Some p in \<open>auto simp: fss_runs_in_def\<close>)
qed

theorem scheduler_dispatches_witness:
  "\<exists>p s'. scheduler_pick 0 (duo 300000 200000) = Inr (p, s')"
  using scheduler_dispatches [OF duo_runnable_ok, of 0 300000 200000] by blast



text \<open>
  Property C24. A ready group whose pass is lower than that of every other ready group by \<open>n\<close> quanta gets all of
  the next \<open>n\<close> rounds of a processor.  A group is created with pass 0, however far the others have
  come, so it excludes them for as long as they have been running.
\<close>

theorem low_pass_group_monopolises:
  assumes "groups_ok (gtable s)" and "runnable_ok (ptable s)" and "b < NGROUPS"
    and "fss_ready (gtable s) (ptable s) b"
    and "\<And>j. j < NGROUPS \<Longrightarrow> j \<noteq> b \<Longrightarrow> fss_ready (gtable s) (ptable s) j \<Longrightarrow>
           unat (g_pass (gtable s ! b)) + 100000 * n \<le> unat (g_pass (gtable s ! j))"
    and "unat (g_pass (gtable s ! b)) + 100000 * n < 2 ^ 32"
  shows "\<exists>s'. fss_rounds c n s = Inr s' \<and> ptable s' = ptable s \<and>
           unat (g_pass (gtable s' ! b)) = unat (g_pass (gtable s ! b)) + 100000 * n \<and>
           (\<forall>j < NGROUPS. j \<noteq> b \<longrightarrow> gtable s' ! j = gtable s ! j)"
  using assms by (rule fss_rounds_low)

lemma duo_lower:
  assumes "unat y + d \<le> unat x"
    and "j < NGROUPS" "j \<noteq> 1" "fss_ready (gtable (duo x y)) (ptable (duo x y)) j"
  shows "unat (g_pass (gtable (duo x y) ! 1)) + d \<le> unat (g_pass (gtable (duo x y) ! j))"
proof -
  have "j = 0" using assms(2-4) duo_only_two [of j] by (cases "j < 2") auto
  then show ?thesis using assms(1) by (simp add: duo_def fss_fresh_group_def)
qed

theorem low_pass_group_monopolises_witness:
  "\<exists>s'. fss_rounds 0 30 (duo 3000000 0) = Inr s' \<and> unat (g_pass (gtable s' ! 1)) = 3000000 \<and>
     gtable s' ! 0 = gtable (duo 3000000 0) ! 0"
proof -
  have "\<exists>s'. fss_rounds 0 30 (duo 3000000 0) = Inr s' \<and> ptable s' = ptable (duo 3000000 0) \<and>
      unat (g_pass (gtable s' ! 1)) = unat (g_pass (gtable (duo 3000000 0) ! 1)) + 100000 * 30 \<and>
      (\<forall>j < NGROUPS. j \<noteq> 1 \<longrightarrow> gtable s' ! j = gtable (duo 3000000 0) ! j)"
    by (rule low_pass_group_monopolises [OF duo_groups_ok duo_runnable_ok _ duo_ready(2) duo_lower])
      (simp_all add: duo_simps del: One_nat_def)
  then show ?thesis by (auto simp: duo_simps simp del: One_nat_def)
qed



end
