(* ===== verification/Proc.thy ===== *)
theory Proc
  imports Fss
begin

text \<open>
  kernel/proc.c without the scheduler and without the operations that need the file system: allocation of
  processes, sleeping and waking, killing, reaping, tick accounting and the group system calls.  The
  sections that the source runs under \<open>ptable.lock\<close> are single steps; \<open>sched\<close>, whose checks are about that
  lock, is modelled with it.  A call that may block is one round of its loop: it returns, or leaves the
  caller sleeping on a channel, to run the next round when it is woken.
\<close>

section \<open>Definitions\<close>

datatype 'r outcome = Returns 'r | Blocks

definition pinit :: "'a kernel_scheme \<Rightarrow> 'a kernel_scheme" where
  "pinit s = fss_init_groups (s\<lparr>ptable_lock := initlock ''ptable'' (ptable_lock s)\<rparr>)"

definition allocproc :: "'a kernel_scheme \<Rightarrow> nat option \<times> 'a kernel_scheme" where
  "allocproc s =
     (case find_index (\<lambda>p. p_state p = UNUSED) (ptable s) of
        None \<Rightarrow> (None, s)
      | Some i \<Rightarrow>
          let s1 = (upd_proc i (\<lambda>p. p\<lparr>p_state := EMBRYO, p_pid := nextpid s, p_gid := 0\<rparr>) s)
                     \<lparr>nextpid := nextpid s + 1\<rparr>;
              s2 = snd (fss_group_ensure (p_gid (ptable s1 ! i)) s1);
              s3 = upd_proc i (\<lambda>p. p\<lparr>p_rtime := 0, p_wtime := 0, p_stime := 0\<rparr>) s2
          in (case kalloc s3 of (k, s4) \<Rightarrow>
                let s5 = upd_proc i (\<lambda>p. p\<lparr>p_kstack := k\<rparr>) s4
                in if k = 0 then (None, upd_proc i (\<lambda>p. p\<lparr>p_state := UNUSED\<rparr>) s5)
                   else let tf = k + KSTACKSIZE - 76; sp = tf - 4; ctx = sp - 20;
                            m = memset (wr32 (ram s5) sp (sym_trapret s5)) ctx 0 20
                        in (Some i,
                            upd_proc i (\<lambda>p. p\<lparr>p_tf := tf, p_context := ctx\<rparr>)
                              (s5\<lparr>ram := wr32 m (ctx + 16) (sym_forkret s5)\<rparr>))))"

text \<open>
  \<open>sched\<close> up to \<open>swtch\<close>: its four checks, and the value of \<open>intena\<close> that it keeps on its stack.  When the
  scheduler switches back to the process it restores it.
\<close>

definition sched_enter :: "u8 \<Rightarrow> nat \<Rightarrow> 'a kernel_scheme \<Rightarrow> (bool \<times> 'a kernel_scheme) res" where
  "sched_enter aid me s =
     bind_res (holding aid (ptable_lock s) s) (\<lambda>(h, s1).
       guard_res (\<not> h) ''sched ptable.lock''
         (bind_res (mycpu aid s1) (\<lambda>c.
            guard_res (c_ncli (cpus s1 ! c) \<noteq> 1) ''sched locks''
              (guard_res (p_state (ptable s1 ! me) = RUNNING) ''sched running''
                (guard_res (eflags_IF s1 aid) ''sched interruptible''
                  (Inr (c_intena (cpus s1 ! c), s1)))))))"

definition sched_leave :: "nat \<Rightarrow> bool \<Rightarrow> 'a kernel_scheme \<Rightarrow> 'a kernel_scheme" where
  "sched_leave c intena s = upd_cpu c (\<lambda>x. x\<lparr>c_intena := intena\<rparr>) s"

definition acquire_ptable :: "u8 \<Rightarrow> u32 list \<Rightarrow> 'a kernel_scheme \<Rightarrow> 'a kernel_scheme option res" where
  "acquire_ptable aid pcs s =
     bind_res (acquire aid pcs (ptable_lock s) s) (\<lambda>r.
       Inr (map_option (\<lambda>(lk, s1). s1\<lparr>ptable_lock := lk\<rparr>) r))"

text \<open>\<open>yield\<close> up to the switch; \<open>None\<close> when the lock is not free.\<close>

definition yield :: "u8 \<Rightarrow> u32 list \<Rightarrow> nat \<Rightarrow> 'a kernel_scheme \<Rightarrow> (bool \<times> 'a kernel_scheme) option res" where
  "yield aid pcs me s =
     bind_res (acquire_ptable aid pcs s) (\<lambda>r.
       case r of
         None \<Rightarrow> Inr None
       | Some s1 \<Rightarrow>
           bind_res (sched_enter aid me (upd_proc me (\<lambda>p. p\<lparr>p_state := RUNNABLE\<rparr>) s1))
             (\<lambda>x. Inr (Some x)))"

text \<open>What \<open>sleep\<close> does to the process table before and after the switch.\<close>

definition sleep_on :: "nat \<Rightarrow> chan \<Rightarrow> 'a kernel_scheme \<Rightarrow> 'a kernel_scheme" where
  "sleep_on me ch s = upd_proc me (\<lambda>p. p\<lparr>p_chan := Some ch, p_state := SLEEPING\<rparr>) s"

definition sleep_resume :: "nat \<Rightarrow> 'a kernel_scheme \<Rightarrow> 'a kernel_scheme" where
  "sleep_resume me s = upd_proc me (\<lambda>p. p\<lparr>p_chan := None\<rparr>) s"

definition wakeup1 :: "chan option \<Rightarrow> 'a kernel_scheme \<Rightarrow> 'a kernel_scheme" where
  "wakeup1 ch s =
     s\<lparr>ptable := map (\<lambda>p. if p_state p = SLEEPING \<and> p_chan p = ch then p\<lparr>p_state := RUNNABLE\<rparr> else p)
                     (ptable s)\<rparr>"

definition wakeup :: "chan \<Rightarrow> 'a kernel_scheme \<Rightarrow> 'a kernel_scheme" where
  "wakeup ch s = wakeup1 (Some ch) s"

definition kill :: "int \<Rightarrow> 'a kernel_scheme \<Rightarrow> int \<times> 'a kernel_scheme" where
  "kill pid s =
     (case find_index (\<lambda>p. p_pid p = pid) (ptable s) of
        None \<Rightarrow> (-1, s)
      | Some i \<Rightarrow>
          (0, upd_proc i (\<lambda>p. if p_state p = SLEEPING then p\<lparr>p_state := RUNNABLE, p_killed := True\<rparr>
                              else p\<lparr>p_killed := True\<rparr>) s))"

section \<open>Reaping children\<close>

definition child_zombie :: "nat \<Rightarrow> proc \<Rightarrow> bool" where
  "child_zombie me p \<longleftrightarrow> p_parent p = Some me \<and> p_state p = ZOMBIE"

definition havekids :: "nat \<Rightarrow> 'a kernel_scheme \<Rightarrow> bool" where
  "havekids me s \<longleftrightarrow> (\<exists>p \<in> set (ptable s). p_parent p = Some me)"

definition wait_proc :: "nat \<Rightarrow> 'a kernel_scheme \<Rightarrow> (int outcome \<times> 'a kernel_scheme) res" where
  "wait_proc me s =
     (case find_index (child_zombie me) (ptable s) of
        Some i \<Rightarrow>
          let p = ptable s ! i
          in bind_res (kfree (p_kstack p) s) (\<lambda>s1.
             bind_res (freevm (p_pgdir p) (upd_proc i (\<lambda>q. q\<lparr>p_kstack := 0\<rparr>) s1)) (\<lambda>s2.
             Inr (Returns (p_pid p),
                  upd_proc i (\<lambda>q. q\<lparr>p_pid := 0, p_parent := None, p_name := (p_name q)[0 := 0],
                                    p_killed := False, p_state := UNUSED\<rparr>) s2)))
      | None \<Rightarrow>
          if \<not> havekids me s \<or> p_killed (ptable s ! me) then Inr (Returns (-1), s)
          else Inr (Blocks, sleep_on me (CProc me) s))"

definition waitx_store :: "nat \<Rightarrow> u32 \<Rightarrow> int \<Rightarrow> 'a kernel_scheme \<Rightarrow> 'a kernel_scheme res" where
  "waitx_store me va v s = (if va = 0 then Inr s else ustore32 (p_pgdir (ptable s ! me)) va (of_int v) s)"

definition waitx :: "nat \<Rightarrow> u32 \<Rightarrow> u32 \<Rightarrow> 'a kernel_scheme \<Rightarrow> (int outcome \<times> 'a kernel_scheme) res" where
  "waitx me wtime rtime s =
     (case find_index (child_zombie me) (ptable s) of
        Some i \<Rightarrow>
          let p = ptable s ! i
          in bind_res (waitx_store me wtime (p_wtime p) s) (\<lambda>s1.
             bind_res (waitx_store me rtime (p_rtime p) s1) (\<lambda>s2.
             bind_res (kfree (p_kstack p) s2) (\<lambda>s3.
             bind_res (freevm (p_pgdir p) (upd_proc i (\<lambda>q. q\<lparr>p_kstack := 0\<rparr>) s3)) (\<lambda>s4.
             Inr (Returns (p_pid p),
                  upd_proc i (\<lambda>q. q\<lparr>p_state := UNUSED, p_pid := 0, p_parent := None,
                                    p_name := (p_name q)[0 := 0], p_killed := False,
                                    p_rtime := 0, p_wtime := 0, p_stime := 0\<rparr>) s4)))))
      | None \<Rightarrow>
          if \<not> havekids me s \<or> p_killed (ptable s ! me) then Inr (Returns (-1), s)
          else Inr (Blocks, sleep_on me (CProc me) s))"

section \<open>Accounting and groups\<close>

definition tick_proc :: "proc \<Rightarrow> proc" where
  "tick_proc p =
     (case p_state p of
        RUNNING \<Rightarrow> p\<lparr>p_rtime := p_rtime p + 1\<rparr>
      | RUNNABLE \<Rightarrow> p\<lparr>p_wtime := p_wtime p + 1\<rparr>
      | SLEEPING \<Rightarrow> p\<lparr>p_stime := p_stime p + 1\<rparr>
      | _ \<Rightarrow> p)"

definition tick_accounting :: "'a kernel_scheme \<Rightarrow> 'a kernel_scheme" where
  "tick_accounting s = s\<lparr>ptable := map tick_proc (ptable s)\<rparr>"

definition getgroup_k :: "int \<Rightarrow> 'a kernel_scheme \<Rightarrow> int" where
  "getgroup_k pid s =
     (case find_index (\<lambda>p. p_pid p = pid \<and> p_state p \<noteq> UNUSED) (ptable s) of
        None \<Rightarrow> -1
      | Some i \<Rightarrow> p_gid (ptable s ! i))"

definition setgroup_k :: "int \<Rightarrow> int \<Rightarrow> 'a kernel_scheme \<Rightarrow> int \<times> 'a kernel_scheme" where
  "setgroup_k pid gid s =
     (if gid < 0 then (-1, s)
      else case fss_group_ensure gid s of
             (None, s1) \<Rightarrow> (-1, s1)
           | (Some g, s1) \<Rightarrow>
               (case find_index (\<lambda>p. p_pid p = pid \<and> p_state p \<noteq> UNUSED) (ptable s1) of
                  None \<Rightarrow> (-1, s1)
                | Some i \<Rightarrow> (0, upd_proc i (\<lambda>p. p\<lparr>p_gid := gid\<rparr>) s1)))"

section \<open>The invariant of the process table\<close>

definition group_live :: "group list \<Rightarrow> int \<Rightarrow> bool" where
  "group_live gs gid \<longleftrightarrow> (\<exists>i < NGROUPS. g_active (gs ! i) \<and> g_gid (gs ! i) = gid)"

definition proc_ok :: "group list \<Rightarrow> int \<Rightarrow> proc \<Rightarrow> bool" where
  "proc_ok gs np p \<longleftrightarrow>
     (p_state p \<noteq> UNUSED \<longrightarrow> group_live gs (p_gid p) \<and> 0 < p_pid p \<and> p_pid p < np) \<and>
     (p_state p \<in> {RUNNABLE, RUNNING, SLEEPING, ZOMBIE} \<longrightarrow> p_kstack p \<noteq> 0 \<and> p_pgdir p \<noteq> 0)"

definition pids_unique :: "proc list \<Rightarrow> bool" where
  "pids_unique ps \<longleftrightarrow>
     (\<forall>i < length ps. \<forall>j < length ps. p_state (ps ! i) \<noteq> UNUSED \<longrightarrow> p_state (ps ! j) \<noteq> UNUSED \<longrightarrow>
        p_pid (ps ! i) = p_pid (ps ! j) \<longrightarrow> i = j)"

definition proc_inv :: "'a kernel_scheme \<Rightarrow> bool" where
  "proc_inv s \<longleftrightarrow> length (ptable s) = NPROC \<and> groups_ok (gtable s) \<and> group_live (gtable s) 0 \<and> 0 < nextpid s \<and>
     (\<forall>i < NPROC. proc_ok (gtable s) (nextpid s) (ptable s ! i)) \<and> pids_unique (ptable s)"

lemma proc_invD:
  assumes "proc_inv s"
  shows "length (ptable s) = NPROC" "groups_ok (gtable s)" "group_live (gtable s) 0" "0 < nextpid s"
    and "\<And>i. i < NPROC \<Longrightarrow> proc_ok (gtable s) (nextpid s) (ptable s ! i)" "pids_unique (ptable s)"
  using assms unfolding proc_inv_def by blast+

lemma pids_uniqueD:
  "pids_unique ps \<Longrightarrow> i < length ps \<Longrightarrow> j < length ps \<Longrightarrow> p_state (ps ! i) \<noteq> UNUSED \<Longrightarrow>
     p_state (ps ! j) \<noteq> UNUSED \<Longrightarrow> p_pid (ps ! i) = p_pid (ps ! j) \<Longrightarrow> i = j"
  unfolding pids_unique_def by blast

text \<open>An operation that rewrites one slot keeps the invariant if the new process is as it should be.\<close>

lemma pids_unique_update:
  assumes "pids_unique ps"
    and "p_state q \<noteq> UNUSED \<Longrightarrow> p_state (ps ! i) \<noteq> UNUSED \<and> p_pid q = p_pid (ps ! i) \<or>
           (\<forall>j < length ps. j \<noteq> i \<longrightarrow> p_state (ps ! j) \<noteq> UNUSED \<longrightarrow> p_pid (ps ! j) \<noteq> p_pid q)"
  shows "pids_unique (ps[i := q])"
  unfolding pids_unique_def
proof (intro allI impI)
  fix j k assume jk: "j < length (ps[i := q])" "k < length (ps[i := q])"
    "p_state (ps[i := q] ! j) \<noteq> UNUSED" "p_state (ps[i := q] ! k) \<noteq> UNUSED"
    "p_pid (ps[i := q] ! j) = p_pid (ps[i := q] ! k)"
  then show "j = k"
    using assms(2) pids_uniqueD [OF assms(1), of j k]
      pids_uniqueD [OF assms(1), of i k] pids_uniqueD [OF assms(1), of j i]
    by (cases "j = i"; cases "k = i") auto
qed

lemma proc_inv_upd:
  assumes inv: "proc_inv s" and i: "i < NPROC" and q: "q = f (ptable s ! i)"
    and ok: "proc_ok (gtable s) (nextpid s) q"
    and pid: "p_state q \<noteq> UNUSED \<Longrightarrow> p_state (ptable s ! i) \<noteq> UNUSED \<and> p_pid q = p_pid (ptable s ! i)"
  shows "proc_inv (upd_proc i f s)"
proof -
  note D = proc_invD [OF inv]
  have "pids_unique ((ptable s)[i := q])"
    by (rule pids_unique_update [OF D(6)]) (use pid in blast)
  moreover have "proc_ok (gtable s) (nextpid s) ((ptable s)[i := q] ! j)" if "j < NPROC" for j
    using D(1,5) ok that by (simp add: nth_update_if)
  ultimately show ?thesis using D by (simp add: proc_inv_def q upd_proc_def)
qed

lemma proc_inv_map:
  assumes inv: "proc_inv s"
    and f: "\<And>p. p_pid (f p) = p_pid p" "\<And>p. p_gid (f p) = p_gid p"
      "\<And>p. p_kstack (f p) = p_kstack p" "\<And>p. p_pgdir (f p) = p_pgdir p"
      "\<And>p. p_state (f p) = p_state p \<or> p_state p = SLEEPING \<and> p_state (f p) = RUNNABLE"
  shows "proc_inv (s\<lparr>ptable := map f (ptable s)\<rparr>)"
proof -
  note D = proc_invD [OF inv]
  have unused: "p_state (f p) = UNUSED \<longleftrightarrow> p_state p = UNUSED" for p using f(5) [of p] by auto
  have "proc_ok (gtable s) (nextpid s) (f (ptable s ! i))" if "i < NPROC" for i
    using D(5) [OF that] f(5) [of "ptable s ! i"] by (auto simp: proc_ok_def f(1-4))
  moreover have "pids_unique (map f (ptable s))"
    using D(6) by (auto simp: pids_unique_def f(1) unused)
  ultimately show ?thesis using D by (simp add: proc_inv_def)
qed

lemma proc_inv_cong:
  assumes "proc_inv s" "ptable s' = ptable s" "gtable s' = gtable s" "nextpid s' = nextpid s"
  shows "proc_inv s'"
  using assms by (simp add: proc_inv_def)

lemma mem_only_tables:
  assumes "mem_only s s'"
  shows "ptable s' = ptable s" "gtable s' = gtable s" "nextpid s' = nextpid s" "sched_g s' = sched_g s"
    "initproc s' = initproc s"
  using assms by (auto simp: mem_only_def)

lemma proc_inv_mem: "proc_inv s \<Longrightarrow> mem_only s s' \<Longrightarrow> proc_inv s'"
  using proc_inv_cong mem_only_tables by blast

lemma group_live_ensure:
  assumes "groups_ok (gtable s)" and "group_live (gtable s) gid'"
  shows "group_live (gtable (snd (fss_group_ensure gid s))) gid'"
proof -
  obtain i where "i < NGROUPS" "g_active (gtable s ! i)" "g_gid (gtable s ! i) = gid'"
    using assms(2) by (auto simp: group_live_def)
  then show ?thesis using fss_group_ensure_keeps by (metis group_live_def)
qed

lemma group_live_ensured:
  assumes "groups_ok (gtable s)" and "fst (fss_group_ensure gid s) \<noteq> None"
  shows "group_live (gtable (snd (fss_group_ensure gid s))) gid"
  using groups_okD(1) [OF assms(1)] assms(2)
  by (cases rule: fss_group_ensure_cases [of gid s])
    (auto simp: group_live_def fss_fresh_group_def intro!: exI)

lemma nextpid_ensure [simp]: "nextpid (snd (fss_group_ensure gid s)) = nextpid s"
  by (cases rule: fss_group_ensure_cases [of gid s]) (simp_all add: upd_group_def)

lemma proc_inv_ensure: "proc_inv s \<Longrightarrow> proc_inv (snd (fss_group_ensure gid s))"
  by (auto simp: proc_inv_def proc_ok_def groups_ok_ensure group_live_ensure)

section \<open>Every operation keeps the invariant\<close>

lemma proc_inv_wakeup1: "proc_inv s \<Longrightarrow> proc_inv (wakeup1 ch s)"
  unfolding wakeup1_def by (rule proc_inv_map) auto

lemma proc_inv_tick: "proc_inv s \<Longrightarrow> proc_inv (tick_accounting s)"
  unfolding tick_accounting_def
  by (rule proc_inv_map) (auto simp: tick_proc_def split: procstate.splits)

lemma proc_inv_kill:
  assumes "proc_inv s"
  shows "proc_inv (snd (kill pid s))"
proof (cases "find_index (\<lambda>p. p_pid p = pid) (ptable s)")
  case (Some i)
  then have "i < NPROC" using find_index_SomeD(1) proc_invD(1) [OF assms] by fastforce
  then show ?thesis
    using Some proc_invD(5) [OF assms]
    by (auto simp: kill_def proc_ok_def intro!: proc_inv_upd [OF assms _ refl])
qed (use assms in \<open>simp add: kill_def\<close>)

lemma proc_inv_state:
  assumes "proc_inv s" and "i < NPROC" and "p_state (ptable s ! i) \<in> {RUNNABLE, RUNNING, SLEEPING}"
  shows "proc_inv (upd_proc i (\<lambda>p. p\<lparr>p_state := st\<rparr>) s)"
proof (rule proc_inv_upd [OF assms(1,2) refl])
  have "p_state (ptable s ! i) \<noteq> UNUSED" using assms(3) by auto
  then show "proc_ok (gtable s) (nextpid s) ((ptable s ! i)\<lparr>p_state := st\<rparr>)"
    using proc_invD(5) [OF assms(1,2)] assms(3) by (auto simp: proc_ok_def)
  show "p_state (ptable s ! i) \<noteq> UNUSED \<and> p_pid ((ptable s ! i)\<lparr>p_state := st\<rparr>) = p_pid (ptable s ! i)"
    using assms(3) by auto
qed

lemma proc_inv_sleep_on:
  assumes "proc_inv s" and "i < NPROC" and "p_state (ptable s ! i) \<in> {RUNNABLE, RUNNING, SLEEPING}"
  shows "proc_inv (sleep_on i ch s)"
  unfolding sleep_on_def
proof (rule proc_inv_upd [OF assms(1,2) refl])
  show "proc_ok (gtable s) (nextpid s) ((ptable s ! i)\<lparr>p_chan := Some ch, p_state := SLEEPING\<rparr>)"
    using proc_invD(5) [OF assms(1,2)] assms(3) by (auto simp: proc_ok_def)
  show "p_state (ptable s ! i) \<noteq> UNUSED \<and>
      p_pid ((ptable s ! i)\<lparr>p_chan := Some ch, p_state := SLEEPING\<rparr>) = p_pid (ptable s ! i)"
    using assms(3) by auto
qed

lemma proc_inv_setgroup:
  assumes "proc_inv s"
  shows "proc_inv (snd (setgroup_k pid gid s))"
proof (cases "0 \<le> gid \<and> fst (fss_group_ensure gid s) \<noteq> None")
  case True
  let ?s1 = "snd (fss_group_ensure gid s)"
  have inv1: "proc_inv ?s1" using assms by (rule proc_inv_ensure)
  have live: "group_live (gtable ?s1) gid"
    using True group_live_ensured proc_invD(2) [OF assms] by blast
  obtain g where g: "fss_group_ensure gid s = (Some g, ?s1)" using True by (metis not_None_eq prod.collapse)
  show ?thesis
  proof (cases "find_index (\<lambda>p. p_pid p = pid \<and> p_state p \<noteq> UNUSED) (ptable ?s1)")
    case None
    have "setgroup_k pid gid s = (-1, ?s1)"
      unfolding setgroup_k_def using True by (subst g) (simp add: None [simplified])
    then show ?thesis using inv1 by simp
  next
    case (Some i)
    note F = find_index_SomeD(1,2) [OF Some]
    have i: "i < NPROC" using F proc_invD(1) [OF inv1] by simp
    have "setgroup_k pid gid s = (0, upd_proc i (\<lambda>p. p\<lparr>p_gid := gid\<rparr>) ?s1)"
      unfolding setgroup_k_def using True by (subst g) (simp add: Some [simplified])
    moreover have "proc_inv (upd_proc i (\<lambda>p. p\<lparr>p_gid := gid\<rparr>) ?s1)"
      using proc_invD(5) [OF inv1 i] live F by (intro proc_inv_upd [OF inv1 i refl]) (auto simp: proc_ok_def)
    ultimately show ?thesis by simp
  qed
next
  case False
  then have "setgroup_k pid gid s = (-1, s) \<or> setgroup_k pid gid s = (-1, snd (fss_group_ensure gid s))"
    by (cases "fss_group_ensure gid s") (auto simp: setgroup_k_def)
  then show ?thesis using assms proc_inv_ensure by auto
qed

lemma scheduler_pick_nextpid:
  "scheduler_pick c s = Inr (p, s') \<Longrightarrow> nextpid s' = nextpid s"
  by (auto simp: scheduler_pick_def fss_pick_proc_in_group_def switchuvm_def upd_group_def upd_proc_def
      upd_cpu_def Let_def bind_res_eq_Inr_iff split: option.splits prod.splits)

lemma group_live_cong:
  assumes "\<And>j. j < NGROUPS \<Longrightarrow> g_active (gs' ! j) = g_active (gs ! j) \<and> g_gid (gs' ! j) = g_gid (gs ! j)"
  shows "group_live gs' = group_live gs"
  by (simp add: group_live_def fun_eq_iff assms cong: conj_cong)

lemma proc_inv_groups:
  assumes "proc_inv s" and "ptable s' = ptable s" and "nextpid s' = nextpid s" and "groups_ok (gtable s')"
    and live: "group_live (gtable s') = group_live (gtable s)"
  shows "proc_inv s'"
  using assms(1,4) unfolding proc_inv_def proc_ok_def live assms(2,3) by blast

lemma proc_inv_pick:
  assumes inv: "proc_inv s" and pick: "scheduler_pick c s = Inr (p, s')"
  shows "proc_inv s'"
proof (cases p)
  case (Some i)
  from pick [unfolded Some] show ?thesis
  proof (cases rule: scheduler_pick_Some)
    case (1 g)
    have len: "length (gtable s) = NGROUPS" using groups_okD(1) proc_invD(2) [OF inv] by blast
    have live: "group_live (gtable s') = group_live (gtable s)"
      unfolding 1(4) by (rule group_live_cong) (simp add: len nth_update_if)
    have "proc_inv (upd_proc i (\<lambda>p. p\<lparr>p_state := RUNNING\<rparr>) s)"
      using 1(2,3) by (intro proc_inv_state [OF inv]) (auto simp: fss_runs_in_def)
    then show ?thesis
      by (rule proc_inv_groups)
        (simp_all add: 1(5) live scheduler_pick_nextpid [OF pick] groups_ok_pick [OF proc_invD(2) [OF inv] pick],
          simp add: upd_proc_def)
  qed
next
  case None
  with pick have "s' = s" using scheduler_pick_None by blast
  with inv show ?thesis by simp
qed

lemma proc_inv_return:
  assumes inv: "proc_inv s"
  shows "proc_inv (scheduler_return c s)"
proof (cases "sched_g s c")
  case (Some g)
  note T = scheduler_return_tables [OF Some]
  have len: "length (gtable s) = NGROUPS" using groups_okD(1) proc_invD(2) [OF inv] by blast
  have live: "group_live (gtable (scheduler_return c s)) = group_live (gtable s)"
    by (rule group_live_cong) (use len in \<open>simp add: T(1) nth_update_if\<close>)
  have "nextpid (scheduler_return c s) = nextpid s"
    by (simp add: scheduler_return_def Some Let_def upd_group_def upd_cpu_def switchkvm_def)
  then show ?thesis
    by (intro proc_inv_groups [OF inv]) (simp_all add: live T(2) groups_ok_return proc_invD(2) [OF inv])
qed (use inv in \<open>simp add: scheduler_return_def\<close>)

section \<open>Allocating a process\<close>

lemma fss_group_ensure_cong:
  assumes "gtable s' = gtable s"
  shows "gtable (snd (fss_group_ensure gid s')) = gtable (snd (fss_group_ensure gid s))"
  using assms
  by (simp add: fss_group_ensure_def fss_group_lookup_def upd_group_def split: option.splits)

lemma allocproc_cases:
  assumes inv: "proc_inv s"
  obtains (no_slot) "allocproc s = (None, s)" "\<forall>p \<in> set (ptable s). p_state p \<noteq> UNUSED"
  | (no_stack) i s' where "allocproc s = (None, s')" "freelist s = 0" "i < NPROC" "p_state (ptable s ! i) = UNUSED"
      "gtable s' = gtable (snd (fss_group_ensure 0 s))" "nextpid s' = nextpid s + 1"
      "ptable s' = (ptable s)[i := (ptable s ! i)\<lparr>p_state := UNUSED, p_pid := nextpid s, p_gid := 0,
         p_rtime := 0, p_wtime := 0, p_stime := 0, p_kstack := 0\<rparr>]"
  | (found) i s' k where "allocproc s = (Some i, s')" "i < NPROC" "p_state (ptable s ! i) = UNUSED"
      "\<forall>j < i. p_state (ptable s ! j) \<noteq> UNUSED"
      "gtable s' = gtable (snd (fss_group_ensure 0 s))" "nextpid s' = nextpid s + 1" "k \<noteq> 0" "k = freelist s"
      "ptable s' = (ptable s)[i := (ptable s ! i)\<lparr>p_state := EMBRYO, p_pid := nextpid s, p_gid := 0,
         p_rtime := 0, p_wtime := 0, p_stime := 0, p_kstack := k, p_tf := k + 4020, p_context := k + 3996\<rparr>]"
proof (cases "find_index (\<lambda>p. p_state p = UNUSED) (ptable s)")
  case None
  then have "allocproc s = (None, s)" by (simp add: allocproc_def)
  then show thesis using no_slot None by (simp add: find_index_None_iff)
next
  case (Some i)
  note F = find_index_SomeD [OF Some]
  have i: "i < NPROC" using F(1) proc_invD(1) [OF inv] by simp
  define s1 where "s1 = (upd_proc i (\<lambda>p. p\<lparr>p_state := EMBRYO, p_pid := nextpid s, p_gid := 0\<rparr>) s)
                          \<lparr>nextpid := nextpid s + 1\<rparr>"
  define s2 where "s2 = snd (fss_group_ensure 0 s1)"
  define s3 where "s3 = upd_proc i (\<lambda>p. p\<lparr>p_rtime := 0, p_wtime := 0, p_stime := 0\<rparr>) s2"
  obtain k s4 where k: "kalloc s3 = (k, s4)" by fastforce
  have kf: "k = freelist s"
  proof -
    have "k = freelist s3" using k by (simp add: kalloc_def Let_def split: if_splits)
    also have "\<dots> = freelist s2" by (simp add: s3_def upd_proc_def)
    also have "\<dots> = freelist s1"
      by (cases rule: fss_group_ensure_cases [of 0 s1]) (simp_all add: s2_def upd_group_def)
    finally show ?thesis by (simp add: s1_def upd_proc_def)
  qed
  note M = mem_only_tables [OF kalloc_mem [OF k]]
  have gt: "gtable s4 = gtable (snd (fss_group_ensure 0 s))" "nextpid s4 = nextpid s + 1"
    using fss_group_ensure_cong [of s1 s 0]
    by (simp_all add: M s3_def s2_def s1_def) (simp_all add: upd_proc_def)
  have pt: "ptable s4 = (ptable s)[i := (ptable s ! i)\<lparr>p_state := EMBRYO, p_pid := nextpid s, p_gid := 0,
      p_rtime := 0, p_wtime := 0, p_stime := 0\<rparr>]"
    using F(1) by (simp add: M s3_def s2_def s1_def)
  have gid: "p_gid (ptable s1 ! i) = 0" using F(1) by (simp add: s1_def)
  show thesis
  proof (cases "k = 0")
    case True
    let ?s' = "upd_proc i (\<lambda>p. p\<lparr>p_state := UNUSED\<rparr>) (upd_proc i (\<lambda>p. p\<lparr>p_kstack := k\<rparr>) s4)"
    have "allocproc s = (None, ?s')"
      unfolding allocproc_def Some option.case Let_def s1_def [symmetric] gid s2_def [symmetric] s3_def [symmetric] k
      using True by simp
    moreover have "ptable ?s' = (ptable s)[i := (ptable s ! i)\<lparr>p_state := UNUSED, p_pid := nextpid s, p_gid := 0,
         p_rtime := 0, p_wtime := 0, p_stime := 0, p_kstack := 0\<rparr>]"
      using F(1) True by (simp add: pt) (cases "ptable s ! i", simp)
    ultimately show thesis
      using no_stack [of ?s' i] i F(2) gt kf True by (simp add: upd_proc_def)
  next
    case False
    let ?m = "\<lambda>s5. wr32 (memset (wr32 (ram s5) (k + KSTACKSIZE - 76 - 4) (sym_trapret s5))
                 (k + KSTACKSIZE - 76 - 4 - 20) 0 20) (k + KSTACKSIZE - 76 - 4 - 20 + 16) (sym_forkret s5)"
    let ?s5 = "upd_proc i (\<lambda>p. p\<lparr>p_kstack := k\<rparr>) s4"
    let ?s' = "upd_proc i (\<lambda>p. p\<lparr>p_tf := k + KSTACKSIZE - 76, p_context := k + KSTACKSIZE - 76 - 4 - 20\<rparr>)
                 (?s5\<lparr>ram := ?m ?s5\<rparr>)"
    have "allocproc s = (Some i, ?s')"
      unfolding allocproc_def Some option.case Let_def s1_def [symmetric] gid s2_def [symmetric] s3_def [symmetric] k
      using False by simp
    moreover have "ptable ?s' = (ptable s)[i := (ptable s ! i)\<lparr>p_state := EMBRYO, p_pid := nextpid s, p_gid := 0,
         p_rtime := 0, p_wtime := 0, p_stime := 0, p_kstack := k, p_tf := k + 4020, p_context := k + 3996\<rparr>]"
      using F(1) by (simp add: pt add.commute)
    ultimately show thesis
      using found [of i ?s' k] i F(2,3) gt False kf by (simp add: upd_proc_def)
  qed
qed

lemma proc_inv_fresh:
  assumes inv: "proc_inv s" and i: "i < NPROC" "p_state (ptable s ! i) = UNUSED"
    and gt: "gtable s' = gtable (snd (fss_group_ensure 0 s))" and np: "nextpid s' = nextpid s + 1"
    and pt: "ptable s' = (ptable s)[i := q]"
    and q: "p_pid q = nextpid s" "p_gid q = 0" "p_state q = UNUSED \<or> p_state q = EMBRYO"
  shows "proc_inv s'"
proof -
  let ?e = "snd (fss_group_ensure 0 s)"
  have inv': "proc_inv ?e" using inv by (rule proc_inv_ensure)
  note D = proc_invD [OF inv'] and D0 = proc_invD [OF inv]
  have "pids_unique (ptable s')"
    unfolding pt
  proof (rule pids_unique_update [OF D0(6)], rule disjI2, intro allI impI)
    fix j assume "j < length (ptable s)" "p_state (ptable s ! j) \<noteq> UNUSED"
    then show "p_pid (ptable s ! j) \<noteq> p_pid q"
      using D0(1) D0(5) [of j] q(1) by (auto simp: proc_ok_def)
  qed
  moreover have "proc_ok (gtable s') (nextpid s') (ptable s' ! j)" if "j < NPROC" for j
  proof (cases "j = i")
    case True
    then have "ptable s' ! j = q" using D0(1) i(1) by (simp add: pt)
    then show ?thesis using D(3) D0(4) q unfolding proc_ok_def gt np by auto
  next
    case False
    then have "ptable s' ! j = ptable ?e ! j" by (simp add: pt)
    then show ?thesis using D(5) [OF that] unfolding proc_ok_def gt np by auto
  qed
  ultimately show ?thesis using D(2,3) D0(1,4) unfolding proc_inv_def gt np pt by simp
qed

lemma proc_inv_allocproc:
  assumes "proc_inv s"
  shows "proc_inv (snd (allocproc s))"
  using assms
proof (cases rule: allocproc_cases)
  case (no_stack i s')
  then show ?thesis by (auto intro!: proc_inv_fresh [OF assms no_stack(3-7)])
next
  case (found i s' k)
  then show ?thesis by (auto intro!: proc_inv_fresh [OF assms found(2,3,5,6,9)])
qed (use assms in simp)

section \<open>Reaping\<close>

lemma proc_inv_reap:
  assumes "proc_inv s" and "i < NPROC" and "p_state (ptable s ! i) = ZOMBIE"
    and "kfree (p_kstack (ptable s ! i)) s = Inr s1"
    and "freevm (p_pgdir (ptable s ! i)) (upd_proc i (\<lambda>q. q\<lparr>p_kstack := 0\<rparr>) s1) = Inr s2"
    and "\<And>q. p_state (f q) = UNUSED"
  shows "proc_inv (upd_proc i f s2)"
    and "ptable (upd_proc i f s2) = (ptable s)[i := f ((ptable s ! i)\<lparr>p_kstack := 0\<rparr>)]"
proof -
  note M1 = mem_only_tables [OF kfree_mem [OF assms(4)]] and M2 = mem_only_tables [OF freevm_mem [OF assms(5)]]
  show pt: "ptable (upd_proc i f s2) = (ptable s)[i := f ((ptable s ! i)\<lparr>p_kstack := 0\<rparr>)]"
  proof -
    have i: "i < length (ptable s)" using proc_invD(1) [OF assms(1)] assms(2) by simp
    have "ptable s2 = (ptable s)[i := (ptable s ! i)\<lparr>p_kstack := 0\<rparr>]" by (simp add: M1 M2)
    then show ?thesis by (simp add: nth_list_update_eq [OF i])
  qed
  have "proc_inv (upd_proc i (\<lambda>_. f ((ptable s ! i)\<lparr>p_kstack := 0\<rparr>)) s)"
    by (rule proc_inv_upd [OF assms(1,2) refl]) (simp_all add: proc_ok_def assms(6))
  then show "proc_inv (upd_proc i f s2)"
    by (rule proc_inv_cong) (unfold pt, simp_all add: upd_proc_def M1 M2)
qed

lemma waitx_store_mem: "waitx_store me va v s = Inr s' \<Longrightarrow> mem_only s s'"
  by (auto simp: waitx_store_def split: if_splits dest: ustore32_mem)

lemma wait_proc_cases:
  assumes inv: "proc_inv s" and wait: "wait_proc me s = Inr (r, s')"
  obtains (reaped) i where "i < NPROC" "child_zombie me (ptable s ! i)" "r = Returns (p_pid (ptable s ! i))"
      "proc_inv s'"
      "ptable s' = (ptable s)[i := (ptable s ! i)\<lparr>p_kstack := 0, p_pid := 0, p_parent := None,
         p_name := (p_name (ptable s ! i))[0 := 0], p_killed := False, p_state := UNUSED\<rparr>]"
  | (nothing) "r = Returns (-1)" "s' = s" "\<not> havekids me s \<or> p_killed (ptable s ! me)"
      "\<forall>p \<in> set (ptable s). \<not> child_zombie me p"
  | (waits) "r = Blocks" "s' = sleep_on me (CProc me) s" "havekids me s" "\<not> p_killed (ptable s ! me)"
      "\<forall>p \<in> set (ptable s). \<not> child_zombie me p"
proof (cases "find_index (child_zombie me) (ptable s)")
  case None
  then have none: "\<forall>p \<in> set (ptable s). \<not> child_zombie me p" by (simp add: find_index_None_iff)
  show thesis
  proof (cases "\<not> havekids me s \<or> p_killed (ptable s ! me)")
    case True
    with None wait have "r = Returns (-1)" "s' = s" by (simp_all add: wait_proc_def)
    then show thesis using True none by (rule nothing)
  next
    case False
    with None wait have "r = Blocks" "s' = sleep_on me (CProc me) s" by (simp_all add: wait_proc_def)
    then show thesis using False none by (intro waits) simp_all
  qed
next
  case (Some i)
  note F = find_index_SomeD(1,2) [OF Some]
  have i: "i < NPROC" "p_state (ptable s ! i) = ZOMBIE"
    using F proc_invD(1) [OF inv] by (simp_all add: child_zombie_def)
  obtain s1 s2 where s12: "kfree (p_kstack (ptable s ! i)) s = Inr s1"
    "freevm (p_pgdir (ptable s ! i)) (upd_proc i (\<lambda>q. q\<lparr>p_kstack := 0\<rparr>) s1) = Inr s2"
    "r = Returns (p_pid (ptable s ! i))"
    "s' = upd_proc i (\<lambda>q. q\<lparr>p_pid := 0, p_parent := None, p_name := (p_name q)[0 := 0],
                            p_killed := False, p_state := UNUSED\<rparr>) s2"
    using wait Some by (auto simp: wait_proc_def bind_res_eq_Inr_iff Let_def)
  note R = proc_inv_reap [OF inv i s12(1,2)]
  show thesis
    by (rule reaped [OF i(1) F(2) s12(3)]) (unfold s12(4), rule R(1), simp, subst R(2), simp_all)
qed

lemma waitx_cases:
  assumes inv: "proc_inv s" and wait: "waitx me pw pr s = Inr (r, s')"
  obtains (reaped) i where "i < NPROC" "child_zombie me (ptable s ! i)" "r = Returns (p_pid (ptable s ! i))"
      "proc_inv s'"
      "ptable s' = (ptable s)[i := (ptable s ! i)\<lparr>p_kstack := 0, p_state := UNUSED, p_pid := 0, p_parent := None,
         p_name := (p_name (ptable s ! i))[0 := 0], p_killed := False,
         p_rtime := 0, p_wtime := 0, p_stime := 0\<rparr>]"
  | (nothing) "r = Returns (-1)" "s' = s" "\<not> havekids me s \<or> p_killed (ptable s ! me)"
      "\<forall>p \<in> set (ptable s). \<not> child_zombie me p"
  | (waits) "r = Blocks" "s' = sleep_on me (CProc me) s" "havekids me s" "\<not> p_killed (ptable s ! me)"
      "\<forall>p \<in> set (ptable s). \<not> child_zombie me p"
proof (cases "find_index (child_zombie me) (ptable s)")
  case None
  then have none: "\<forall>p \<in> set (ptable s). \<not> child_zombie me p" by (simp add: find_index_None_iff)
  show thesis
  proof (cases "\<not> havekids me s \<or> p_killed (ptable s ! me)")
    case True
    with None wait have "r = Returns (-1)" "s' = s" by (simp_all add: waitx_def)
    then show thesis using True none by (rule nothing)
  next
    case False
    with None wait have "r = Blocks" "s' = sleep_on me (CProc me) s" by (simp_all add: waitx_def)
    then show thesis using False none by (intro waits) simp_all
  qed
next
  case (Some i)
  note F = find_index_SomeD(1,2) [OF Some]
  have i: "i < NPROC" "p_state (ptable s ! i) = ZOMBIE"
    using F proc_invD(1) [OF inv] by (simp_all add: child_zombie_def)
  obtain t1 t2 s1 s2 where st: "waitx_store me pw (p_wtime (ptable s ! i)) s = Inr t1"
      "waitx_store me pr (p_rtime (ptable s ! i)) t1 = Inr t2"
    and s12: "kfree (p_kstack (ptable s ! i)) t2 = Inr s1"
    "freevm (p_pgdir (ptable s ! i)) (upd_proc i (\<lambda>q. q\<lparr>p_kstack := 0\<rparr>) s1) = Inr s2"
    "r = Returns (p_pid (ptable s ! i))"
    "s' = upd_proc i (\<lambda>q. q\<lparr>p_state := UNUSED, p_pid := 0, p_parent := None, p_name := (p_name q)[0 := 0],
             p_killed := False, p_rtime := 0, p_wtime := 0, p_stime := 0\<rparr>) s2"
    using wait Some by (auto simp: waitx_def bind_res_eq_Inr_iff Let_def)
  have m: "mem_only s t2" using st waitx_store_mem mem_only_trans by blast
  note R = proc_inv_reap [OF proc_inv_mem [OF inv m], unfolded mem_only_tables [OF m], OF i s12(1,2)]
  show thesis
    by (rule reaped [OF i(1) F(2) s12(3)]) (unfold s12(4), rule R(1), simp, subst R(2), simp_all)
qed

section \<open>Reachable process tables\<close>

text \<open>
  The steps of the process table.  Beside the operations above: a running process gives up the processor in
  \<open>yield\<close>, \<open>sleep\<close> or \<open>exit\<close>; \<open>userinit\<close> and \<open>fork\<close> publish the process they built in an EMBRYO slot, in the group
  of a live process or in group 0, or give the slot back.
\<close>

inductive proc_step :: "'a kernel_scheme \<Rightarrow> 'a kernel_scheme \<Rightarrow> bool" where
  ps_alloc: "proc_step s (snd (allocproc s))"
| ps_publish: "i < NPROC \<Longrightarrow> p_state (ptable s ! i) = EMBRYO \<Longrightarrow> p_kstack (ptable s ! i) \<noteq> 0 \<Longrightarrow> pd \<noteq> 0 \<Longrightarrow>
    group_live (gtable s) gid \<Longrightarrow>
    proc_step s (upd_proc i (\<lambda>p. p\<lparr>p_pgdir := pd, p_gid := gid, p_parent := par, p_state := RUNNABLE\<rparr>) s)"
| ps_abort: "i < NPROC \<Longrightarrow> p_state (ptable s ! i) = EMBRYO \<Longrightarrow>
    proc_step s (upd_proc i (\<lambda>p. p\<lparr>p_kstack := 0, p_state := UNUSED\<rparr>) s)"
| ps_pick: "scheduler_pick c s = Inr (p, s') \<Longrightarrow> proc_step s s'"
| ps_leave: "i < NPROC \<Longrightarrow> p_state (ptable s ! i) = RUNNING \<Longrightarrow> st = RUNNABLE \<or> st = ZOMBIE \<Longrightarrow>
    proc_step s (upd_proc i (\<lambda>p. p\<lparr>p_state := st\<rparr>) s)"
| ps_sleep: "i < NPROC \<Longrightarrow> p_state (ptable s ! i) = RUNNING \<Longrightarrow> proc_step s (sleep_on i ch s)"
| ps_return: "proc_step s (scheduler_return c s)"
| ps_wakeup: "proc_step s (wakeup1 ch s)"
| ps_kill: "proc_step s (snd (kill pid s))"
| ps_tick: "proc_step s (tick_accounting s)"
| ps_setgroup: "proc_step s (snd (setgroup_k pid gid s))"
| ps_wait: "i < NPROC \<Longrightarrow> p_state (ptable s ! i) = RUNNING \<Longrightarrow> wait_proc i s = Inr (r, s') \<Longrightarrow> proc_step s s'"
| ps_waitx: "i < NPROC \<Longrightarrow> p_state (ptable s ! i) = RUNNING \<Longrightarrow> waitx i pw pr s = Inr (r, s') \<Longrightarrow>
    proc_step s s'"

inductive proc_reach :: "'a kernel_scheme \<Rightarrow> bool" where
  pr_boot: "ptable s = replicate NPROC zero_proc \<Longrightarrow> nextpid s = 1 \<Longrightarrow> proc_reach (pinit s)"
| pr_step: "proc_reach s \<Longrightarrow> proc_step s s' \<Longrightarrow> proc_reach s'"

lemma proc_inv_boot:
  assumes "ptable s = replicate NPROC zero_proc" "nextpid s = 1"
  shows "proc_inv (pinit s)"
proof -
  have gt: "gtable (pinit s) = fss_fresh_group 0 True # replicate 15 (fss_fresh_group 0 False)"
    by (simp add: pinit_def fss_init_groups_def map_replicate_const numeral_eq_Suc)
  have "groups_ok (gtable (pinit s))"
    unfolding gt groups_ok_def by (auto simp: fss_fresh_group_def nth_Cons' split: if_splits)
  moreover have "group_live (gtable (pinit s)) 0"
    unfolding gt group_live_def by (rule exI [of _ 0]) (simp add: fss_fresh_group_def)
  moreover have "ptable (pinit s) = replicate NPROC zero_proc" "nextpid (pinit s) = 1"
    using assms by (simp_all add: pinit_def fss_init_groups_def Let_def upd_group_def)
  ultimately show ?thesis
    by (simp add: proc_inv_def pids_unique_def) (simp add: proc_ok_def zero_proc_def)
qed

lemma proc_inv_publish:
  assumes "proc_inv s" and "i < NPROC" and "p_state (ptable s ! i) = EMBRYO" and "p_kstack (ptable s ! i) \<noteq> 0"
    and "pd \<noteq> 0" and "group_live (gtable s) gid"
  shows "proc_inv (upd_proc i (\<lambda>p. p\<lparr>p_pgdir := pd, p_gid := gid, p_parent := par, p_state := RUNNABLE\<rparr>) s)"
proof (rule proc_inv_upd [OF assms(1,2) refl])
  show "proc_ok (gtable s) (nextpid s)
      ((ptable s ! i)\<lparr>p_pgdir := pd, p_gid := gid, p_parent := par, p_state := RUNNABLE\<rparr>)"
    using proc_invD(5) [OF assms(1,2)] assms(3-) by (simp add: proc_ok_def)
qed (use assms(3) in simp)

lemma proc_inv_abort:
  assumes "proc_inv s" and "i < NPROC"
  shows "proc_inv (upd_proc i (\<lambda>p. p\<lparr>p_kstack := k, p_state := UNUSED\<rparr>) s)"
  by (rule proc_inv_upd [OF assms refl]) (simp_all add: proc_ok_def)

lemma proc_inv_wait:
  assumes "proc_inv s" and "i < NPROC" and "p_state (ptable s ! i) = RUNNING" and "wait_proc i s = Inr (r, s')"
  shows "proc_inv s'"
proof -
  note S = proc_inv_sleep_on [OF assms(1,2)]
  from assms(1,4) show ?thesis by (cases rule: wait_proc_cases) (simp_all add: assms(1,3) S)
qed

lemma proc_inv_waitx:
  assumes "proc_inv s" and "i < NPROC" and "p_state (ptable s ! i) = RUNNING" and "waitx i pw pr s = Inr (r, s')"
  shows "proc_inv s'"
proof -
  note S = proc_inv_sleep_on [OF assms(1,2)]
  from assms(1,4) show ?thesis by (cases rule: waitx_cases) (simp_all add: assms(1,3) S)
qed

lemmas proc_inv_ops = proc_inv_allocproc proc_inv_publish proc_inv_abort proc_inv_pick proc_inv_state
  proc_inv_sleep_on proc_inv_return proc_inv_wakeup1 proc_inv_kill proc_inv_tick proc_inv_setgroup
  proc_inv_wait proc_inv_waitx

lemma proc_inv_step:
  assumes "proc_step s s'" and "proc_inv s"
  shows "proc_inv s'"
  using assms
proof (induction rule: proc_step.induct)
  case (ps_leave i s st)
  then show ?case by (intro proc_inv_state) simp_all
next
  case (ps_sleep i s ch)
  then show ?case by (intro proc_inv_sleep_on) simp_all
qed (blast intro: proc_inv_ops)+

lemma proc_reach_inv: "proc_reach s \<Longrightarrow> proc_inv s"
  by (induction rule: proc_reach.induct) (auto intro: proc_inv_boot proc_inv_step)

lemma proc_inv_runnable_ok: "proc_inv s \<Longrightarrow> runnable_ok (ptable s)"
  unfolding runnable_ok_def proc_inv_def proc_ok_def by simp

lemma proc_inv_group_found:
  assumes inv: "proc_inv s" and i: "i < NPROC" "p_state (ptable s ! i) = RUNNABLE"
  obtains g where "fss_pick_group s = Some g"
proof -
  have "group_live (gtable s) (p_gid (ptable s ! i))"
    using proc_invD(5) [OF inv i(1)] i(2) by (simp add: proc_ok_def)
  then obtain g where g: "g < NGROUPS" "g_active (gtable s ! g)" "g_gid (gtable s ! g) = p_gid (ptable s ! i)"
    by (auto simp: group_live_def)
  have "ptable s ! i \<in> set (ptable s)" using i(1) proc_invD(1) [OF inv] by simp
  with g i(2) have "fss_ready (gtable s) (ptable s) g"
    by (auto simp: fss_ready_def fss_group_has_runnable_iff fss_runs_in_def)
  with g(1) have "fss_pick_group s \<noteq> None" using fss_pick_group_None [of s] by blast
  with that show thesis by blast
qed

section \<open>Time accounting\<close>

definition charged :: "proc \<Rightarrow> int" where
  "charged p = p_rtime p + p_wtime p + p_stime p"

definition on_clock :: "proc \<Rightarrow> bool" where
  "on_clock p \<longleftrightarrow> p_state p \<in> {RUNNING, RUNNABLE, SLEEPING}"

lemma charged_simps [simp]:
  "charged (p\<lparr>p_state := a\<rparr>) = charged p" "charged (p\<lparr>p_killed := b\<rparr>) = charged p"
  "charged (p\<lparr>p_chan := c\<rparr>) = charged p" "charged (p\<lparr>p_gid := d\<rparr>) = charged p"
  "charged (p\<lparr>p_parent := e\<rparr>) = charged p" "charged (p\<lparr>p_pgdir := u\<rparr>) = charged p"
  "charged (p\<lparr>p_kstack := k\<rparr>) = charged p"
  by (simp_all add: charged_def)

text \<open>
  A run during which the process in slot \<open>i\<close> is neither reaped nor given up; \<open>n\<close> counts the ticks at which it
  was running, runnable or sleeping.
\<close>

inductive clocked :: "nat \<Rightarrow> 'a kernel_scheme \<Rightarrow> nat \<Rightarrow> 'a kernel_scheme \<Rightarrow> bool" for i s0 where
  ck_start: "clocked i s0 0 s0"
| ck_tick: "clocked i s0 n s \<Longrightarrow>
    clocked i s0 (if on_clock (ptable s ! i) then Suc n else n) (tick_accounting s)"
| ck_step: "clocked i s0 n s \<Longrightarrow> proc_step s s' \<Longrightarrow> s' \<noteq> tick_accounting s \<Longrightarrow>
    p_state (ptable s ! i) \<noteq> UNUSED \<Longrightarrow> p_state (ptable s' ! i) \<noteq> UNUSED \<Longrightarrow> clocked i s0 n s'"

lemma charged_tick:
  assumes "i < length (ptable s)"
  shows "charged (ptable (tick_accounting s) ! i) =
           charged (ptable s ! i) + (if on_clock (ptable s ! i) then 1 else 0)"
  using assms
  by (auto simp: tick_accounting_def tick_proc_def charged_def on_clock_def split: procstate.splits)

lemma charged_update:
  assumes "charged q = charged (ptable s ! j)"
  shows "charged ((ptable s)[j := q] ! i) = charged (ptable s ! i)"
  by (cases "i = j"; cases "i < length (ptable s)") (simp_all add: assms list_update_beyond)

lemma charged_step:
  assumes step: "proc_step s s'" and inv: "proc_inv s" and i: "i < NPROC"
    and live: "p_state (ptable s ! i) \<noteq> UNUSED" "p_state (ptable s' ! i) \<noteq> UNUSED"
  shows "s' = tick_accounting s \<or> charged (ptable s' ! i) = charged (ptable s ! i)"
  using step inv live
proof (induction rule: proc_step.induct)
  case (ps_alloc s)
  from ps_alloc(1) show ?case
  proof (cases rule: allocproc_cases)
    case (no_stack j s')
    then show ?thesis using ps_alloc(2) by (cases "i = j") simp_all
  next
    case (found j s' k)
    then show ?thesis using ps_alloc(2) by (cases "i = j") simp_all
  qed simp
next
  case (ps_pick c s p s')
  show ?case
  proof (cases p)
    case None
    with ps_pick(1) have "s' = s" using scheduler_pick_None by blast
    then show ?thesis by simp
  next
    case (Some q)
    from ps_pick(1) [unfolded Some] show ?thesis
      by (rule scheduler_pick_Some) (simp add: charged_update)
  qed
next
  case (ps_return s c)
  show ?case by (cases "sched_g s c") (simp_all add: scheduler_return_tables scheduler_return_def)
next
  case (ps_wakeup s ch)
  have "i < length (ptable s)" using i proc_invD(1) [OF ps_wakeup(1)] by simp
  then show ?case by (simp add: wakeup1_def)
next
  case (ps_kill s pid)
  have "charged (if p_state p = SLEEPING then p\<lparr>p_state := RUNNABLE, p_killed := True\<rparr>
      else p\<lparr>p_killed := True\<rparr>) = charged p" for p by simp
  then show ?case by (simp add: kill_def charged_update split: option.splits)
next
  case (ps_setgroup s pid gid)
  have "ptable s1 = ptable s" if "fss_group_ensure gid s = (g, s1)" for g s1
    using fss_group_ensure_tables(1) [of gid s] that by simp
  then show ?case
    by (auto simp: setgroup_k_def charged_update split: option.splits prod.splits)
next
  case (ps_wait j s r s')
  from ps_wait(4,3) show ?case
  proof (cases rule: wait_proc_cases)
    case (reaped k)
    then show ?thesis using ps_wait(6) i proc_invD(1) [OF ps_wait(4)] by (cases "i = k") simp_all
  qed (simp_all add: sleep_on_def charged_update)
next
  case (ps_waitx j s pw pr r s')
  from ps_waitx(4,3) show ?case
  proof (cases rule: waitx_cases)
    case (reaped k)
    then show ?thesis using ps_waitx(6) i proc_invD(1) [OF ps_waitx(4)] by (cases "i = k") simp_all
  qed (simp_all add: sleep_on_def charged_update)
qed (simp_all add: charged_update sleep_on_def)

section \<open>Properties\<close>


definition boot_kernel :: kernel where
  "boot_kernel = pinit ((mk_kernel (replicate NPROC zero_proc) [])\<lparr>freelist := 0x80300000\<rparr>)"

lemma boot_kernel_reach: "proc_reach boot_kernel"
  unfolding boot_kernel_def by (rule pr_boot) (simp_all add: mk_kernel_def)

lemma boot_kernel_simps [simp]:
  "ptable boot_kernel = replicate NPROC zero_proc" "nextpid boot_kernel = 1" "freelist boot_kernel = 0x80300000"
  by (simp_all add: boot_kernel_def pinit_def fss_init_groups_def upd_group_def mk_kernel_def)



definition init_running :: kernel where
  "init_running = upd_proc 0 (\<lambda>p. p\<lparr>p_pgdir := 0x80301000, p_gid := 0, p_parent := None, p_state := RUNNABLE\<rparr>)
                    (snd (allocproc boot_kernel))"

lemma boot_allocproc:
  obtains s' where "allocproc boot_kernel = (Some 0, s')" "p_state (ptable s' ! 0) = EMBRYO"
    "p_kstack (ptable s' ! 0) = 0x80300000" "group_live (gtable s') 0" "length (ptable s') = NPROC"
proof -
  have inv: "proc_inv boot_kernel" using boot_kernel_reach by (rule proc_reach_inv)
  then show thesis
  proof (cases rule: allocproc_cases)
    case no_slot
    then show thesis by (simp add: zero_proc_def)
  next
    case (found i s' k)
    have "i = 0" using found(4) by (cases i) (auto simp: zero_proc_def)
    moreover have "group_live (gtable s') 0"
      using found(5) group_live_ensure proc_invD(2,3) [OF inv] by simp
    ultimately show thesis using that [of s'] found by simp
  qed simp
qed

lemma init_running_reach: "proc_reach init_running" "p_state (ptable init_running ! 0) = RUNNABLE"
proof -
  obtain s' where s': "allocproc boot_kernel = (Some 0, s')" "p_state (ptable s' ! 0) = EMBRYO"
    "p_kstack (ptable s' ! 0) = 0x80300000" "group_live (gtable s') 0" "length (ptable s') = NPROC"
    by (rule boot_allocproc)
  have "proc_reach s'" using pr_step [OF boot_kernel_reach ps_alloc] s'(1) by simp
  then have "proc_reach (upd_proc 0 (\<lambda>p. p\<lparr>p_pgdir := 0x80301000, p_gid := 0, p_parent := None, p_state := RUNNABLE\<rparr>) s')"
    by (rule pr_step) (rule ps_publish, use s' in simp_all)
  then show "proc_reach init_running" by (simp add: init_running_def s'(1))
  show "p_state (ptable init_running ! 0) = RUNNABLE" using s'(1,5) by (simp add: init_running_def)
qed


definition live_pid :: "int \<Rightarrow> 'a kernel_scheme \<Rightarrow> bool" where
  "live_pid pid s \<longleftrightarrow> (\<exists>p \<in> set (ptable s). p_pid p = pid \<and> p_state p \<noteq> UNUSED)"

definition group_room :: "int \<Rightarrow> 'a kernel_scheme \<Rightarrow> bool" where
  "group_room gid s \<longleftrightarrow>
     (\<exists>i < length (gtable s). g_active (gtable s ! i) \<longrightarrow> g_gid (gtable s ! i) = gid)"

lemma group_room_iff: "fst (fss_group_ensure gid s) \<noteq> None \<longleftrightarrow> group_room gid s"
  by (cases rule: fss_group_ensure_cases [of gid s]) (auto simp: group_room_def)

lemma find_live_iff:
  "find_index (\<lambda>p. p_pid p = pid \<and> p_state p \<noteq> UNUSED) (ptable s) = None \<longleftrightarrow> \<not> live_pid pid s"
  by (auto simp: find_index_None_iff live_pid_def)

text \<open>
  Property C26. \<open>setgroup_k\<close> succeeds exactly when the group id is not negative, the group exists or a group slot is
  free, and the pid is that of a process; then \<open>getgroup_k\<close> reports the new group for that pid
  and the old one for every other pid.  When it fails it returns -1 and no process changes group.
\<close>

theorem setgroup_getgroup:
  "if 0 \<le> gid \<and> group_room gid s \<and> live_pid pid s
   then fst (setgroup_k pid gid s) = 0 \<and>
        (\<forall>q. getgroup_k q (snd (setgroup_k pid gid s)) = (if q = pid then gid else getgroup_k q s))
   else fst (setgroup_k pid gid s) = -1 \<and> ptable (snd (setgroup_k pid gid s)) = ptable s"
proof (cases "0 \<le> gid \<and> group_room gid s")
  case True
  let ?s1 = "snd (fss_group_ensure gid s)"
  obtain g where g: "fss_group_ensure gid s = (Some g, ?s1)"
    using True group_room_iff [of gid s] by (metis not_None_eq prod.collapse)
  show ?thesis
  proof (cases "find_index (\<lambda>p. p_pid p = pid \<and> p_state p \<noteq> UNUSED) (ptable s)")
    case None
    then have "setgroup_k pid gid s = (-1, ?s1)"
      unfolding setgroup_k_def using True by (subst g) simp
    then show ?thesis using None find_live_iff [of pid s] by simp
  next
    case (Some i)
    note F = find_index_SomeD [OF Some]
    let ?s' = "upd_proc i (\<lambda>p. p\<lparr>p_gid := gid\<rparr>) ?s1"
    have set: "setgroup_k pid gid s = (0, ?s')"
      unfolding setgroup_k_def using True Some by (subst g) simp
    have find: "find_index (\<lambda>p. p_pid p = q \<and> p_state p \<noteq> UNUSED) (ptable ?s') =
        find_index (\<lambda>p. p_pid p = q \<and> p_state p \<noteq> UNUSED) (ptable s)" for q
      using F(1) by (intro find_index_cong_list) (simp_all add: nth_update_if)
    have "getgroup_k pid ?s' = gid"
      using F(1) by (simp only: getgroup_k_def find Some option.case) simp
    moreover have "getgroup_k q ?s' = getgroup_k q s" if "q \<noteq> pid" for q
    proof (cases "find_index (\<lambda>p. p_pid p = q \<and> p_state p \<noteq> UNUSED) (ptable s)")
      case None
      then show ?thesis by (simp only: getgroup_k_def find option.case)
    next
      case (Some j)
      have "j \<noteq> i" using find_index_SomeD(2) [OF Some] F(2) that by blast
      then show ?thesis by (simp only: getgroup_k_def find Some option.case) simp
    qed
    moreover have "live_pid pid s" using Some find_live_iff [of pid s] by simp
    ultimately show ?thesis using True set by simp
  qed
next
  case False
  have "setgroup_k pid gid s = (-1, s) \<or> setgroup_k pid gid s = (-1, snd (fss_group_ensure gid s))"
    using False group_room_iff [of gid s] by (cases "fss_group_ensure gid s") (auto simp: setgroup_k_def)
  then show ?thesis using False by auto
qed

text \<open>
  Property C27. A \<open>setgroup\<close> that fails because the pid does not exist still creates the group: a free slot is used
  up for a group that no process is in, and no operation ever frees a group slot.
\<close>

theorem setgroup_failure_leaks_slot:
  assumes "groups_ok (gtable s)" and "0 \<le> gid" and "\<not> live_pid pid s" and "\<not> group_live (gtable s) gid"
    and "i < NGROUPS" and "\<not> g_active (gtable s ! i)"
  shows "\<exists>s' j. setgroup_k pid gid s = (-1, s') \<and> j < NGROUPS \<and> \<not> g_active (gtable s ! j) \<and>
           gtable s' = (gtable s)[j := fss_fresh_group gid True]"
proof (cases rule: fss_group_ensure_cases [of gid s])
  case (found j)
  then show ?thesis using assms(4) groups_okD(1) [OF assms(1)] by (auto simp: group_live_def)
next
  case (created j)
  have "find_index (\<lambda>p. p_pid p = pid \<and> p_state p \<noteq> UNUSED) (ptable s) = None"
    using assms(3) find_live_iff [of pid s] by simp
  then have "setgroup_k pid gid s = (-1, upd_group j (\<lambda>_. fss_fresh_group gid True) s)"
    using assms(2) created(1) by (simp add: setgroup_k_def)
  then show ?thesis using created groups_okD(1) [OF assms(1)] by auto
next
  case full
  then show ?thesis using assms(5,6) groups_okD(1) [OF assms(1)] by auto
qed

theorem setgroup_failure_leaks_slot_witness:
  "\<exists>s' j. setgroup_k 7 5 boot_kernel = (-1, s') \<and> gtable s' = (gtable boot_kernel)[j := fss_fresh_group 5 True]"
proof -
  have gt: "gtable boot_kernel = fss_fresh_group 0 True # replicate 15 (fss_fresh_group 0 False)"
    by (simp add: boot_kernel_def pinit_def fss_init_groups_def map_replicate_const numeral_eq_Suc)
  have "\<not> group_live (gtable boot_kernel) 5"
    unfolding gt by (auto simp: group_live_def fss_fresh_group_def nth_Cons' split: if_splits)
  moreover have "\<not> live_pid 7 boot_kernel" by (simp add: live_pid_def zero_proc_def)
  moreover have "\<not> g_active (gtable boot_kernel ! 1)" unfolding gt by (simp add: fss_fresh_group_def)
  moreover have "groups_ok (gtable boot_kernel)" using boot_kernel_reach proc_reach_inv proc_invD(2) by blast
  ultimately show ?thesis
    using setgroup_failure_leaks_slot [of boot_kernel 5 7 1] by auto
qed

text \<open>
  Property C28. \<open>kill\<close> does not look at the state of the slot it finds: a pid that only an UNUSED slot still holds
  (0 for a reaped or never used slot, the pid of a fork that failed) is accepted, and \<open>allocproc\<close> does not
  clear the mark, so the next process of that slot is born killed.
\<close>

theorem kill_poisons_unused_slot:
  assumes "proc_inv s" and "find_index (\<lambda>p. p_pid p = pid) (ptable s) = Some i"
    and "find_index (\<lambda>p. p_state p = UNUSED) (ptable s) = Some i" and "freelist s \<noteq> 0"
  shows "\<exists>s1 s2. kill pid s = (0, s1) \<and> allocproc s1 = (Some i, s2) \<and>
           p_killed (ptable s2 ! i) \<and> p_state (ptable s2 ! i) = EMBRYO \<and> p_pid (ptable s2 ! i) = nextpid s"
proof -
  note F = find_index_SomeD [OF assms(3)]
  define s1 where "s1 = snd (kill pid s)"
  have k: "kill pid s = (0, s1)" by (simp add: s1_def kill_def assms(2))
  have pt: "ptable s1 = (ptable s)[i := (ptable s ! i)\<lparr>p_killed := True\<rparr>]" and fl: "freelist s1 = freelist s"
    and np: "nextpid s1 = nextpid s"
    using F(2) by (simp_all add: s1_def kill_def assms(2)) (simp_all add: upd_proc_def)
  have "find_index (\<lambda>p. p_state p = UNUSED) (ptable s1) = find_index (\<lambda>p. p_state p = UNUSED) (ptable s)"
    using F(1) by (intro find_index_cong_list) (simp_all add: pt nth_update_if)
  then have find: "find_index (\<lambda>p. p_state p = UNUSED) (ptable s1) = Some i" using assms(3) by simp
  have first: "j = i" if "p_state (ptable s1 ! j) = UNUSED" "j < length (ptable s1)"
    "\<forall>k < j. p_state (ptable s1 ! k) \<noteq> UNUSED" for j
  proof -
    have "find_index (\<lambda>p. p_state p = UNUSED) (ptable s1) = Some j"
      unfolding find_index_Some_iff using that by simp
    with find show ?thesis by simp
  qed
  have "proc_inv s1" using proc_inv_kill [OF assms(1)] by (simp add: s1_def)
  then show ?thesis
  proof (cases rule: allocproc_cases)
    case no_slot
    then have "find_index (\<lambda>p. p_state p = UNUSED) (ptable s1) = None" by (simp add: find_index_None_iff)
    with find show ?thesis by simp
  next
    case (no_stack j s')
    then show ?thesis using assms(4) fl by simp
  next
    case (found j s' k)
    have len: "length (ptable s1) = NPROC" using F(1) proc_invD(1) [OF assms(1)] by (simp add: pt)
    have "j = i" using first [of j] found(2-4) len by simp
    then show ?thesis using k found len F(1) by (simp add: pt np)
  qed
qed

theorem kill_poisons_unused_slot_witness:
  "\<exists>s1 s2. kill 0 boot_kernel = (0, s1) \<and> allocproc s1 = (Some 0, s2) \<and> p_killed (ptable s2 ! 0)"
proof -
  have "find_index (\<lambda>p. p_pid p = 0) (ptable boot_kernel) = Some 0"
    "find_index (\<lambda>p. p_state p = UNUSED) (ptable boot_kernel) = Some 0"
    by (simp_all add: find_index_Some_iff zero_proc_def)
  with kill_poisons_unused_slot [OF proc_reach_inv [OF boot_kernel_reach]] show ?thesis by simp blast
qed



end
