(* ===== verification/Sleeplock.thy ===== *)
theory Sleeplock
  imports Proc
begin

text \<open>
  kernel/sleeplock.c: locks that are held across sleeps.  The inner spin lock makes each operation atomic; the
  channel is the address of the lock.  \<open>acquiresleep\<close> is one round of its loop.
\<close>

record sleeplock =
  sl_locked :: bool
  sl_lk :: spinlock
  sl_name :: string
  sl_pid :: int

definition initsleeplock :: "string \<Rightarrow> sleeplock \<Rightarrow> sleeplock" where
  "initsleeplock nm l =
     l\<lparr>sl_lk := initlock ''sleep lock'' (sl_lk l), sl_name := nm, sl_locked := False, sl_pid := 0\<rparr>"

definition acquiresleep ::
  "nat \<Rightarrow> chan \<Rightarrow> sleeplock \<Rightarrow> 'a kernel_scheme \<Rightarrow> unit outcome \<times> sleeplock \<times> 'a kernel_scheme" where
  "acquiresleep me ch l s =
     (if sl_locked l then (Blocks, l, sleep_on me ch s)
      else (Returns (), l\<lparr>sl_locked := True, sl_pid := p_pid (ptable s ! me)\<rparr>, s))"

definition releasesleep :: "chan \<Rightarrow> sleeplock \<Rightarrow> 'a kernel_scheme \<Rightarrow> sleeplock \<times> 'a kernel_scheme" where
  "releasesleep ch l s = (l\<lparr>sl_locked := False, sl_pid := 0\<rparr>, wakeup ch s)"

definition holdingsleep :: "nat \<Rightarrow> sleeplock \<Rightarrow> 'a kernel_scheme \<Rightarrow> bool" where
  "holdingsleep me l s \<longleftrightarrow> sl_locked l \<and> sl_pid l = p_pid (ptable s ! me)"

definition zero_sleeplock :: sleeplock where
  "zero_sleeplock = \<lparr>sl_locked = False, sl_lk = zero_lock, sl_name = [], sl_pid = 0\<rparr>"

lemma acquiresleep_holds:
  "acquiresleep me ch l s = (Returns (), l', s') \<Longrightarrow> s' = s \<and> holdingsleep me l' s' \<and> \<not> sl_locked l"
  by (auto simp: acquiresleep_def holdingsleep_def split: if_splits)

text \<open>
  Whoever waits for a sleep lock is asleep on its channel while the lock is held, and giving the lock up makes
  it runnable: the wake-up of a release is not lost.
\<close>

lemma releasesleep_wakes:
  assumes "acquiresleep me ch l s = (Blocks, l', s')" and "me < length (ptable s)"
    and "releasesleep ch l'' s' = (l3, s3)"
  shows "p_state (ptable s3 ! me) = RUNNABLE"
  using assms by (auto simp: acquiresleep_def releasesleep_def wakeup_def wakeup1_def sleep_on_def split: if_splits)

end
