(* ===== verification/Ring.thy ===== *)
theory Ring
  imports Prelude
begin

text \<open>
  Ring buffers with free-running 32-bit counters, as pipe.c and console.c use them: the counters are only ever
  incremented and wrap, and the index of a byte is the counter modulo the size of the buffer, a power of two.  The
  locale states what such a buffer promises; the lemmas on \<open>ring_content\<close> are what its interpretations need.
\<close>

section \<open>Bounded queues\<close>

locale bounded_fifo =
  fixes put :: "'b \<Rightarrow> 'q \<Rightarrow> 'q"
    and get :: "'q \<Rightarrow> 'b \<times> 'q"
    and full :: "'q \<Rightarrow> bool"
    and vacant :: "'q \<Rightarrow> bool"
    and content :: "'q \<Rightarrow> 'b list"
    and ok :: "'q \<Rightarrow> bool"
    and cap :: nat
  assumes full_iff: "ok q \<Longrightarrow> full q \<longleftrightarrow> length (content q) = cap"
    and empty_iff: "ok q \<Longrightarrow> vacant q \<longleftrightarrow> content q = []"
    and put_content: "ok q \<Longrightarrow> \<not> full q \<Longrightarrow> ok (put b q) \<and> content (put b q) = content q @ [b]"
    and get_content: "ok q \<Longrightarrow> \<not> vacant q \<Longrightarrow>
          ok (snd (get q)) \<and> content q = fst (get q) # content (snd (get q))"
    and bounded: "ok q \<Longrightarrow> length (content q) \<le> cap"

datatype 'b fifo_event = Put 'b | Get

text \<open>
  A sequence of operations by any number of writers and readers: a put of a full queue and a get from an empty one
  do not happen (the code waits), so such a step leaves the queue alone.  The result is the bytes put, the
  bytes got and the queue.
\<close>

primrec fifo_run ::
  "('b \<Rightarrow> 'q \<Rightarrow> 'q) \<Rightarrow> ('q \<Rightarrow> 'b \<times> 'q) \<Rightarrow> ('q \<Rightarrow> bool) \<Rightarrow> ('q \<Rightarrow> bool) \<Rightarrow> 'b fifo_event list \<Rightarrow>
     'q \<Rightarrow> 'b list \<times> 'b list \<times> 'q" where
  "fifo_run put get full vacant [] q = ([], [], q)"
| "fifo_run put get full vacant (e # es) q =
     (case e of
        Put b \<Rightarrow>
          if full q then fifo_run put get full vacant es q
          else (case fifo_run put get full vacant es (put b q) of (ps, gs, q') \<Rightarrow> (b # ps, gs, q'))
      | Get \<Rightarrow>
          if vacant q then fifo_run put get full vacant es q
          else (case get q of (b, q1) \<Rightarrow>
                  (case fifo_run put get full vacant es q1 of (ps, gs, q') \<Rightarrow> (ps, b # gs, q'))))"

context bounded_fifo
begin

lemma run_order:
  "ok q \<Longrightarrow> fifo_run put get full vacant es q = (ps, gs, q') \<Longrightarrow>
     ok q' \<and> content q @ ps = gs @ content q'"
proof (induction es arbitrary: q ps gs)
  case (Cons e es)
  show ?case
  proof (cases e)
    case (Put b)
    then show ?thesis
      using Cons put_content [OF Cons.prems(1), of b]
      by (cases "full q") (fastforce split: prod.splits)+
  next
    case Get
    then show ?thesis
      using Cons get_content [OF Cons.prems(1)]
      by (cases "vacant q") (fastforce split: prod.splits)+
  qed
qed simp

end

section \<open>Rings\<close>

definition ring_content :: "u8 list \<Rightarrow> u32 \<Rightarrow> u32 \<Rightarrow> u8 list" where
  "ring_content d r w = map (\<lambda>k. d ! (unat (r + of_nat k) mod length d)) [0..<unat (w - r)]"

lemma unat_add_of_nat_mod:
  assumes "N dvd 2 ^ 32"
  shows "unat (r + of_nat k :: u32) mod N = (unat r + k) mod N"
proof -
  have "unat (r + of_nat k) = (unat r + k) mod 2 ^ 32"
    by (simp add: unat_word_ariths unat_of_nat take_bit_eq_mod mod_simps)
  then show ?thesis using assms by (simp add: mod_mod_cancel)
qed

lemma unat_Suc_diff:
  fixes r w :: u32
  assumes "unat (w - r) < N" and "N < 2 ^ 32"
  shows "unat (w + 1 - r) = Suc (unat (w - r))"
proof -
  have e: "w + 1 - r = (w - r) + 1" by simp
  have "unat ((w - r) + 1) = unat (w - r) + 1" using assms by (simp add: unat_plus_if')
  then show ?thesis unfolding e by simp
qed

lemma ring_put:
  assumes N: "length d = N" "N dvd 2 ^ 32" "N < 2 ^ 32" and room: "unat (w - r) < N"
  shows "ring_content (d[unat w mod N := b]) r (w + 1) = ring_content d r w @ [b]"
proof -
  let ?n = "unat (w - r)" and ?i = "unat w mod N"
  have w: "w = r + of_nat ?n" by simp
  then have i: "?i = (unat r + ?n) mod N" using unat_add_of_nat_mod [OF N(2)] by metis
  have "0 < N" using room by simp
  have last_byte: "d[?i := b] ! ((unat r + ?n) mod N) = b"
    using N(1) \<open>0 < N\<close> by (simp add: i)
  have others: "d[?i := b] ! ((unat r + k) mod N) = d ! ((unat r + k) mod N)" if "k < ?n" for k
  proof -
    have "(unat r + k) mod N \<noteq> (unat r + ?n) mod N"
    proof
      assume "(unat r + k) mod N = (unat r + ?n) mod N"
      then have "N dvd (unat r + ?n) - (unat r + k)"
        using mod_eq_dvd_iff_nat [of "unat r + k" "unat r + ?n" N] that by (metis add_le_mono less_imp_le order_refl)
      then have "N \<le> ?n - k" using that by (intro dvd_imp_le) simp_all
      then show False using room by simp
    qed
    then show ?thesis using i by simp
  qed
  show ?thesis
    unfolding ring_content_def unat_Suc_diff [OF room N(3)]
    using N(1,2) last_byte others by (simp add: unat_add_of_nat_mod)
qed

lemma ring_count:
  fixes r w :: u32
  assumes "w \<noteq> r"
  shows "unat (w - r) = Suc (unat (w - (r + 1)))"
proof -
  have e: "w - (r + 1) = (w - r) - 1" by simp
  have nz: "w - r \<noteq> 0" using assms by simp
  then have "0 < unat (w - r)" by (metis unat_eq_zero gr0I)
  then show ?thesis unfolding e using unat_minus_one [OF nz] by simp
qed

lemma ring_get:
  assumes N: "length d = N" "N dvd 2 ^ 32" and some: "w \<noteq> r"
  shows "ring_content d r w = d ! (unat r mod N) # ring_content d (r + 1) w"
proof -
  have "unat (w - r) = Suc (unat (w - (r + 1)))" using some by (rule ring_count)
  then have "[0..<unat (w - r)] = 0 # map Suc [0..<unat (w - (r + 1))]" by (simp add: upt_conv_Cons map_Suc_upt del: upt_Suc)
  then show ?thesis using N(1) by (simp add: ring_content_def ac_simps)
qed

lemma length_ring_content [simp]: "length (ring_content d r w) = unat (w - r)"
  by (simp add: ring_content_def)

end
