(* ===== verification/Pipe.thy ===== *)
theory Pipe
  imports Proc Ring
begin

text \<open>
  kernel/pipe.c.  A pipe lives in a page of the allocator; \<open>pipes\<close> holds the structures by the address of their
  page.  The byte counters are 32-bit and wrap; the data area is a ring of 512 bytes.  \<open>pipealloc\<close> needs the
  file table and stands with it.  Reads and writes are rounds of the blocking loops: they return, or leave the
  caller asleep with the number of bytes it has moved so far.
\<close>

abbreviation PIPESIZE :: nat where "PIPESIZE \<equiv> 512"

record pipe =
  pi_lock :: spinlock
  pi_data :: "u8 list"
  pi_nread :: u32
  pi_nwrite :: u32
  pi_readopen :: bool
  pi_writeopen :: bool

record pkernel = kernel +
  pipes :: "u32 \<Rightarrow> pipe"

datatype io_outcome = IO_returns int | IO_blocks nat

definition upd_pipe :: "u32 \<Rightarrow> (pipe \<Rightarrow> pipe) \<Rightarrow> 'a pkernel_scheme \<Rightarrow> 'a pkernel_scheme" where
  "upd_pipe p f s = s\<lparr>pipes := (pipes s)(p := f (pipes s p))\<rparr>"

definition pipe_full :: "pipe \<Rightarrow> bool" where
  "pipe_full p \<longleftrightarrow> pi_nwrite p = pi_nread p + of_nat PIPESIZE"

definition pipe_empty :: "pipe \<Rightarrow> bool" where
  "pipe_empty p \<longleftrightarrow> pi_nread p = pi_nwrite p"

definition pipe_put :: "u8 \<Rightarrow> pipe \<Rightarrow> pipe" where
  "pipe_put b p =
     p\<lparr>pi_data := (pi_data p)[unat (pi_nwrite p mod of_nat PIPESIZE) := b], pi_nwrite := pi_nwrite p + 1\<rparr>"

definition pipe_get :: "pipe \<Rightarrow> u8 \<times> pipe" where
  "pipe_get p =
     (pi_data p ! unat (pi_nread p mod of_nat PIPESIZE), p\<lparr>pi_nread := pi_nread p + 1\<rparr>)"

definition pipeclose :: "u32 \<Rightarrow> bool \<Rightarrow> 'a pkernel_scheme \<Rightarrow> 'a pkernel_scheme res" where
  "pipeclose p writable s =
     (let s1 = (if writable
                then wakeup (CPipeRead p) (upd_pipe p (\<lambda>x. x\<lparr>pi_writeopen := False\<rparr>) s)
                else wakeup (CPipeWrite p) (upd_pipe p (\<lambda>x. x\<lparr>pi_readopen := False\<rparr>) s))
      in if \<not> pi_readopen (pipes s1 p) \<and> \<not> pi_writeopen (pipes s1 p) then kfree p s1 else Inr s1)"

text \<open>The loop of \<open>pipewrite\<close>, with \<open>k\<close> bytes to go from index \<open>i\<close>; \<open>n\<close> is the result of a complete write.\<close>

primrec pipewrite_from ::
  "nat \<Rightarrow> nat \<Rightarrow> u32 \<Rightarrow> u32 \<Rightarrow> int \<Rightarrow> nat \<Rightarrow> 'a pkernel_scheme \<Rightarrow> (io_outcome \<times> 'a pkernel_scheme) res" where
  "pipewrite_from 0 me p addr n i s = Inr (IO_returns n, wakeup (CPipeRead p) s)"
| "pipewrite_from (Suc k) me p addr n i s =
     (if pipe_full (pipes s p)
      then if \<not> pi_readopen (pipes s p) \<or> p_killed (ptable s ! me) then Inr (IO_returns (-1), s)
           else Inr (IO_blocks i, sleep_on me (CPipeWrite p) (wakeup (CPipeRead p) s))
      else bind_res (uload8 (p_pgdir (ptable s ! me)) (addr + of_nat i) s) (\<lambda>b.
             pipewrite_from k me p addr n (Suc i) (upd_pipe p (pipe_put b) s)))"

text \<open>\<open>pipewrite\<close> from the start (\<open>i = 0\<close>), or resumed at the byte at which it slept.\<close>

definition pipewrite ::
  "nat \<Rightarrow> u32 \<Rightarrow> u32 \<Rightarrow> int \<Rightarrow> nat \<Rightarrow> 'a pkernel_scheme \<Rightarrow> (io_outcome \<times> 'a pkernel_scheme) res" where
  "pipewrite me p addr n i s = pipewrite_from (nat n - i) me p addr n i s"

primrec piperead_from ::
  "nat \<Rightarrow> nat \<Rightarrow> u32 \<Rightarrow> u32 \<Rightarrow> nat \<Rightarrow> 'a pkernel_scheme \<Rightarrow> (int \<times> 'a pkernel_scheme) res" where
  "piperead_from 0 me p addr i s = Inr (int i, s)"
| "piperead_from (Suc k) me p addr i s =
     (if pipe_empty (pipes s p) then Inr (int i, s)
      else case pipe_get (pipes s p) of (b, p') \<Rightarrow>
             bind_res (ustore8 (p_pgdir (ptable s ! me)) (addr + of_nat i) b (upd_pipe p (\<lambda>_. p') s))
               (piperead_from k me p addr (Suc i)))"

definition piperead ::
  "nat \<Rightarrow> u32 \<Rightarrow> u32 \<Rightarrow> int \<Rightarrow> 'a pkernel_scheme \<Rightarrow> (io_outcome \<times> 'a pkernel_scheme) res" where
  "piperead me p addr n s =
     (if pipe_empty (pipes s p) \<and> pi_writeopen (pipes s p)
      then if p_killed (ptable s ! me) then Inr (IO_returns (-1), s)
           else Inr (IO_blocks 0, sleep_on me (CPipeRead p) s)
      else bind_res (piperead_from (nat n) me p addr 0 s) (\<lambda>(i, s1).
             Inr (IO_returns i, wakeup (CPipeWrite p) s1)))"

section \<open>A pipe is a bounded queue\<close>

definition pipe_content :: "pipe \<Rightarrow> u8 list" where
  "pipe_content p = ring_content (pi_data p) (pi_nread p) (pi_nwrite p)"

definition pipe_ok :: "pipe \<Rightarrow> bool" where
  "pipe_ok p \<longleftrightarrow> length (pi_data p) = PIPESIZE \<and> unat (pi_nwrite p - pi_nread p) \<le> PIPESIZE"

lemma unat_mod_PIPESIZE: "unat (a mod of_nat PIPESIZE :: u32) = unat a mod PIPESIZE"
  by (simp add: unat_mod)

lemma pipe_full_iff: "pipe_full p \<longleftrightarrow> unat (pi_nwrite p - pi_nread p) = PIPESIZE"
proof -
  have "pipe_full p \<longleftrightarrow> pi_nwrite p - pi_nread p = 512" by (auto simp: pipe_full_def algebra_simps)
  also have "\<dots> \<longleftrightarrow> unat (pi_nwrite p - pi_nread p) = PIPESIZE"
    unfolding word_unat_eq_iff by simp
  finally show ?thesis .
qed

interpretation pipe_fifo: bounded_fifo pipe_put pipe_get pipe_full pipe_empty pipe_content pipe_ok PIPESIZE
proof
  fix q :: pipe and b
  show "pipe_ok q \<Longrightarrow> pipe_full q \<longleftrightarrow> length (pipe_content q) = PIPESIZE"
    by (simp add: pipe_full_iff pipe_content_def)
  show "pipe_ok q \<Longrightarrow> pipe_empty q \<longleftrightarrow> pipe_content q = []"
    by (auto simp: pipe_empty_def pipe_content_def ring_content_def unat_eq_zero)
  show "pipe_ok q \<Longrightarrow> length (pipe_content q) \<le> PIPESIZE"
    by (simp add: pipe_ok_def pipe_content_def)
  show "pipe_ok (pipe_put b q) \<and> pipe_content (pipe_put b q) = pipe_content q @ [b]"
    if ok: "pipe_ok q" and room: "\<not> pipe_full q"
  proof -
    have "unat (pi_nwrite q - pi_nread q) < PIPESIZE" using ok room by (simp add: pipe_ok_def pipe_full_iff)
    with ok show ?thesis
      using ring_put [of "pi_data q" PIPESIZE "pi_nwrite q" "pi_nread q" b]
        unat_Suc_diff [of "pi_nwrite q" "pi_nread q" PIPESIZE]
      by (simp add: pipe_put_def pipe_content_def pipe_ok_def unat_mod_PIPESIZE [simplified])
  qed
  show "pipe_ok (snd (pipe_get q)) \<and> pipe_content q = fst (pipe_get q) # pipe_content (snd (pipe_get q))"
    if ok: "pipe_ok q" and some: "\<not> pipe_empty q"
  proof -
    have c: "pipe_content q = pi_data q ! (unat (pi_nread q) mod PIPESIZE) #
        ring_content (pi_data q) (pi_nread q + 1) (pi_nwrite q)"
      using ok some ring_get [of "pi_data q" PIPESIZE "pi_nwrite q" "pi_nread q"]
      by (simp add: pipe_ok_def pipe_empty_def pipe_content_def)
    have "unat (pi_nwrite q - pi_nread q) = Suc (unat (pi_nwrite q - (pi_nread q + 1)))"
      using some by (intro ring_count) (auto simp: pipe_empty_def)
    with ok c show ?thesis
      by (simp add: pipe_get_def pipe_content_def pipe_ok_def unat_mod_PIPESIZE [simplified])
  qed
qed

section \<open>Whole reads and writes\<close>

lemma pipes_simps [simp]:
  "pipes (upd_pipe p f s) = (pipes s)(p := f (pipes s p))" "ptable (upd_pipe p f s) = ptable s"
  "ram (upd_pipe p f s) = ram s"
  by (simp_all add: upd_pipe_def)

lemma wakeup_pipes [simp]: "pipes (wakeup ch s) = pipes s" "ram (wakeup ch s) = ram s"
  by (simp_all add: wakeup_def wakeup1_def)

lemma sleep_on_pipes [simp]: "pipes (sleep_on me ch s) = pipes s" "ram (sleep_on me ch s) = ram s"
  by (simp_all add: sleep_on_def upd_proc_def)

lemma uload8_upd_pipe [simp]: "uload8 pgdir va (upd_pipe p f s) = uload8 pgdir va s"
  by (simp add: uload8_def split: option.splits)

text \<open>Stores of several bytes through the page table of the reader.\<close>

primrec ustore_bytes :: "u32 \<Rightarrow> u32 \<Rightarrow> u8 list \<Rightarrow> 'a vm_state_scheme \<Rightarrow> 'a vm_state_scheme res" where
  "ustore_bytes pgdir va [] s = Inr s"
| "ustore_bytes pgdir va (b # bs) s = bind_res (ustore8 pgdir va b s) (ustore_bytes pgdir (va + 1) bs)"

definition nobody_sleeps_on :: "chan \<Rightarrow> 'a kernel_scheme \<Rightarrow> bool" where
  "nobody_sleeps_on ch s \<longleftrightarrow> (\<forall>q \<in> set (ptable s). \<not> (p_state q = SLEEPING \<and> p_chan q = Some ch))"

lemma nobody_sleeps_wakeup: "nobody_sleeps_on ch (wakeup ch s)"
  by (auto simp: nobody_sleeps_on_def wakeup_def wakeup1_def split: if_splits)

lemma nobody_sleeps_sleep_on:
  assumes "nobody_sleeps_on ch s" and "ch' \<noteq> ch"
  shows "nobody_sleeps_on ch (sleep_on me ch' s)"
proof -
  have "set (ptable (sleep_on me ch' s)) \<subseteq>
      insert ((ptable s ! me)\<lparr>p_chan := Some ch', p_state := SLEEPING\<rparr>) (set (ptable s))"
    unfolding sleep_on_def ptable_upd_proc by (rule set_update_subset_insert)
  then show ?thesis using assms by (auto simp: nobody_sleeps_on_def)
qed

lemma pipewrite_from_appends:
  assumes "pipewrite_from k me p addr n i s = Inr (r, s')" and "pipe_ok (pipes s p)"
  shows "\<exists>bs. pipe_ok (pipes s' p) \<and> pipe_content (pipes s' p) = pipe_content (pipes s p) @ bs \<and>
     (\<forall>j < length bs. uload8 (p_pgdir (ptable s ! me)) (addr + of_nat (i + j)) s = Inr (bs ! j)) \<and>
     (case r of
        IO_returns m \<Rightarrow>
          m = n \<and> length bs = k \<and> nobody_sleeps_on (CPipeRead p) s' \<or>
          m = -1 \<and> length bs < k \<and> (\<not> pi_readopen (pipes s p) \<or> p_killed (ptable s ! me))
      | IO_blocks j \<Rightarrow> j = i + length bs \<and> length bs < k \<and> length (pipe_content (pipes s' p)) = PIPESIZE \<and>
          nobody_sleeps_on (CPipeRead p) s')"
  using assms
proof (induction k arbitrary: i s)
  case 0
  then have "r = IO_returns n" "s' = wakeup (CPipeRead p) s" by simp_all
  with 0(2) show ?case by (intro exI [of _ "[]"]) (simp add: nobody_sleeps_wakeup)
next
  case (Suc k)
  show ?case
  proof (cases "pipe_full (pipes s p)")
    case True
    then have full: "length (pipe_content (pipes s p)) = PIPESIZE"
      using pipe_fifo.full_iff [OF Suc.prems(2)] by simp
    show ?thesis
      using Suc.prems True full
      by (intro exI [of _ "[]"])
        (auto simp: nobody_sleeps_sleep_on nobody_sleeps_wakeup split: if_splits)
  next
    case False
    obtain b where b: "uload8 (p_pgdir (ptable s ! me)) (addr + of_nat i) s = Inr b"
      and rest: "pipewrite_from k me p addr n (Suc i) (upd_pipe p (pipe_put b) s) = Inr (r, s')"
      using Suc.prems(1) False by (auto simp: bind_res_eq_Inr_iff)
    note P = pipe_fifo.put_content [OF Suc.prems(2) False, of b]
    let ?s1 = "upd_pipe p (pipe_put b) s"
    have "pipe_ok (pipes ?s1 p)" using P by simp
    from Suc.IH [OF rest this] obtain bs where bs: "pipe_ok (pipes s' p)"
      "pipe_content (pipes s' p) = (pipe_content (pipes s p) @ [b]) @ bs"
      "\<forall>j < length bs. uload8 (p_pgdir (ptable s ! me)) (addr + of_nat (Suc i + j)) s = Inr (bs ! j)"
      "case r of IO_returns m \<Rightarrow> m = n \<and> length bs = k \<and> nobody_sleeps_on (CPipeRead p) s' \<or>
          m = -1 \<and> length bs < k \<and> (\<not> pi_readopen (pipes s p) \<or> p_killed (ptable s ! me))
       | IO_blocks j \<Rightarrow> j = Suc i + length bs \<and> length bs < k \<and> length (pipe_content (pipes s' p)) = PIPESIZE \<and>
          nobody_sleeps_on (CPipeRead p) s'"
      using P by (cases r) (auto simp: pipe_put_def)
    have "\<forall>j < length (b # bs). uload8 (p_pgdir (ptable s ! me)) (addr + of_nat (i + j)) s = Inr ((b # bs) ! j)"
    proof (intro allI impI)
      fix j assume "j < length (b # bs)"
      then show "uload8 (p_pgdir (ptable s ! me)) (addr + of_nat (i + j)) s = Inr ((b # bs) ! j)"
        using b bs(3) by (cases j) auto
    qed
    with bs show ?thesis by (intro exI [of _ "b # bs"]) (auto split: io_outcome.splits)
  qed
qed

lemma ustore8_frame:
  assumes "ustore8 pgdir va b s = Inr s'"
  shows "s' = s\<lparr>ram := ram s'\<rparr>"
  using assms by (auto simp: ustore8_def split: option.splits)

lemma ustore8_pipes:
  assumes "ustore8 pgdir va b s = Inr s'"
  shows "pipes s' = pipes s" "ptable s' = ptable s"
  using assms by (auto simp: ustore8_def split: option.splits)

lemma ustore8_upd_pipe:
  "ustore8 pgdir va b (upd_pipe p f s) = Inr s' \<Longrightarrow> \<exists>s1. ustore8 pgdir va b s = Inr s1 \<and> ram s' = ram s1"
  by (auto simp: ustore8_def split: option.splits)

lemma ustore_bytes_ram:
  assumes "ustore_bytes pgdir va bs s1 = Inr s1'" and "ram s1 = ram s2"
  shows "\<exists>s2'. ustore_bytes pgdir va bs s2 = Inr s2' \<and> ram s2' = ram s1'"
  using assms
proof (induction bs arbitrary: va s1 s2)
  case (Cons b bs)
  obtain t1 where t1: "ustore8 pgdir va b s1 = Inr t1" "ustore_bytes pgdir (va + 1) bs t1 = Inr s1'"
    using Cons.prems(1) by (auto simp: bind_res_eq_Inr_iff)
  obtain t2 where t2: "ustore8 pgdir va b s2 = Inr t2" "ram t1 = ram t2"
    using t1(1) Cons.prems(2) by (auto simp: ustore8_def split: option.splits)
  from Cons.IH [OF t1(2) t2(2)] t2(1) show ?case by simp
qed simp

lemma piperead_from_takes:
  assumes "piperead_from k me p addr i s = Inr (m, s')" and "pipe_ok (pipes s p)"
  shows "\<exists>bs s1. pipe_ok (pipes s' p) \<and> length bs = min k (length (pipe_content (pipes s p))) \<and>
     m = int (i + length bs) \<and> pipe_content (pipes s p) = bs @ pipe_content (pipes s' p) \<and> ptable s' = ptable s \<and>
     ustore_bytes (p_pgdir (ptable s ! me)) (addr + of_nat i) bs s = Inr s1 \<and> ram s' = ram s1"
  using assms
proof (induction k arbitrary: i s)
  case 0
  then have "m = int i" "s' = s" by simp_all
  with 0 show ?case by (intro exI [of _ "[]"] exI [of _ s]) simp
next
  case (Suc k)
  show ?case
  proof (cases "pipe_empty (pipes s p)")
    case True
    then have "pipe_content (pipes s p) = []" using pipe_fifo.empty_iff [OF Suc.prems(2)] by simp
    moreover have "m = int i" "s' = s" using True Suc.prems(1) by simp_all
    ultimately show ?thesis using Suc.prems(2) by (intro exI [of _ "[]"] exI [of _ s]) simp
  next
    case False
    obtain b q where g: "pipe_get (pipes s p) = (b, q)" by fastforce
    obtain t where t: "ustore8 (p_pgdir (ptable s ! me)) (addr + of_nat i) b (upd_pipe p (\<lambda>_. q) s) = Inr t"
      "piperead_from k me p addr (Suc i) t = Inr (m, s')"
      using Suc.prems(1) False g by (auto simp: bind_res_eq_Inr_iff)
    note G = pipe_fifo.get_content [OF Suc.prems(2) False] and T = ustore8_pipes [OF t(1)]
    have q: "pipes t p = q" "pipe_ok q" "pipe_content (pipes s p) = b # pipe_content q"
      using G g T(1) by simp_all
    obtain s0 where s0: "ustore8 (p_pgdir (ptable s ! me)) (addr + of_nat i) b s = Inr s0" "ram t = ram s0"
      using ustore8_upd_pipe [OF t(1)] by blast
    have okt: "pipe_ok (pipes t p)" using q(1,2) by simp
    obtain bs s1 where bs: "pipe_ok (pipes s' p)"
      "length bs = min k (length (pipe_content (pipes t p)))" "m = int (Suc i + length bs)"
      "pipe_content (pipes t p) = bs @ pipe_content (pipes s' p)" "ptable s' = ptable t"
      "ustore_bytes (p_pgdir (ptable t ! me)) (addr + of_nat (Suc i)) bs t = Inr s1" "ram s' = ram s1"
      using Suc.IH [OF t(2) okt] by blast
    have tp: "ptable t = ptable s" using T(2) by simp
    have ad: "addr + of_nat (Suc i) = addr + of_nat i + 1" by simp
    obtain s2 where s2: "ustore_bytes (p_pgdir (ptable s ! me)) (addr + of_nat i + 1) bs s0 = Inr s2" "ram s2 = ram s1"
      using ustore_bytes_ram [OF bs(6) s0(2)] unfolding tp ad by blast
    have "ustore_bytes (p_pgdir (ptable s ! me)) (addr + of_nat i) (b # bs) s = Inr s2"
      using s0(1) s2(1) by simp
    moreover have "length (b # bs) = min (Suc k) (length (pipe_content (pipes s p)))"
      "pipe_content (pipes s p) = (b # bs) @ pipe_content (pipes s' p)" "m = int (i + length (b # bs))"
      using bs(2-4) q by simp_all
    ultimately show ?thesis using bs(1,5,7) s2(2) tp by metis
  qed
qed

section \<open>Properties\<close>

text \<open>
  Property C15. A pipe is a first-in first-out queue of at most 512 bytes, also when its 32-bit counters wrap:
  after any sequence of bytes put by writers and bytes taken by readers, the bytes put are, in
  order, the bytes taken followed by the bytes in the pipe.
\<close>

theorem pipe_is_fifo:
  assumes "pipe_ok q" and "fifo_run pipe_put pipe_get pipe_full pipe_empty es q = (ps, gs, q')"
  shows "pipe_content q @ ps = gs @ pipe_content q' \<and> length (pipe_content q') \<le> PIPESIZE"
  using pipe_fifo.run_order [OF assms] pipe_fifo.bounded by blast

definition wrapping_pipe :: pipe where
  "wrapping_pipe = \<lparr>pi_lock = zero_lock, pi_data = replicate PIPESIZE 0, pi_nread = 0xFFFFFFFF,
     pi_nwrite = 0xFFFFFFFF, pi_readopen = True, pi_writeopen = True\<rparr>"

theorem pipe_is_fifo_witness:
  "\<exists>q'. fifo_run pipe_put pipe_get pipe_full pipe_empty [Put 65, Put 66, Get] wrapping_pipe =
          ([65, 66], [65], q') \<and> pipe_content q' = [66]"
proof -
  have ok: "pipe_ok wrapping_pipe" by (simp add: pipe_ok_def wrapping_pipe_def)
  have empty: "pipe_content wrapping_pipe = []"
    by (simp add: pipe_content_def wrapping_pipe_def ring_content_def)
  obtain ps gs q' where run: "fifo_run pipe_put pipe_get pipe_full pipe_empty [Put 65, Put 66, Get] wrapping_pipe =
      (ps, gs, q')" by (metis prod_cases3)
  then have "ps = [65, 66]" "gs = [65]"
    by (auto simp: wrapping_pipe_def pipe_put_def pipe_get_def pipe_full_def pipe_empty_def unat_mod)
  with pipe_is_fifo [OF ok run] empty run show ?thesis by simp
qed


definition pipe_kernel :: "pipe \<Rightarrow> pkernel" where
  "pipe_kernel q = kernel.extend (mk_kernel (replicate NPROC zero_proc) []) \<lparr>pipes = (\<lambda>_. q)\<rparr>"


end
