(* ===== verification/Bio.thy ===== *)
theory Bio
  imports Sleeplock Pipe
begin

text \<open>
  The disk of kernel/memide.c and the buffer cache of kernel/bio.c.  The disk is a map from block numbers to
  blocks; \<open>dwrites\<close> is a history variable, the sequence of the block writes that have reached the disk, with
  which the theory of the log states what a crash can leave behind.  The cache keeps the doubly linked list of the
  source: \<open>bc_next\<close> and \<open>bc_prev\<close> are the link fields of the buffers and, at index \<open>NBUF\<close>, of
  \<open>bcache.head\<close>.  A buffer pointer is an index of \<open>bufs\<close>, and \<open>me\<close> is the calling process.
\<close>

abbreviation BSIZE :: nat where "BSIZE \<equiv> 512"
abbreviation MAXOPBLOCKS :: int where "MAXOPBLOCKS \<equiv> 10"
abbreviation NBUF :: nat where "NBUF \<equiv> 30"
abbreviation ROOTDEV :: u32 where "ROOTDEV \<equiv> 1"

section \<open>Definitions\<close>

record buf =
  b_valid :: bool
  b_dirty :: bool
  b_dev :: u32
  b_blockno :: u32
  b_lock :: sleeplock
  b_refcnt :: u32
  b_data :: "u8 list"

record bkernel = pkernel +
  disk :: "u32 \<Rightarrow> u8 list"
  disksize :: u32
  dwrites :: "(u32 \<times> u8 list) list"
  bcache_lock :: spinlock
  bufs :: "buf list"
  bc_next :: "nat \<Rightarrow> nat"
  bc_prev :: "nat \<Rightarrow> nat"

definition upd_buf :: "nat \<Rightarrow> (buf \<Rightarrow> buf) \<Rightarrow> 'a bkernel_scheme \<Rightarrow> 'a bkernel_scheme" where
  "upd_buf b f s = s\<lparr>bufs := (bufs s)[b := f (bufs s ! b)]\<rparr>"

subsection \<open>The disk (memide.c)\<close>

text \<open>\<open>ideinit\<close> for an image of \<open>sz\<close> bytes whose blocks are \<open>img\<close>.\<close>

definition ideinit :: "(u32 \<Rightarrow> u8 list) \<Rightarrow> u32 \<Rightarrow> 'a bkernel_scheme \<Rightarrow> 'a bkernel_scheme" where
  "ideinit img sz s = s\<lparr>disk := img, disksize := sz div of_nat BSIZE\<rparr>"

definition iderw :: "nat \<Rightarrow> nat \<Rightarrow> 'a bkernel_scheme \<Rightarrow> 'a bkernel_scheme res" where
  "iderw me b s =
     (let x = bufs s ! b
      in guard_res (\<not> holdingsleep me (b_lock x) s) ''iderw: buf not locked''
          (guard_res (b_valid x \<and> \<not> b_dirty x) ''iderw: nothing to do''
          (guard_res (b_dev x \<noteq> 1) ''iderw: request not for disk 1''
          (guard_res (b_blockno x \<ge> disksize s) ''iderw: block out of range''
          (Inr (if b_dirty x
                then upd_buf b (\<lambda>y. y\<lparr>b_dirty := False, b_valid := True\<rparr>)
                       (s\<lparr>disk := (disk s)(b_blockno x := b_data x),
                          dwrites := dwrites s @ [(b_blockno x, b_data x)]\<rparr>)
                else upd_buf b (\<lambda>y. y\<lparr>b_data := disk s (b_blockno x), b_valid := True\<rparr>) s))))))"

subsection \<open>The list of buffers\<close>

text \<open>The four assignments that put a buffer behind the head of the list, and the two that take one out.\<close>

definition bc_push :: "nat \<Rightarrow> 'a bkernel_scheme \<Rightarrow> 'a bkernel_scheme" where
  "bc_push b s =
     (let s1 = s\<lparr>bc_next := (bc_next s)(b := bc_next s NBUF)\<rparr>;
          s2 = s1\<lparr>bc_prev := (bc_prev s1)(b := NBUF)\<rparr>;
          s3 = s2\<lparr>bc_prev := (bc_prev s2)(bc_next s2 NBUF := b)\<rparr>
      in s3\<lparr>bc_next := (bc_next s3)(NBUF := b)\<rparr>)"

definition bc_unlink :: "nat \<Rightarrow> 'a bkernel_scheme \<Rightarrow> 'a bkernel_scheme" where
  "bc_unlink b s =
     (let s1 = s\<lparr>bc_prev := (bc_prev s)(bc_next s b := bc_prev s b)\<rparr>
      in s1\<lparr>bc_next := (bc_next s1)(bc_prev s1 b := bc_next s1 b)\<rparr>)"

text \<open>The scans of \<open>bget\<close>: from \<open>b\<close> along the links \<open>nx\<close> until the head of the list.\<close>

primrec bc_walk :: "nat \<Rightarrow> (nat \<Rightarrow> nat) \<Rightarrow> (nat \<Rightarrow> bool) \<Rightarrow> nat \<Rightarrow> nat option res" where
  "bc_walk 0 nx P b = Inl Diverges"
| "bc_walk (Suc k) nx P b =
     (if b = NBUF then Inr None else if P b then Inr (Some b) else bc_walk k nx P (nx b))"

subsection \<open>Operations (bio.c)\<close>

definition binit_step :: "nat \<Rightarrow> 'a bkernel_scheme \<Rightarrow> 'a bkernel_scheme" where
  "binit_step b x = bc_push b (upd_buf b (\<lambda>y. y\<lparr>b_lock := initsleeplock ''buffer'' (b_lock y)\<rparr>) x)"

definition binit :: "'a bkernel_scheme \<Rightarrow> 'a bkernel_scheme" where
  "binit s =
     fold binit_step [0..<NBUF]
       (s\<lparr>bcache_lock := initlock ''bcache'' (bcache_lock s),
          bc_next := (bc_next s)(NBUF := NBUF), bc_prev := (bc_prev s)(NBUF := NBUF)\<rparr>)"

definition buf_acquire :: "nat \<Rightarrow> nat \<Rightarrow> 'a bkernel_scheme \<Rightarrow> (nat \<times> 'a bkernel_scheme) res" where
  "buf_acquire me b s =
     (case acquiresleep me (CBufLock b) (b_lock (bufs s ! b)) s of
        (Blocks, _, _) \<Rightarrow> Inl (Waits (CBufLock b))
      | (Returns _, l, s1) \<Rightarrow> Inr (b, upd_buf b (\<lambda>x. x\<lparr>b_lock := l\<rparr>) s1))"

definition bget :: "nat \<Rightarrow> u32 \<Rightarrow> u32 \<Rightarrow> 'a bkernel_scheme \<Rightarrow> (nat \<times> 'a bkernel_scheme) res" where
  "bget me dev blockno s =
     bind_res (bc_walk (Suc NBUF) (bc_next s)
                 (\<lambda>b. b_dev (bufs s ! b) = dev \<and> b_blockno (bufs s ! b) = blockno) (bc_next s NBUF))
       (\<lambda>r. case r of
          Some b \<Rightarrow> buf_acquire me b (upd_buf b (\<lambda>x. x\<lparr>b_refcnt := b_refcnt x + 1\<rparr>) s)
        | None \<Rightarrow>
            bind_res (bc_walk (Suc NBUF) (bc_prev s)
                        (\<lambda>b. b_refcnt (bufs s ! b) = 0 \<and> \<not> b_dirty (bufs s ! b)) (bc_prev s NBUF))
              (\<lambda>r. case r of
                 Some b \<Rightarrow>
                   buf_acquire me b
                     (upd_buf b (\<lambda>x. x\<lparr>b_dev := dev, b_blockno := blockno, b_valid := False,
                                       b_dirty := False, b_refcnt := 1\<rparr>) s)
               | None \<Rightarrow> Inl (Panic ''bget: no buffers'')))"

definition bread :: "nat \<Rightarrow> u32 \<Rightarrow> u32 \<Rightarrow> 'a bkernel_scheme \<Rightarrow> (nat \<times> 'a bkernel_scheme) res" where
  "bread me dev blockno s =
     bind_res (bget me dev blockno s) (\<lambda>(b, s1).
       if \<not> b_valid (bufs s1 ! b) then bind_res (iderw me b s1) (\<lambda>s2. Inr (b, s2))
       else Inr (b, s1))"

definition bwrite :: "nat \<Rightarrow> nat \<Rightarrow> 'a bkernel_scheme \<Rightarrow> 'a bkernel_scheme res" where
  "bwrite me b s =
     guard_res (\<not> holdingsleep me (b_lock (bufs s ! b)) s) ''bwrite''
       (iderw me b (upd_buf b (\<lambda>x. x\<lparr>b_dirty := True\<rparr>) s))"

definition brelse :: "nat \<Rightarrow> nat \<Rightarrow> 'a bkernel_scheme \<Rightarrow> 'a bkernel_scheme res" where
  "brelse me b s =
     guard_res (\<not> holdingsleep me (b_lock (bufs s ! b)) s) ''brelse''
       (case releasesleep (CBufLock b) (b_lock (bufs s ! b)) s of (l, s1) \<Rightarrow>
          let s2 = upd_buf b (\<lambda>x. x\<lparr>b_lock := l, b_refcnt := b_refcnt x - 1\<rparr>) s1
          in Inr (if b_refcnt (bufs s2 ! b) = 0 then bc_push b (bc_unlink b s2) else s2))"

section \<open>The linked list is a list\<close>

text \<open>
  \<open>dlist nx pv h xs\<close>: following \<open>nx\<close> from the head \<open>h\<close> gives the nodes \<open>xs\<close> and then \<open>h\<close> again, and \<open>pv\<close> runs
  the same way backwards.
\<close>

primrec dpath :: "(nat \<Rightarrow> nat) \<Rightarrow> (nat \<Rightarrow> nat) \<Rightarrow> nat \<Rightarrow> nat list \<Rightarrow> nat \<Rightarrow> bool" where
  "dpath nx pv a [] z \<longleftrightarrow> nx a = z \<and> pv z = a"
| "dpath nx pv a (x # xs) z \<longleftrightarrow> nx a = x \<and> pv x = a \<and> dpath nx pv x xs z"

definition dlist :: "(nat \<Rightarrow> nat) \<Rightarrow> (nat \<Rightarrow> nat) \<Rightarrow> nat \<Rightarrow> nat list \<Rightarrow> bool" where
  "dlist nx pv h xs \<longleftrightarrow> distinct xs \<and> h \<notin> set xs \<and> dpath nx pv h xs h"

lemma dpath_append:
  "dpath nx pv a (xs @ y # ys) z \<longleftrightarrow> dpath nx pv a xs y \<and> dpath nx pv y ys z"
  by (induction xs arbitrary: a) auto

lemma dpath_next_upd: "c \<notin> set (a # xs) \<Longrightarrow> dpath (nx(c := v)) pv a xs z = dpath nx pv a xs z"
  by (induction xs arbitrary: a) auto

lemma dpath_prev_upd: "c \<notin> set (xs @ [z]) \<Longrightarrow> dpath nx (pv(c := v)) a xs z = dpath nx pv a xs z"
  by (induction xs arbitrary: a) auto

lemma dpath_first: "dpath nx pv a xs z \<Longrightarrow> nx a = hd (xs @ [z])"
  by (cases xs) auto

lemma dpath_last: "dpath nx pv a xs z \<Longrightarrow> pv z = last (a # xs)"
  by (induction xs arbitrary: a) auto

lemma dlist_push:
  assumes "dlist nx pv h xs" and "b \<notin> set xs" and "b \<noteq> h"
  shows "dlist (nx(b := nx h, h := b)) (pv(b := h, nx h := b)) h (b # xs)"
proof (cases xs)
  case Nil
  then show ?thesis using assms by (auto simp: dlist_def)
next
  case (Cons x ys)
  with assms have d: "nx h = x" "pv x = h" "dpath nx pv x ys h" "distinct (h # b # x # ys)"
    by (auto simp: dlist_def)
  then have "dpath (nx(b := x, h := b)) (pv(b := h, x := b)) x ys h"
    by (simp add: dpath_next_upd dpath_prev_upd)
  with d show ?thesis using Cons by (auto simp: dlist_def)
qed

lemma dpath_unlink:
  assumes "dpath nx pv a ys b" and "dpath nx pv b zs z" and "distinct (ys @ b # zs)"
    and "a \<notin> set (ys @ b # zs)" and "z \<notin> set (ys @ b # zs)"
  shows "dpath (nx(pv b := nx b)) (pv(nx b := pv b)) a (ys @ zs) z"
proof -
  have tail_ok: "dpath (nx(y := nx b)) (pv(nx b := y)) y zs z" if "y \<notin> set zs" for y
  proof (cases zs)
    case Nil
    with assms(2) show ?thesis by simp
  next
    case (Cons x xs)
    with assms(2,3,5) that show ?thesis by (auto simp: dpath_next_upd dpath_prev_upd)
  qed
  show ?thesis
  proof (cases ys rule: rev_cases)
    case Nil
    with assms(1) have "pv b = a" by simp
    with tail_ok [of a] Nil assms(4) show ?thesis by simp
  next
    case (snoc us y)
    then have p: "dpath nx pv a us y" "pv b = y" using assms(1) by (simp_all add: dpath_append)
    have nb: "nx b = hd (zs @ [z])" using assms(2) by (rule dpath_first)
    have "nx b \<notin> set (us @ [y])" using assms(3,4,5) snoc nb by (cases zs) auto
    moreover have "y \<notin> set (a # us)" using assms(3,4) snoc by auto
    ultimately have "dpath (nx(y := nx b)) (pv(nx b := y)) a us y"
      using p(1) by (simp add: dpath_next_upd dpath_prev_upd)
    moreover have "y \<notin> set zs" using assms(3) snoc by auto
    ultimately show ?thesis using tail_ok [of y] snoc p(2) by (simp add: dpath_append)
  qed
qed

lemma dlist_unlink:
  assumes "dlist nx pv h (ys @ b # zs)"
  shows "dlist (nx(pv b := nx b)) (pv(nx b := pv b)) h (ys @ zs)"
  using assms dpath_unlink [of nx pv h ys b zs h] by (auto simp: dlist_def dpath_append)

lemma bc_walk_next:
  assumes "dpath nx pv a xs NBUF" and "NBUF \<notin> set xs" and "length xs < k"
  shows "bc_walk k nx P (nx a) = Inr (find P xs)"
  using assms
proof (induction xs arbitrary: a k)
  case Nil
  then show ?case by (cases k) auto
next
  case (Cons x xs)
  then obtain k' where "k = Suc k'" by (cases k) auto
  with Cons show ?case by auto
qed

lemma bc_walk_prev:
  assumes "dpath nx pv NBUF xs z" and "NBUF \<notin> set xs" and "length xs < k"
  shows "bc_walk k pv P (pv z) = Inr (find P (rev xs))"
  using assms
proof (induction xs arbitrary: z k rule: rev_induct)
  case Nil
  then show ?case by (cases k) auto
next
  case (snoc x xs)
  then obtain k' where "k = Suc k'" by (cases k) auto
  moreover have "dpath nx pv NBUF xs x" "pv z = x" using snoc.prems(1) by (simp_all add: dpath_append)
  ultimately show ?case using snoc.IH [of x k'] snoc.prems by auto
qed


section \<open>The cache shows the disk with the pending writes\<close>

text \<open>
  The invariant of a run in which the callers of the cache do not wait for each other: a buffer has a reference
  exactly while it is locked.  No block of the disk has two buffers; a buffer that nobody holds and that is not
  dirty agrees with the disk, so evicting it loses nothing.
\<close>

definition buf_ok :: "(u32 \<Rightarrow> u8 list) \<Rightarrow> buf \<Rightarrow> bool" where
  "buf_ok dk b \<longleftrightarrow>
     length (b_data b) = BSIZE \<and> b_refcnt b = (if sl_locked (b_lock b) then 1 else 0) \<and>
     (b_dirty b \<longrightarrow> b_valid b) \<and> (b_valid b \<longrightarrow> b_dev b = 1) \<and>
     (b_valid b \<and> \<not> b_dirty b \<and> \<not> sl_locked (b_lock b) \<longrightarrow> b_data b = dk (b_blockno b))"

definition bufs_distinct :: "buf list \<Rightarrow> bool" where
  "bufs_distinct bs \<longleftrightarrow>
     (\<forall>i < length bs. \<forall>j < length bs.
        b_dev (bs ! i) = 1 \<and> b_dev (bs ! j) = 1 \<and> b_blockno (bs ! i) = b_blockno (bs ! j) \<longrightarrow> i = j)"

definition bc_inv :: "nat list \<Rightarrow> 'a bkernel_scheme \<Rightarrow> bool" where
  "bc_inv lru s \<longleftrightarrow>
     length (bufs s) = NBUF \<and> dlist (bc_next s) (bc_prev s) NBUF lru \<and> set lru = {..<NBUF} \<and>
     (\<forall>bno. length (disk s bno) = BSIZE) \<and> (\<forall>i < NBUF. buf_ok (disk s) (bufs s ! i)) \<and>
     bufs_distinct (bufs s)"

text \<open>The contents of a block as the callers of the cache see it.\<close>

definition holds_block :: "u32 \<Rightarrow> buf \<Rightarrow> bool" where
  "holds_block bno b \<longleftrightarrow> b_dev b = 1 \<and> b_blockno b = bno \<and> b_valid b"

definition bview :: "'a bkernel_scheme \<Rightarrow> u32 \<Rightarrow> u8 list" where
  "bview s bno = (case find (holds_block bno) (bufs s) of Some b \<Rightarrow> b_data b | None \<Rightarrow> disk s bno)"

text \<open>Buffer \<open>b\<close> is locked by process \<open>me\<close> and holds block \<open>bno\<close>.\<close>

definition held :: "nat \<Rightarrow> nat \<Rightarrow> u32 \<Rightarrow> 'a bkernel_scheme \<Rightarrow> bool" where
  "held me b bno s \<longleftrightarrow> b < NBUF \<and> holds_block bno (bufs s ! b) \<and> holdingsleep me (b_lock (bufs s ! b)) s"

lemma bview_cached:
  assumes "bc_inv lru s" and "b < NBUF" and "holds_block bno (bufs s ! b)"
  shows "bview s bno = b_data (bufs s ! b)"
proof -
  obtain i where i: "i < length (bufs s)" "holds_block bno (bufs s ! i)"
    "find (holds_block bno) (bufs s) = Some (bufs s ! i)"
    using assms(1,2,3) by (metis (no_types, lifting) bc_inv_def find_None_iff2 find_Some_iff not_None_eq nth_mem)
  then have "i = b" using assms by (auto simp: bc_inv_def bufs_distinct_def holds_block_def)
  with i show ?thesis by (simp add: bview_def)
qed

lemma bview_uncached: "\<forall>b < length (bufs s). \<not> holds_block bno (bufs s ! b) \<Longrightarrow> bview s bno = disk s bno"
  by (auto simp: bview_def in_set_conv_nth split: option.splits dest!: find_Some_iff [THEN iffD1])

lemma bview_length:
  assumes "bc_inv lru s"
  shows "length (bview s bno) = BSIZE"
proof (cases "\<exists>b < NBUF. holds_block bno (bufs s ! b)")
  case True
  with assms bview_cached [OF assms] show ?thesis by (auto simp: bc_inv_def buf_ok_def)
next
  case False
  then have "bview s bno = disk s bno" using assms by (intro bview_uncached) (auto simp: bc_inv_def)
  then show ?thesis using assms by (auto simp: bc_inv_def)
qed

text \<open>
  The two states show the same blocks when every buffer that differs holds the same data, or is not visible on
  either side.
\<close>

lemma bview_eqI:
  assumes "bc_inv lru s" "bc_inv lru' s'"
    and "\<And>b bno. b < NBUF \<Longrightarrow> holds_block bno (bufs s ! b) \<Longrightarrow>
            holds_block bno (bufs s' ! b) \<and> b_data (bufs s' ! b) = b_data (bufs s ! b) \<or>
            (\<forall>b' < NBUF. \<not> holds_block bno (bufs s' ! b')) \<and> disk s' bno = b_data (bufs s ! b)"
    and "\<And>b bno. b < NBUF \<Longrightarrow> holds_block bno (bufs s' ! b) \<Longrightarrow> (\<forall>b' < NBUF. \<not> holds_block bno (bufs s ! b')) \<Longrightarrow>
            b_data (bufs s' ! b) = disk s bno"
    and "\<And>bno. (\<forall>b < NBUF. \<not> holds_block bno (bufs s ! b)) \<Longrightarrow>
            (\<forall>b < NBUF. \<not> holds_block bno (bufs s' ! b)) \<Longrightarrow> disk s' bno = disk s bno"
  shows "bview s' = bview s"
proof
  fix bno
  have len: "length (bufs s) = NBUF" "length (bufs s') = NBUF" using assms(1,2) by (simp_all add: bc_inv_def)
  show "bview s' bno = bview s bno"
  proof (cases "\<exists>b < NBUF. holds_block bno (bufs s ! b)")
    case True
    then obtain b where b: "b < NBUF" "holds_block bno (bufs s ! b)" by blast
    note v = bview_cached [OF assms(1) b]
    from assms(3) [OF b] show ?thesis
    proof
      assume "holds_block bno (bufs s' ! b) \<and> b_data (bufs s' ! b) = b_data (bufs s ! b)"
      with v bview_cached [OF assms(2) b(1)] show ?thesis by simp
    next
      assume a: "(\<forall>b' < NBUF. \<not> holds_block bno (bufs s' ! b')) \<and> disk s' bno = b_data (bufs s ! b)"
      then have "bview s' bno = disk s' bno" using len by (intro bview_uncached) simp
      with a v show ?thesis by simp
    qed
  next
    case no: False
    then have v: "bview s bno = disk s bno" using len by (intro bview_uncached) simp
    show ?thesis
    proof (cases "\<exists>b < NBUF. holds_block bno (bufs s' ! b)")
      case True
      then obtain b where b: "b < NBUF" "holds_block bno (bufs s' ! b)" by blast
      with assms(4) [OF b] no v bview_cached [OF assms(2) b] show ?thesis by simp
    next
      case False
      then have "bview s' bno = disk s' bno" using len by (intro bview_uncached) simp
      with assms(5) no False v show ?thesis by simp
    qed
  qed
qed


subsection \<open>One buffer changes\<close>

definition set_buf :: "nat \<Rightarrow> buf \<Rightarrow> 'a bkernel_scheme \<Rightarrow> 'a bkernel_scheme" where
  "set_buf b x s = s\<lparr>bufs := (bufs s)[b := x]\<rparr>"

lemma upd_buf_set: "upd_buf b f s = set_buf b (f (bufs s ! b)) s"
  by (simp add: upd_buf_def set_buf_def)

lemma set_buf_simps [simp]:
  "bufs (set_buf b x s) = (bufs s)[b := x]" "disk (set_buf b x s) = disk s" "disksize (set_buf b x s) = disksize s"
  "ptable (set_buf b x s) = ptable s" "bc_next (set_buf b x s) = bc_next s" "bc_prev (set_buf b x s) = bc_prev s"
  "dwrites (set_buf b x s) = dwrites s" "set_buf b y (set_buf b x s) = set_buf b y s"
  "holdingsleep me l (set_buf b x s) = holdingsleep me l s"
  by (simp_all add: set_buf_def holdingsleep_def)

lemma bc_inv_nth: "bc_inv lru s \<Longrightarrow> b < NBUF \<Longrightarrow> buf_ok (disk s) (bufs s ! b)"
  by (simp add: bc_inv_def)

lemma bc_inv_set_buf:
  assumes "bc_inv lru s" and "buf_ok (disk s) x"
    and "\<And>j. j < NBUF \<Longrightarrow> j \<noteq> b \<Longrightarrow> b_dev x = 1 \<Longrightarrow> b_dev (bufs s ! j) = 1 \<Longrightarrow> b_blockno (bufs s ! j) \<noteq> b_blockno x"
  shows "bc_inv lru (set_buf b x s)"
proof (cases "b < NBUF")
  case True
  have d: "i = j"
    if "i < NBUF" "j < NBUF" "b_dev ((bufs s)[b := x] ! i) = 1" "b_dev ((bufs s)[b := x] ! j) = 1"
      "b_blockno ((bufs s)[b := x] ! i) = b_blockno ((bufs s)[b := x] ! j)" for i j
    using assms(1) assms(3) [of i] assms(3) [of j] that True
    by (cases "i = b"; cases "j = b") (auto simp: bc_inv_def bufs_distinct_def)
  then have "bufs_distinct ((bufs s)[b := x])"
    using assms(1) by (auto simp: bufs_distinct_def bc_inv_def)
  then show ?thesis using assms(1,2) True by (auto simp: bc_inv_def nth_list_update)
next
  case False
  then have "set_buf b x s = s" using assms(1) by (simp add: bc_inv_def set_buf_def list_update_beyond)
  then show ?thesis using assms(1) by simp
qed

lemma bc_inv_distinct:
  assumes "bc_inv lru s" "i < NBUF" "j < NBUF" "i \<noteq> j" "b_dev (bufs s ! i) = 1" "b_dev (bufs s ! j) = 1"
  shows "b_blockno (bufs s ! i) \<noteq> b_blockno (bufs s ! j)"
  using assms by (auto simp: bc_inv_def bufs_distinct_def)

text \<open>Replacing a buffer by one with the same block and the same data changes nothing that can be seen.\<close>

lemma bview_set_same:
  assumes inv: "bc_inv lru s" "bc_inv lru (set_buf b x s)" and b: "b < NBUF"
    and same: "b_dev x = b_dev (bufs s ! b)" "b_blockno x = b_blockno (bufs s ! b)"
      "b_valid (bufs s ! b) \<Longrightarrow> b_valid x \<and> b_data x = b_data (bufs s ! b)"
      "b_valid x \<Longrightarrow> \<not> b_valid (bufs s ! b) \<Longrightarrow> b_data x = disk s (b_blockno x)"
  shows "bview (set_buf b x s) = bview s"
proof (rule bview_eqI [OF inv])
  have len: "length (bufs s) = NBUF" using inv(1) by (simp add: bc_inv_def)
  fix c bno assume c: "c < NBUF"
  { assume "holds_block bno (bufs s ! c)"
    then have "holds_block bno (bufs (set_buf b x s) ! c) \<and> b_data (bufs (set_buf b x s) ! c) = b_data (bufs s ! c)"
      using same b c len by (cases "c = b") (auto simp: holds_block_def)
    then show "holds_block bno (bufs (set_buf b x s) ! c) \<and> b_data (bufs (set_buf b x s) ! c) = b_data (bufs s ! c) \<or>
       (\<forall>b' < NBUF. \<not> holds_block bno (bufs (set_buf b x s) ! b')) \<and> disk (set_buf b x s) bno = b_data (bufs s ! c)"
      by blast }
  { assume "holds_block bno (bufs (set_buf b x s) ! c)" "\<forall>b' < NBUF. \<not> holds_block bno (bufs s ! b')"
    then show "b_data (bufs (set_buf b x s) ! c) = disk s bno"
      using same b c len by (cases "c = b") (auto simp: holds_block_def) }
qed simp

text \<open>Taking over a clean buffer for another block does not change what is seen either.\<close>

lemma bview_recycle:
  assumes inv: "bc_inv lru s" "bc_inv lru (set_buf b x s)" and b: "b < NBUF"
    and clean: "\<not> b_dirty (bufs s ! b)" "\<not> sl_locked (b_lock (bufs s ! b))"
    and new: "\<And>c. c < NBUF \<Longrightarrow> \<not> holds_block (b_blockno x) (bufs s ! c)"
      "b_valid x \<Longrightarrow> b_data x = disk s (b_blockno x)"
  shows "bview (set_buf b x s) = bview s"
proof (rule bview_eqI [OF inv])
  have len: "length (bufs s) = NBUF" using inv(1) by (simp add: bc_inv_def)
  fix c bno assume c: "c < NBUF"
  { assume h: "holds_block bno (bufs s ! c)"
    then have other: "b_blockno x \<noteq> bno" using new(1) [OF c] by auto
    show "holds_block bno (bufs (set_buf b x s) ! c) \<and> b_data (bufs (set_buf b x s) ! c) = b_data (bufs s ! c) \<or>
       (\<forall>b' < NBUF. \<not> holds_block bno (bufs (set_buf b x s) ! b')) \<and> disk (set_buf b x s) bno = b_data (bufs s ! c)"
    proof (cases "c = b")
      case True
      have "\<not> holds_block bno (bufs s ! j)" if "j < NBUF" "j \<noteq> b" for j
        using bc_inv_distinct [OF inv(1) that(1) b that(2)] h True by (auto simp: holds_block_def)
      then have "\<not> holds_block bno (bufs (set_buf b x s) ! j)" if "j < NBUF" for j
        using that other len b by (cases "j = b") (auto simp: holds_block_def)
      moreover have "b_data (bufs s ! b) = disk s bno"
        using bc_inv_nth [OF inv(1) b] h clean True by (auto simp: buf_ok_def holds_block_def)
      ultimately show ?thesis using True by simp
    next
      case False
      with h show ?thesis by simp
    qed }
  { assume "holds_block bno (bufs (set_buf b x s) ! c)" "\<forall>b' < NBUF. \<not> holds_block bno (bufs s ! b')"
    then show "b_data (bufs (set_buf b x s) ! c) = disk s bno"
      using new(2) b c len by (cases "c = b") (auto simp: holds_block_def) }
qed simp


section \<open>Reading, writing and releasing a block\<close>

definition lock_buf :: "int \<Rightarrow> buf \<Rightarrow> buf" where
  "lock_buf pid x = x\<lparr>b_refcnt := 1, b_lock := (b_lock x)\<lparr>sl_locked := True, sl_pid := pid\<rparr>\<rparr>"

lemma buf_acquire_eq:
  assumes "buf_acquire me b (set_buf b x s) = Inr r" and "b < length (bufs s)"
  shows "r = (b, set_buf b (x\<lparr>b_lock := (b_lock x)\<lparr>sl_locked := True, sl_pid := p_pid (ptable s ! me)\<rparr>\<rparr>) s)"
    "\<not> sl_locked (b_lock x)"
  using assms by (auto simp: buf_acquire_def acquiresleep_def upd_buf_set split: if_splits)

text \<open>
  What \<open>bget\<close> returns: the buffer of the block if there is one, and otherwise a clean buffer that nobody holds,
  taken over for the block and marked invalid.
\<close>

lemma bget_cases:
  assumes inv: "bc_inv lru s" and get: "bget me dev bno s = Inr (b, s')"
  obtains (cached) "b < NBUF" "b_dev (bufs s ! b) = dev" "b_blockno (bufs s ! b) = bno"
      "\<not> sl_locked (b_lock (bufs s ! b))" "s' = set_buf b (lock_buf (p_pid (ptable s ! me)) (bufs s ! b)) s"
    | (recycled) "b < NBUF" "\<forall>c < NBUF. \<not> (b_dev (bufs s ! c) = dev \<and> b_blockno (bufs s ! c) = bno)"
      "\<not> sl_locked (b_lock (bufs s ! b))" "\<not> b_dirty (bufs s ! b)"
      "s' = set_buf b (lock_buf (p_pid (ptable s ! me))
              ((bufs s ! b)\<lparr>b_dev := dev, b_blockno := bno, b_valid := False, b_dirty := False\<rparr>)) s"
proof -
  let ?P = "\<lambda>b. b_dev (bufs s ! b) = dev \<and> b_blockno (bufs s ! b) = bno"
  let ?Q = "\<lambda>b. b_refcnt (bufs s ! b) = 0 \<and> \<not> b_dirty (bufs s ! b)"
  have d: "dpath (bc_next s) (bc_prev s) NBUF lru NBUF" "NBUF \<notin> set lru" "distinct lru" "set lru = {..<NBUF}"
    and len: "length (bufs s) = NBUF"
    using inv by (auto simp: bc_inv_def dlist_def)
  then have l: "length lru < Suc NBUF" using distinct_card [OF d(3)] by simp
  note w1 = bc_walk_next [OF d(1,2) l, of ?P] and w2 = bc_walk_prev [OF d(1,2) l, of ?Q]
  show thesis
  proof (cases "find ?P lru")
    case (Some c)
    then have c: "c < NBUF" "?P c" using d(4) by (auto simp: find_Some_iff dest: nth_mem)
    then have cl: "c < length (bufs s)" using len by simp
    from get w1 Some have g: "buf_acquire me c
        (set_buf c ((bufs s ! c)\<lparr>b_refcnt := b_refcnt (bufs s ! c) + 1\<rparr>) s) = Inr (b, s')"
      unfolding bget_def by (simp add: upd_buf_set)
    note a = buf_acquire_eq [OF g cl]
    have "b_refcnt (bufs s ! c) = 0" using bc_inv_nth [OF inv c(1)] a(2) by (simp add: buf_ok_def)
    with a c show thesis by (intro cached) (simp_all add: lock_buf_def)
  next
    case None
    then have n: "\<forall>c < NBUF. \<not> ?P c" using d(4) by (auto simp: find_None_iff)
    obtain c where f: "find ?Q (rev lru) = Some c" and g: "buf_acquire me c
        (set_buf c ((bufs s ! c)\<lparr>b_dev := dev, b_blockno := bno, b_valid := False, b_dirty := False, b_refcnt := 1\<rparr>) s)
        = Inr (b, s')"
      using get w1 w2 None unfolding bget_def by (cases "find ?Q (rev lru)") (simp_all add: upd_buf_set)
    from f obtain i where "i < length (rev lru)" "?Q c" "c = rev lru ! i" by (auto simp: find_Some_iff)
    then have c: "c \<in> set (rev lru)" "?Q c" using nth_mem by metis+
    then have cN: "c < NBUF" and cl: "c < length (bufs s)" using d(4) len by auto
    note a = buf_acquire_eq [OF g cl]
    show thesis using a c cN n by (intro recycled) (simp_all add: lock_buf_def)
  qed
qed


lemma holdingsleep_lock_buf [simp]:
  "b < length (bufs s) \<Longrightarrow> holdingsleep me (b_lock (lock_buf (p_pid (ptable s ! me)) x)) s"
  by (simp add: holdingsleep_def lock_buf_def)

lemma bread_form:
  assumes inv: "bc_inv lru s" and rd: "bread me dev bno s = Inr (b, s')"
  obtains x where "b < NBUF" "dev = 1" "\<not> sl_locked (b_lock (bufs s ! b))" "s' = set_buf b x s"
    "holdingsleep me (b_lock x) s" "holds_block bno x" "buf_ok (disk s) x"
    "b_dirty x = b_dirty (bufs s ! b)" "b_dirty x \<Longrightarrow> holds_block bno (bufs s ! b)"
    "\<not> b_dirty x \<Longrightarrow> b_data x = disk s bno"
    "bc_inv lru s'" "bview s' = bview s"
proof -
  obtain s1 where g: "bget me dev bno s = Inr (b, s1)"
    and r: "(if \<not> b_valid (bufs s1 ! b) then bind_res (iderw me b s1) (\<lambda>s2. Inr (b, s2)) else Inr (b, s1)) = Inr (b, s')"
    using rd by (auto simp: bread_def bind_res_eq_Inr_iff split: prod.splits if_splits)
  have len: "length (bufs s) = NBUF" using inv by (simp add: bc_inv_def)
  from inv g show thesis
  proof (cases rule: bget_cases)
    case cached
    note c = this and ok = bc_inv_nth [OF inv cached(1)]
    let ?y = "lock_buf (p_pid (ptable s ! me)) (bufs s ! b)"
    define x where "x = (if b_valid (bufs s ! b) then ?y else ?y\<lparr>b_data := disk s bno, b_valid := True\<rparr>)"
    have ex: "s' = set_buf b x s \<and> dev = 1"
      using r c ok len
      by (auto simp: x_def lock_buf_def iderw_def upd_buf_set buf_ok_def bind_res_eq_Inr_iff split: if_splits)
    have okx: "buf_ok (disk s) x" using ok ex c inv by (auto simp: x_def buf_ok_def lock_buf_def bc_inv_def)
    have same: "b_dev x = b_dev (bufs s ! b)" "b_blockno x = b_blockno (bufs s ! b)" "b_dirty x = b_dirty (bufs s ! b)"
      by (simp_all add: x_def lock_buf_def)
    have i': "bc_inv lru (set_buf b x s)"
      using inv okx by (rule bc_inv_set_buf) (use same bc_inv_distinct [OF inv] c(1) in fastforce)
    show thesis
    proof (rule that [OF c(1) _ c(4)])
      show "bview s' = bview s"
        using ex bview_set_same [OF inv i' c(1) same(1,2)] c(3) by (auto simp: x_def lock_buf_def)
      show "holds_block bno x" using c ex by (simp add: holds_block_def x_def lock_buf_def)
      show "b_data x = disk s bno" if "\<not> b_dirty x"
        using that ok c by (auto simp: x_def lock_buf_def buf_ok_def)
      show "holds_block bno (bufs s ! b)" if "b_dirty x"
        using c ok ex same(3) that by (auto simp: holds_block_def buf_ok_def)
      show "holdingsleep me (b_lock x) s" using c len by (simp add: x_def)
    qed (use ex i' okx same in simp_all)
  next
    case recycled
    note c = this and ok = bc_inv_nth [OF inv recycled(1)]
    let ?y = "lock_buf (p_pid (ptable s ! me))
       ((bufs s ! b)\<lparr>b_dev := dev, b_blockno := bno, b_valid := False, b_dirty := False\<rparr>)"
    define x where "x = ?y\<lparr>b_data := disk s bno, b_valid := True\<rparr>"
    have ex: "s' = set_buf b x s \<and> dev = 1"
      using r c len
      by (auto simp: x_def lock_buf_def iderw_def upd_buf_set bind_res_eq_Inr_iff split: if_splits)
    have okx: "buf_ok (disk s) x" using ok ex inv by (auto simp: x_def buf_ok_def lock_buf_def bc_inv_def)
    have i': "bc_inv lru (set_buf b x s)"
      using inv okx by (rule bc_inv_set_buf) (use c(2) ex in \<open>auto simp: x_def lock_buf_def\<close>)
    show thesis
    proof (rule that [OF c(1) _ c(3)])
      show "bview s' = bview s"
        using ex bview_recycle [OF inv i' c(1,4,3)] c(2) by (auto simp: x_def lock_buf_def holds_block_def)
      show "holds_block bno x" using ex by (simp add: holds_block_def x_def lock_buf_def)
      show "b_dirty x = b_dirty (bufs s ! b)" using c by (simp add: x_def lock_buf_def)
      show "holdingsleep me (b_lock x) s" using c len by (simp add: x_def)
    qed (use ex i' okx in \<open>simp_all add: x_def lock_buf_def\<close>)
  qed
qed


text \<open>A wake-up makes some sleeping processes runnable and changes nothing else of the process table.\<close>

definition woken :: "proc list \<Rightarrow> proc list \<Rightarrow> bool" where
  "woken ps qs \<longleftrightarrow> list_all2 (\<lambda>p q. q = p \<or> p_state p = SLEEPING \<and> q = p\<lparr>p_state := RUNNABLE\<rparr>) ps qs"

lemma woken_refl [simp]: "woken ps ps"
  by (simp add: woken_def list_all2_same)

lemma woken_trans: "woken ps qs \<Longrightarrow> woken qs rs \<Longrightarrow> woken ps rs"
  unfolding woken_def by (rule list_all2_trans) auto

lemma woken_wakeup [simp]: "woken (ptable s) (ptable (wakeup ch s))"
  by (simp add: woken_def wakeup_def wakeup1_def list_all2_conv_all_nth)

lemma woken_nth:
  assumes "woken ps qs"
  shows "length qs = length ps" "p_pid (qs ! i) = p_pid (ps ! i)" "p_cwd (qs ! i) = p_cwd (ps ! i)"
    "p_ofile (qs ! i) = p_ofile (ps ! i)" "p_pgdir (qs ! i) = p_pgdir (ps ! i)" "p_killed (qs ! i) = p_killed (ps ! i)"
proof -
  show len: "length qs = length ps" using assms by (simp add: woken_def list_all2_lengthD)
  have "qs ! i = ps ! i \<or> qs ! i = (ps ! i)\<lparr>p_state := RUNNABLE\<rparr>"
  proof (cases "i < length ps")
    case True
    then show ?thesis using assms by (auto simp: woken_def list_all2_conv_all_nth)
  next
    case False
    then obtain k where "i = length ps + k" using less_eqE not_le by metis
    moreover have "(xs :: proc list) ! (length xs + k) = [] ! k" for xs k by (induction xs) simp_all
    ultimately show ?thesis using len by metis
  qed
  then show "p_pid (qs ! i) = p_pid (ps ! i)" "p_cwd (qs ! i) = p_cwd (ps ! i)"
    "p_ofile (qs ! i) = p_ofile (ps ! i)" "p_pgdir (qs ! i) = p_pgdir (ps ! i)" "p_killed (qs ! i) = p_killed (ps ! i)"
    by auto
qed

lemma bc_links [simp]:
  "bufs (bc_push b s) = bufs s" "bufs (bc_unlink b s) = bufs s" "disk (bc_push b s) = disk s"
  "disk (bc_unlink b s) = disk s" "ptable (bc_push b s) = ptable s" "ptable (bc_unlink b s) = ptable s"
  "dwrites (bc_push b s) = dwrites s" "dwrites (bc_unlink b s) = dwrites s"
  by (simp_all add: bc_push_def bc_unlink_def Let_def)

lemma dlist_move_front:
  assumes "dlist (bc_next s) (bc_prev s) NBUF lru" and "b \<in> set lru"
  shows "\<exists>lru'. dlist (bc_next (bc_push b (bc_unlink b s))) (bc_prev (bc_push b (bc_unlink b s))) NBUF (b # lru') \<and>
           set (b # lru') = set lru"
proof -
  from assms(2) obtain ys zs where l: "lru = ys @ b # zs" by (auto simp: in_set_conv_decomp)
  let ?n = "bc_next (bc_unlink b s)" and ?p = "bc_prev (bc_unlink b s)"
  have pv: "dpath (bc_next s) (bc_prev s) b zs NBUF" "distinct (ys @ b # zs)" "NBUF \<notin> set (ys @ b # zs)"
    using assms(1) l by (auto simp: dlist_def dpath_append)
  then have "bc_next s b \<noteq> b" using dpath_first [OF pv(1)] by (cases zs) auto
  then have "bc_next (bc_unlink b s) = (bc_next s)(bc_prev s b := bc_next s b)"
    "bc_prev (bc_unlink b s) = (bc_prev s)(bc_next s b := bc_prev s b)"
    by (simp_all add: bc_unlink_def)
  then have d: "dlist ?n ?p NBUF (ys @ zs)" using dlist_unlink assms(1) l by metis
  have b: "b \<notin> set (ys @ zs)" "b \<noteq> NBUF" using pv(2,3) by auto
  have "bc_next (bc_push b (bc_unlink b s)) = ?n(b := ?n NBUF, NBUF := b)"
    "bc_prev (bc_push b (bc_unlink b s)) = ?p(b := NBUF, ?n NBUF := b)"
    using b(2) by (simp_all add: bc_push_def)
  then have "dlist (bc_next (bc_push b (bc_unlink b s))) (bc_prev (bc_push b (bc_unlink b s))) NBUF (b # ys @ zs)"
    using dlist_push [OF d b] by simp
  moreover have "set (b # ys @ zs) = set lru" using l by auto
  ultimately show ?thesis by blast
qed

text \<open>
  What every call of the cache leaves alone: it changes the buffers and their list, and wakes processes.
\<close>

definition bc_frame :: "'a bkernel_scheme \<Rightarrow> 'a bkernel_scheme \<Rightarrow> bool" where
  "bc_frame s s' \<longleftrightarrow> woken (ptable s) (ptable s') \<and>
     s' = s\<lparr>ptable := ptable s', bufs := bufs s', bc_next := bc_next s', bc_prev := bc_prev s'\<rparr>"

lemma bc_frame_refl [simp]: "bc_frame s s"
  by (simp add: bc_frame_def)

lemma bc_frame_trans: "bc_frame s1 s2 \<Longrightarrow> bc_frame s2 s3 \<Longrightarrow> bc_frame s1 s3"
proof -
  assume a: "bc_frame s1 s2" "bc_frame s2 s3"
  have "s3 = s1\<lparr>ptable := ptable s3, bufs := bufs s3, bc_next := bc_next s3, bc_prev := bc_prev s3\<rparr>"
  proof -
    let ?u = "\<lambda>t x. t\<lparr>ptable := ptable x, bufs := bufs x, bc_next := bc_next x, bc_prev := bc_prev x\<rparr>"
    have "s3 = ?u s2 s3" "s2 = ?u s1 s2" using a unfolding bc_frame_def by blast+
    then have "s3 = ?u (?u s1 s2) s3" by metis
    then show ?thesis by simp
  qed
  moreover have "woken (ptable s1) (ptable s3)" using a woken_trans unfolding bc_frame_def by blast
  ultimately show ?thesis unfolding bc_frame_def by blast
qed

lemma bc_frame_set_buf [simp]: "bc_frame s (set_buf b x s)"
  by (simp add: bc_frame_def set_buf_def)


lemma heldD:
  assumes "held me b bno s"
  shows "b < NBUF" "holds_block bno (bufs s ! b)" "sl_locked (b_lock (bufs s ! b))"
    "holdingsleep me (b_lock (bufs s ! b)) s"
  using assms by (auto simp: held_def holdingsleep_def)

text \<open>Changing the data of a buffer that is held, and its dirty flag.\<close>

lemma set_data:
  fixes s :: "'a bkernel_scheme" and dty :: bool
  assumes inv: "bc_inv lru s" and h: "held me b bno s" and d: "length d = BSIZE"
  defines "s' \<equiv> set_buf b ((bufs s ! b)\<lparr>b_data := d, b_dirty := dty\<rparr>) s"
  shows "bc_inv lru s'" "held me b bno s'" "bview s' = (bview s)(bno := d)"
proof -
  note H = heldD [OF h] and ok = bc_inv_nth [OF inv heldD(1) [OF h]]
  have len: "length (bufs s) = NBUF" using inv by (simp add: bc_inv_def)
  show i': "bc_inv lru s'"
    unfolding s'_def
  proof (rule bc_inv_set_buf [OF inv])
    show "buf_ok (disk s) ((bufs s ! b)\<lparr>b_data := d, b_dirty := dty\<rparr>)"
      using ok d H by (auto simp: buf_ok_def holds_block_def)
  qed (use bc_inv_distinct [OF inv] H(1) in fastforce)
  show "held me b bno s'" using H len by (simp add: held_def s'_def holds_block_def)
  have other: "bview s' n = bview s n" if "n \<noteq> bno" for n
  proof (cases "\<exists>c < NBUF. holds_block n (bufs s ! c)")
    case True
    then obtain c where c: "c < NBUF" "holds_block n (bufs s ! c)" by blast
    with that H(2) have "c \<noteq> b" by (auto simp: holds_block_def)
    then have "holds_block n (bufs s' ! c)" "b_data (bufs s' ! c) = b_data (bufs s ! c)" using c by (simp_all add: s'_def)
    with bview_cached [OF inv c] bview_cached [OF i' c(1)] show ?thesis by simp
  next
    case False
    then have "\<not> holds_block n (bufs s' ! c)" if "c < NBUF" for c
      using that H len by (cases "c = b") (auto simp: s'_def holds_block_def)
    then have "bview s' n = disk s n" using bview_uncached [of s' n] len by (simp add: s'_def)
    moreover have "bview s n = disk s n" using bview_uncached [of s n] len False by auto
    ultimately show ?thesis by simp
  qed
  have "bview s' bno = d"
    using bview_cached [OF i' H(1)] H len by (simp add: s'_def holds_block_def)
  with other show "bview s' = (bview s)(bno := d)" by auto
qed

lemma brelse_spec:
  assumes inv: "bc_inv lru s" and h: "held me b bno s"
    and clean: "b_dirty (bufs s ! b) \<or> b_data (bufs s ! b) = disk s bno"
  obtains s' lru' where "brelse me b s = Inr s'" "bc_inv lru' s'" "bview s' = bview s" "bc_frame s s'"
    "\<And>c. c \<noteq> b \<Longrightarrow> bufs s' ! c = bufs s ! c" "\<not> sl_locked (b_lock (bufs s' ! b))"
    "b_dirty (bufs s' ! b) = b_dirty (bufs s ! b)" "holds_block bno (bufs s' ! b)"
proof -
  note H = heldD [OF h] and ok = bc_inv_nth [OF inv heldD(1) [OF h]]
  have len: "length (bufs s) = NBUF" using inv by (simp add: bc_inv_def)
  define x where "x = (bufs s ! b)\<lparr>b_lock := (b_lock (bufs s ! b))\<lparr>sl_locked := False, sl_pid := 0\<rparr>, b_refcnt := 0\<rparr>"
  have ref: "b_refcnt (bufs s ! b) = 1" using ok H by (simp add: buf_ok_def)
  have okx: "buf_ok (disk s) x" using ok H clean by (auto simp: x_def buf_ok_def holds_block_def)
  have i1: "bc_inv lru (set_buf b x s)"
    using inv okx by (rule bc_inv_set_buf) (use bc_inv_distinct [OF inv] H(1) in \<open>fastforce simp: x_def\<close>)
  have v1: "bview (set_buf b x s) = bview s"
    by (rule bview_set_same [OF inv i1 H(1)]) (use H in \<open>simp_all add: x_def holds_block_def\<close>)
  define s2 where "s2 = set_buf b x (wakeup (CBufLock b) s)"
  have w: "bufs (wakeup c t) = bufs t" "disk (wakeup c t) = disk t" "bc_next (wakeup c t) = bc_next t"
    "bc_prev (wakeup c t) = bc_prev t" for c and t :: "'a bkernel_scheme"
    by (simp_all add: wakeup_def wakeup1_def)
  have i2: "bc_inv lru s2" using i1 by (simp add: s2_def bc_inv_def w)
  have rel: "brelse me b s = Inr (bc_push b (bc_unlink b s2))"
    using H len ref by (simp add: brelse_def releasesleep_def upd_buf_set s2_def x_def w)
  have "dlist (bc_next s2) (bc_prev s2) NBUF lru" "b \<in> set lru" using i2 H(1) by (auto simp: bc_inv_def)
  from dlist_move_front [OF this] obtain l where
    l: "dlist (bc_next (bc_push b (bc_unlink b s2))) (bc_prev (bc_push b (bc_unlink b s2))) NBUF (b # l)"
      "set (b # l) = set lru" by blast
  with i2 have i3: "bc_inv (b # l) (bc_push b (bc_unlink b s2))" unfolding bc_inv_def bc_links by blast
  have b3: "bufs (bc_push b (bc_unlink b s2)) = bufs (set_buf b x s)" by (simp add: s2_def w)
  have d3: "disk (bc_push b (bc_unlink b s2)) = disk (set_buf b x s)" by (simp add: s2_def w)
  have v3: "bview (bc_push b (bc_unlink b s2)) = bview (set_buf b x s)"
    by (rule ext) (simp only: bview_def b3 d3)
  have f3: "bc_frame s (bc_push b (bc_unlink b s2))"
    by (simp add: bc_frame_def s2_def) (simp add: bc_push_def bc_unlink_def Let_def set_buf_def wakeup_def wakeup1_def)
  show thesis
    by (rule that [OF rel i3 _ f3]) (use v1 v3 b3 H len in \<open>simp_all add: x_def holds_block_def\<close>)
qed

lemma bwrite_eq:
  assumes inv: "bc_inv lru s" and h: "held me b bno s" and rng: "bno < disksize s"
  shows "bwrite me b s =
     Inr ((set_buf b ((bufs s ! b)\<lparr>b_dirty := False\<rparr>) s)
            \<lparr>disk := (disk s)(bno := b_data (bufs s ! b)), dwrites := dwrites s @ [(bno, b_data (bufs s ! b))]\<rparr>)"
proof -
  have len: "length (bufs s) = NBUF" using inv by (simp add: bc_inv_def)
  have e: "(bufs s ! b)\<lparr>b_dirty := False, b_valid := True\<rparr> = (bufs s ! b)\<lparr>b_dirty := False\<rparr>"
    using heldD(2) [OF h] by (simp add: holds_block_def)
  show ?thesis
    using heldD [OF h] len rng
    by (simp add: bwrite_def iderw_def upd_buf_set Let_def holds_block_def not_le)
      (simp add: set_buf_def e)
qed

subsection \<open>Locked buffers and dirty blocks\<close>

definition locked :: "'a bkernel_scheme \<Rightarrow> nat set" where
  "locked s = {i. i < NBUF \<and> sl_locked (b_lock (bufs s ! i))}"

definition dirty_blocks :: "'a bkernel_scheme \<Rightarrow> u32 set" where
  "dirty_blocks s = {b_blockno (bufs s ! i) | i. i < NBUF \<and> b_dirty (bufs s ! i)}"

lemma dirty_blocks_iff: "n \<in> dirty_blocks s \<longleftrightarrow> (\<exists>i < NBUF. b_dirty (bufs s ! i) \<and> b_blockno (bufs s ! i) = n)"
  by (auto simp: dirty_blocks_def)

lemma finite_locked [simp]: "finite (locked s)"
  by (simp add: locked_def)

lemma held_locked: "held me b bno s \<Longrightarrow> b \<in> locked s"
  by (simp add: held_def locked_def holdingsleep_def)

lemma dirty_iff:
  assumes "bc_inv lru s" and "b < NBUF" and "holds_block bno (bufs s ! b)"
  shows "bno \<in> dirty_blocks s \<longleftrightarrow> b_dirty (bufs s ! b)"
proof
  assume "bno \<in> dirty_blocks s"
  then obtain i where i: "i < NBUF" "b_dirty (bufs s ! i)" "b_blockno (bufs s ! i) = bno" by (auto simp: dirty_blocks_def)
  with bc_inv_nth [OF assms(1) i(1)] have "b_dev (bufs s ! i) = 1" by (simp add: buf_ok_def)
  with i bc_inv_distinct [OF assms(1) i(1) assms(2)] assms(3) have "i = b" by (auto simp: holds_block_def)
  with i show "b_dirty (bufs s ! b)" by simp
qed (use assms in \<open>auto simp: dirty_blocks_def holds_block_def\<close>)

lemma clean_block_on_disk:
  assumes inv: "bc_inv lru s" and "bno \<notin> dirty_blocks s" and "\<And>b. b \<in> locked s \<Longrightarrow> \<not> holds_block bno (bufs s ! b)"
  shows "bview s bno = disk s bno"
proof (cases "\<exists>b < NBUF. holds_block bno (bufs s ! b)")
  case True
  then obtain b where b: "b < NBUF" "holds_block bno (bufs s ! b)" by blast
  then have "\<not> b_dirty (bufs s ! b)" using dirty_iff [OF inv b] assms(2) by simp
  moreover have "b \<notin> locked s" using assms(3) b(2) by blast
  ultimately have "b_data (bufs s ! b) = disk s bno"
    using bc_inv_nth [OF inv b(1)] b by (auto simp: locked_def buf_ok_def holds_block_def)
  then show ?thesis using bview_cached [OF inv b] by simp
next
  case False
  then show ?thesis using inv by (intro bview_uncached) (auto simp: bc_inv_def)
qed

lemma bread_spec:
  assumes inv: "bc_inv lru s" and rd: "bread me dev bno s = Inr (b, s')"
  obtains "dev = 1" "held me b bno s'" "bc_inv lru s'" "bview s' = bview s" "bc_frame s s'"
    "locked s' = insert b (locked s)" "b \<notin> locked s" "dirty_blocks s' = dirty_blocks s"
    "\<And>c. c \<noteq> b \<Longrightarrow> bufs s' ! c = bufs s ! c" "b_data (bufs s' ! b) = bview s bno"
    "b_dirty (bufs s' ! b) \<longleftrightarrow> bno \<in> dirty_blocks s" "bno \<notin> dirty_blocks s \<Longrightarrow> b_data (bufs s' ! b) = disk s bno"
proof -
  obtain x where x: "b < NBUF" "dev = 1" "\<not> sl_locked (b_lock (bufs s ! b))" "s' = set_buf b x s"
    "holdingsleep me (b_lock x) s" "holds_block bno x" "b_dirty x = b_dirty (bufs s ! b)"
    "b_dirty x \<Longrightarrow> holds_block bno (bufs s ! b)" "\<not> b_dirty x \<Longrightarrow> b_data x = disk s bno" "bc_inv lru s'" "bview s' = bview s"
    using bread_form [OF inv rd] by metis
  have len: "length (bufs s) = NBUF" using inv by (simp add: bc_inv_def)
  have xb: "bufs s' ! b = x" and other: "\<And>c. c \<noteq> b \<Longrightarrow> bufs s' ! c = bufs s ! c" using x(1,4) len by simp_all
  then have h: "held me b bno s'" using x by (simp add: held_def)
  have lk: "locked s' = insert b (locked s)"
  proof -
    have "b \<in> locked s'" using x(1,5) xb by (simp add: holdingsleep_def locked_def)
    moreover have "i \<in> locked s' \<longleftrightarrow> i \<in> locked s" if "i \<noteq> b" for i using other [OF that] by (simp add: locked_def)
    ultimately show ?thesis by (intro set_eqI) (metis insert_iff)
  qed
  have db: "dirty_blocks s' = dirty_blocks s"
  proof -
    have "b_dirty (bufs s' ! i) = b_dirty (bufs s ! i) \<and>
        (b_dirty (bufs s ! i) \<longrightarrow> b_blockno (bufs s' ! i) = b_blockno (bufs s ! i))" for i
      using xb other x(6,7,8) by (cases "i = b") (auto simp: holds_block_def)
    then show ?thesis unfolding dirty_blocks_def by metis
  qed
  have v: "b_data (bufs s' ! b) = bview s bno" using bview_cached [OF x(10) x(1)] heldD(2) [OF h] x(11) by simp
  have d: "b_dirty (bufs s' ! b) \<longleftrightarrow> bno \<in> dirty_blocks s"
    using dirty_iff [OF x(10) x(1) heldD(2) [OF h]] db by simp
  show thesis
    by (rule that [OF x(2) h x(10,11) _ lk _ db other v d]) (use x xb d in \<open>auto simp: locked_def\<close>)
qed

text \<open>Releasing a buffer that is dirty, or whose data is on the disk.\<close>

lemma brelse_sets:
  assumes "bc_inv lru s" and "held me b bno s"
    and "b_dirty (bufs s ! b) \<or> b_data (bufs s ! b) = disk s bno"
  obtains s' lru' where "brelse me b s = Inr s'" "bc_inv lru' s'" "bview s' = bview s" "bc_frame s s'"
    "locked s' = locked s - {b}" "dirty_blocks s' = dirty_blocks s" "\<And>c. c \<noteq> b \<Longrightarrow> bufs s' ! c = bufs s ! c"
proof -
  obtain s' lru' where r: "brelse me b s = Inr s'" "bc_inv lru' s'" "bview s' = bview s" "bc_frame s s'"
    "\<And>c. c \<noteq> b \<Longrightarrow> bufs s' ! c = bufs s ! c" "\<not> sl_locked (b_lock (bufs s' ! b))"
    "b_dirty (bufs s' ! b) = b_dirty (bufs s ! b)" "holds_block bno (bufs s' ! b)"
    using brelse_spec [OF assms] by metis
  have "i \<in> locked s' \<longleftrightarrow> i \<in> locked s \<and> i \<noteq> b" for i using r(5,6) by (cases "i = b") (auto simp: locked_def)
  then have lk: "locked s' = locked s - {b}" by blast
  have "b_dirty (bufs s' ! i) = b_dirty (bufs s ! i) \<and> b_blockno (bufs s' ! i) = b_blockno (bufs s ! i)" for i
    using r(5,7,8) heldD(2) [OF assms(2)] by (cases "i = b") (auto simp: holds_block_def)
  then have db: "dirty_blocks s' = dirty_blocks s" unfolding dirty_blocks_def by simp
  show thesis by (rule that [OF r(1-4) lk db r(5)])
qed

lemma held_frame:
  assumes "held me b bno s" and "bufs s' ! b = bufs s ! b" and "bc_frame s s'"
  shows "held me b bno s'"
  using assms woken_nth(2) [of "ptable s" "ptable s'" me] by (simp add: held_def holdingsleep_def bc_frame_def)

lemma bc_frameD:
  assumes "bc_frame s s'"
  shows "disk s' = disk s" "disksize s' = disksize s" "dwrites s' = dwrites s" "woken (ptable s) (ptable s')"
proof -
  from assms have e: "s' = s\<lparr>ptable := ptable s', bufs := bufs s', bc_next := bc_next s', bc_prev := bc_prev s'\<rparr>"
    and w: "woken (ptable s) (ptable s')"
    by (simp_all add: bc_frame_def)
  show "woken (ptable s) (ptable s')" by (rule w)
  show "disk s' = disk s" "disksize s' = disksize s" "dwrites s' = dwrites s" by (subst e, simp)+
qed

lemma set_data_sets:
  assumes inv: "bc_inv lru s" and h: "held me b bno s"
  shows "locked (set_buf b ((bufs s ! b)\<lparr>b_data := d, b_dirty := dty\<rparr>) s) = locked s"
    "dirty_blocks (set_buf b ((bufs s ! b)\<lparr>b_data := d, b_dirty := dty\<rparr>) s) =
       (if dty then insert bno (dirty_blocks s) else dirty_blocks s - {bno})"
proof -
  note H = heldD [OF h]
  have len: "length (bufs s) = NBUF" using inv by (simp add: bc_inv_def)
  define t where "t = set_buf b ((bufs s ! b)\<lparr>b_data := d, b_dirty := dty\<rparr>) s"
  have xb: "b_dirty (bufs t ! b) = dty" "b_blockno (bufs t ! b) = bno" "b_lock (bufs t ! b) = b_lock (bufs s ! b)"
    using H(1,2) len by (simp_all add: t_def holds_block_def)
  have xo: "bufs t ! c = bufs s ! c" if "c \<noteq> b" for c using that by (simp add: t_def)
  have "b_lock (bufs t ! i) = b_lock (bufs s ! i)" for i using xb(3) xo [of i] by (cases "i = b") simp_all
  then show "locked (set_buf b ((bufs s ! b)\<lparr>b_data := d, b_dirty := dty\<rparr>) s) = locked s"
    by (simp add: locked_def t_def [symmetric])
  have uniq: "i = b" if "i < NBUF" "b_dirty (bufs s ! i)" "b_blockno (bufs s ! i) = bno" for i
  proof (rule ccontr)
    assume "i \<noteq> b"
    with bc_inv_distinct [OF inv that(1) H(1)] bc_inv_nth [OF inv that(1)] H(2) that show False
      by (simp add: buf_ok_def holds_block_def)
  qed
  have "n \<in> dirty_blocks t \<longleftrightarrow> (if n = bno then dty else n \<in> dirty_blocks s)" for n
  proof (cases "n = bno")
    case True
    have "dty" if "i < NBUF" "b_dirty (bufs t ! i)" "b_blockno (bufs t ! i) = bno" for i
    proof (cases "i = b")
      case True
      with that(2) xb(1) show ?thesis by simp
    next
      case False
      with that xo [OF False] uniq [OF that(1)] show ?thesis by metis
    qed
    then have "bno \<in> dirty_blocks t \<longleftrightarrow> dty" unfolding dirty_blocks_iff using xb(1,2) H(1) by blast
    with True show ?thesis by simp
  next
    case False
    have "b_blockno (bufs s ! b) = bno" using H(2) by (simp add: holds_block_def)
    then have "b_dirty (bufs t ! i) \<and> b_blockno (bufs t ! i) = n \<longleftrightarrow> b_dirty (bufs s ! i) \<and> b_blockno (bufs s ! i) = n" for i
      using xb(2) xo [of i] False by (cases "i = b") auto
    then have "n \<in> dirty_blocks t \<longleftrightarrow> n \<in> dirty_blocks s" unfolding dirty_blocks_iff by simp
    with False show ?thesis by simp
  qed
  then show "dirty_blocks (set_buf b ((bufs s ! b)\<lparr>b_data := d, b_dirty := dty\<rparr>) s) =
      (if dty then insert bno (dirty_blocks s) else dirty_blocks s - {bno})"
    unfolding t_def [symmetric] by (intro set_eqI) auto
qed

lemma finite_dirty [simp]: "finite (dirty_blocks s)"
  by (simp add: dirty_blocks_def)

lemma card_dirty:
  assumes "bc_inv lru s"
  shows "card {i. i < NBUF \<and> b_dirty (bufs s ! i)} = card (dirty_blocks s)"
proof -
  have "inj_on (\<lambda>i. b_blockno (bufs s ! i)) {i. i < NBUF \<and> b_dirty (bufs s ! i)}"
  proof (rule inj_onI, rule ccontr)
    fix i j
    assume a: "i \<in> {i. i < NBUF \<and> b_dirty (bufs s ! i)}" "j \<in> {i. i < NBUF \<and> b_dirty (bufs s ! i)}"
      "b_blockno (bufs s ! i) = b_blockno (bufs s ! j)" "i \<noteq> j"
    then have "b_dev (bufs s ! i) = 1" "b_dev (bufs s ! j) = 1"
      using bc_inv_nth [OF assms, of i] bc_inv_nth [OF assms, of j] by (simp_all add: buf_ok_def)
    then show False using bc_inv_distinct [OF assms, of i j] a by simp
  qed
  moreover have "dirty_blocks s = (\<lambda>i. b_blockno (bufs s ! i)) ` {i. i < NBUF \<and> b_dirty (bufs s ! i)}"
    by (auto simp: dirty_blocks_def)
  ultimately show ?thesis by (simp add: card_image)
qed

lemma clean_buffer_exists:
  assumes "bc_inv lru s" and "card (locked s) + card (dirty_blocks s) < NBUF"
  shows "\<exists>c < NBUF. \<not> b_dirty (bufs s ! c) \<and> \<not> sl_locked (b_lock (bufs s ! c))"
proof (rule ccontr)
  let ?D = "{i. i < NBUF \<and> b_dirty (bufs s ! i)}"
  assume "\<not> ?thesis"
  then have "{..<NBUF} \<subseteq> locked s \<union> ?D" by (auto simp: locked_def)
  then have "card {..<NBUF} \<le> card (locked s \<union> ?D)" by (intro card_mono) simp_all
  also have "\<dots> \<le> card (locked s) + card ?D" by (rule card_Un_le)
  finally show False using assms card_dirty [OF assms(1)] by simp
qed

text \<open>What the calls that write to the disk leave alone.\<close>

definition dk_frame :: "'a bkernel_scheme \<Rightarrow> 'a bkernel_scheme \<Rightarrow> bool" where
  "dk_frame s s' \<longleftrightarrow> woken (ptable s) (ptable s') \<and>
     s' = s\<lparr>ptable := ptable s', disk := disk s', dwrites := dwrites s', bufs := bufs s', bc_next := bc_next s',
            bc_prev := bc_prev s'\<rparr>"

lemma dk_frame_refl [simp]: "dk_frame s s"
  by (simp add: dk_frame_def)

lemma dk_frame_trans: "dk_frame s1 s2 \<Longrightarrow> dk_frame s2 s3 \<Longrightarrow> dk_frame s1 s3"
proof -
  assume a: "dk_frame s1 s2" "dk_frame s2 s3"
  let ?u = "\<lambda>t x. t\<lparr>ptable := ptable x, disk := disk x, dwrites := dwrites x, bufs := bufs x, bc_next := bc_next x, bc_prev := bc_prev x\<rparr>"
  have "s3 = ?u s2 s3" "s2 = ?u s1 s2" using a unfolding dk_frame_def by blast+
  then have "s3 = ?u (?u s1 s2) s3" by metis
  then have "s3 = ?u s1 s3" by simp
  moreover have "woken (ptable s1) (ptable s3)" using a woken_trans unfolding dk_frame_def by blast
  ultimately show ?thesis unfolding dk_frame_def by blast
qed

lemma bc_frame_dk: "bc_frame s s' \<Longrightarrow> dk_frame s s'"
proof -
  assume a: "bc_frame s s'"
  then have e: "s' = s\<lparr>ptable := ptable s', bufs := bufs s', bc_next := bc_next s', bc_prev := bc_prev s'\<rparr>"
    and w: "woken (ptable s) (ptable s')" by (simp_all add: bc_frame_def)
  have "s' = s\<lparr>ptable := ptable s', disk := disk s', dwrites := dwrites s', bufs := bufs s', bc_next := bc_next s',
            bc_prev := bc_prev s'\<rparr>"
    using bc_frameD [OF a] by (subst e) simp
  with w show ?thesis unfolding dk_frame_def by blast
qed

lemma dk_frameD:
  assumes "dk_frame s s'"
  shows "disksize s' = disksize s" "woken (ptable s) (ptable s')"
proof -
  from assms have e: "s' = s\<lparr>ptable := ptable s', disk := disk s', dwrites := dwrites s', bufs := bufs s',
      bc_next := bc_next s', bc_prev := bc_prev s'\<rparr>" and w: "woken (ptable s) (ptable s')"
    by (simp_all add: dk_frame_def)
  show "woken (ptable s) (ptable s')" by (rule w)
  show "disksize s' = disksize s" by (subst e) simp
qed

lemma dk_frame_upd_buf [simp]: "dk_frame s (upd_buf b f s)"
  by (simp add: dk_frame_def upd_buf_def)

lemma buf_acquire_frame: "buf_acquire me b s = Inr (c, s') \<Longrightarrow> dk_frame s s'"
  by (auto simp: buf_acquire_def acquiresleep_def split: if_splits)

lemma iderw_frame: "iderw me b s = Inr s' \<Longrightarrow> dk_frame s s'"
  by (auto simp: iderw_def Let_def dk_frame_def upd_buf_def)

lemma bget_frame:
  assumes "bget me dev bno s = Inr (b, s')"
  shows "dk_frame s s'"
proof -
  from assms obtain c f where "buf_acquire me c (upd_buf c f s) = Inr (b, s')"
    by (auto simp: bget_def bind_res_eq_Inr_iff split: option.splits)
  then show ?thesis using buf_acquire_frame dk_frame_trans [OF dk_frame_upd_buf] by blast
qed

lemma bread_frame:
  assumes "bread me dev bno s = Inr (b, s')"
  shows "dk_frame s s'"
  using assms
  by (auto simp: bread_def bind_res_eq_Inr_iff split: prod.splits if_splits
      dest!: bget_frame iderw_frame intro: dk_frame_trans)

lemma bwrite_frame: "bwrite me b s = Inr s' \<Longrightarrow> dk_frame s s'"
  by (auto simp: bwrite_def dest!: iderw_frame intro: dk_frame_trans [OF dk_frame_upd_buf])

lemma brelse_frame:
  assumes "brelse me b s = Inr s'"
  shows "dk_frame s s'"
proof -
  have w: "dk_frame s (wakeup c s)" for c and s :: "'a bkernel_scheme"
    by (simp add: dk_frame_def) (simp add: wakeup_def wakeup1_def)
  have l: "dk_frame s (bc_push b (bc_unlink b s))" for b and s :: "'a bkernel_scheme"
    by (simp add: dk_frame_def) (simp add: bc_push_def bc_unlink_def Let_def)
  from assms have "s' = (let s2 = upd_buf b (\<lambda>x. x\<lparr>b_lock := (b_lock (bufs s ! b))\<lparr>sl_locked := False, sl_pid := 0\<rparr>,
        b_refcnt := b_refcnt x - 1\<rparr>) (wakeup (CBufLock b) s)
     in if b_refcnt (bufs s2 ! b) = 0 then bc_push b (bc_unlink b s2) else s2)"
    by (simp add: brelse_def releasesleep_def Let_def)
  then show ?thesis
    using w dk_frame_trans [OF w dk_frame_upd_buf] dk_frame_trans [OF dk_frame_trans [OF w dk_frame_upd_buf] l]
    by (simp add: Let_def split: if_splits)
qed

lemmas cache_frames = bread_frame bwrite_frame brelse_frame

lemma bwrite_sets:
  assumes inv: "bc_inv lru s" and h: "held me b bno s" and rng: "bno < disksize s"
  obtains s' where "bwrite me b s = Inr s'" "bc_inv lru s'" "held me b bno s'" "bview s' = bview s" "dk_frame s s'"
    "locked s' = locked s" "dirty_blocks s' = dirty_blocks s - {bno}" "disk s' = (disk s)(bno := bview s bno)"
    "dwrites s' = dwrites s @ [(bno, bview s bno)]" "\<And>c. c \<noteq> b \<Longrightarrow> bufs s' ! c = bufs s ! c"
    "b_data (bufs s' ! b) = bview s bno" "ptable s' = ptable s"
proof -
  note H = heldD [OF h]
  have len: "length (bufs s) = NBUF" using inv by (simp add: bc_inv_def)
  let ?d = "b_data (bufs s ! b)"
  have v: "?d = bview s bno" using bview_cached [OF inv H(1,2)] by simp
  define s0 where "s0 = set_buf b ((bufs s ! b)\<lparr>b_data := ?d, b_dirty := False\<rparr>) s"
  have dl: "length ?d = BSIZE" using bview_length [OF inv] v by simp
  note S = set_data [OF inv h dl, of False, folded s0_def] and T = set_data_sets [OF inv h, of False ?d, folded s0_def]
  define s' where "s' = s0\<lparr>disk := (disk s)(bno := ?d), dwrites := dwrites s @ [(bno, ?d)]\<rparr>"
  have bw: "bwrite me b s = Inr s'"
    unfolding bwrite_eq [OF inv h rng] s'_def s0_def by simp
  have bb: "bufs s' = bufs s0" by (simp add: s'_def)
  have ok: "buf_ok ((disk s)(bno := ?d)) (bufs s0 ! i)" if i: "i < NBUF" for i
  proof (cases "i = b")
    case True
    then show ?thesis using bc_inv_nth [OF inv i] H len by (auto simp: s0_def buf_ok_def holds_block_def)
  next
    case False
    then have e: "bufs s0 ! i = bufs s ! i" by (simp add: s0_def)
    have "b_valid (bufs s ! i) \<Longrightarrow> b_blockno (bufs s ! i) \<noteq> bno"
      using bc_inv_distinct [OF inv i H(1) False] bc_inv_nth [OF inv i] H(2) by (auto simp: buf_ok_def holds_block_def)
    then show ?thesis using bc_inv_nth [OF inv i] by (auto simp: e buf_ok_def)
  qed
  have i': "bc_inv lru s'"
    using S(1) ok dl by (simp add: bc_inv_def s'_def) (simp add: s0_def)
  have h': "held me b bno s'" using S(2) by (simp add: held_def s'_def holdingsleep_def)
  have "bview s' n = bview s n" for n
  proof (cases "n = bno")
    case True
    then show ?thesis using bview_cached [OF i' H(1)] h' v H(1) len by (simp add: held_def s'_def s0_def)
  next
    case False
    then have "bview s' n = bview s0 n" by (simp add: bview_def s'_def s0_def split: option.splits)
    then show ?thesis using S(3) False by simp
  qed
  then have vv: "bview s' = bview s" by blast
  have "dk_frame s s'" by (simp add: dk_frame_def s'_def s0_def set_buf_def)
  moreover have "locked s' = locked s" "dirty_blocks s' = dirty_blocks s - {bno}"
    using T by (simp_all add: locked_def dirty_blocks_def bb)
  ultimately show thesis
    using that [OF bw i' h' vv] v H(1) len by (simp add: s'_def s0_def)
qed

section \<open>The cache after \<open>binit\<close>\<close>

lemma upd_buf_links [simp]:
  "bc_next (upd_buf b f s) = bc_next s" "bc_prev (upd_buf b f s) = bc_prev s" "disk (upd_buf b f s) = disk s"
  "length (bufs (upd_buf b f s)) = length (bufs s)"
  by (simp_all add: upd_buf_def)

lemma bc_push_dlist:
  assumes "dlist (bc_next s) (bc_prev s) NBUF xs" and "b \<notin> set xs" and "b \<noteq> NBUF"
  shows "dlist (bc_next (bc_push b s)) (bc_prev (bc_push b s)) NBUF (b # xs)"
proof -
  have "bc_next (bc_push b s) = (bc_next s)(b := bc_next s NBUF, NBUF := b)"
    "bc_prev (bc_push b s) = (bc_prev s)(b := NBUF, bc_next s NBUF := b)"
    using assms(3) by (simp_all add: bc_push_def)
  with dlist_push [OF assms] show ?thesis by simp
qed

lemma binit_fold:
  assumes "n \<le> NBUF" and "length (bufs s) = NBUF" and "dlist (bc_next s) (bc_prev s) NBUF []"
  defines "t \<equiv> fold binit_step [0..<n] s"
  shows "dlist (bc_next t) (bc_prev t) NBUF (rev [0..<n]) \<and> length (bufs t) = NBUF \<and> disk t = disk s \<and>
     (\<forall>i < NBUF. bufs t ! i = (if i < n then (bufs s ! i)\<lparr>b_lock := initsleeplock ''buffer'' (b_lock (bufs s ! i))\<rparr>
                               else bufs s ! i))"
  using assms(1) unfolding t_def
proof (induction n)
  case 0
  then show ?case using assms(2,3) by simp
next
  case (Suc n)
  let ?t = "fold binit_step [0..<n] s"
  have IH: "dlist (bc_next ?t) (bc_prev ?t) NBUF (rev [0..<n])" "length (bufs ?t) = NBUF" "disk ?t = disk s"
    "\<And>i. i < NBUF \<Longrightarrow> bufs ?t ! i = (if i < n then (bufs s ! i)\<lparr>b_lock := initsleeplock ''buffer'' (b_lock (bufs s ! i))\<rparr>
                               else bufs s ! i)"
    using Suc by simp_all
  let ?u = "upd_buf n (\<lambda>y. y\<lparr>b_lock := initsleeplock ''buffer'' (b_lock y)\<rparr>) ?t"
  have e: "fold binit_step [0..<Suc n] s = bc_push n ?u" by (simp add: binit_step_def)
  have "dlist (bc_next (bc_push n ?u)) (bc_prev (bc_push n ?u)) NBUF (n # rev [0..<n])"
    by (rule bc_push_dlist) (use IH(1) Suc.prems in simp_all)
  moreover have "bufs ?u ! i = (if i < Suc n then (bufs s ! i)\<lparr>b_lock := initsleeplock ''buffer'' (b_lock (bufs s ! i))\<rparr>
                               else bufs s ! i)" if "i < NBUF" for i
    using IH(2,4) that Suc.prems by (cases "i = n") (auto simp: upd_buf_def)
  ultimately show ?case unfolding e using IH(2,3) by (simp add: upd_buf_def)
qed

text \<open>\<open>binit\<close> on the zeroed cache: every buffer is free and empty.\<close>

definition zero_buf :: buf where
  "zero_buf = \<lparr>b_valid = False, b_dirty = False, b_dev = 0, b_blockno = 0, b_lock = zero_sleeplock, b_refcnt = 0,
     b_data = replicate BSIZE 0\<rparr>"

lemma binit_inv:
  assumes "bufs s = replicate NBUF zero_buf" and "\<And>bno. length (disk s bno) = BSIZE"
  shows "bc_inv (rev [0..<NBUF]) (binit s)" "bview (binit s) = disk s"
    "\<And>i. i < NBUF \<Longrightarrow> bufs (binit s) ! i = zero_buf\<lparr>b_lock := initsleeplock ''buffer'' zero_sleeplock\<rparr>"
proof -
  let ?s = "s\<lparr>bcache_lock := initlock ''bcache'' (bcache_lock s),
          bc_next := (bc_next s)(NBUF := NBUF), bc_prev := (bc_prev s)(NBUF := NBUF)\<rparr>"
  have e: "binit s = fold binit_step [0..<NBUF] ?s" by (simp only: binit_def)
  have len: "length (bufs ?s) = NBUF" using assms(1) by simp
  have d0: "dlist (bc_next ?s) (bc_prev ?s) NBUF []" by (simp add: dlist_def)
  note F = binit_fold [OF order_refl len d0, folded e]
  have b: "bufs (binit s) ! i = zero_buf\<lparr>b_lock := initsleeplock ''buffer'' zero_sleeplock\<rparr>" if "i < NBUF" for i
    using F that assms(1) by (simp add: zero_buf_def)
  have dk: "disk (binit s) = disk s" using F by simp
  have dl: "dlist (bc_next (binit s)) (bc_prev (binit s)) NBUF (rev [0..<NBUF])" "length (bufs (binit s)) = NBUF"
    using F by blast+
  show i: "bc_inv (rev [0..<NBUF]) (binit s)"
    using dl b dk assms(2)
    by (simp add: bc_inv_def bufs_distinct_def buf_ok_def zero_buf_def initsleeplock_def zero_sleeplock_def atLeast0LessThan)
  show "bview (binit s) = disk s"
  proof
    fix n
    have "bview (binit s) n = disk (binit s) n"
      by (rule bview_uncached) (use dl(2) b in \<open>auto simp: holds_block_def zero_buf_def\<close>)
    then show "bview (binit s) n = disk s n" using dk by simp
  qed
  show "\<And>i. i < NBUF \<Longrightarrow> bufs (binit s) ! i = zero_buf\<lparr>b_lock := initsleeplock ''buffer'' zero_sleeplock\<rparr>"
    by (rule b)
qed


lemma bread_of_bget:
  assumes "bget me dev bno s = Inr (b, t)" and "holdingsleep me (b_lock (bufs t ! b)) t"
    and "b_dev (bufs t ! b) = 1" and "b_blockno (bufs t ! b) < disksize t"
  shows "\<exists>s'. bread me dev bno s = Inr (b, s')"
proof (cases "b_valid (bufs t ! b)")
  case True
  with assms(1) show ?thesis by (simp add: bread_def)
next
  case False
  then have "\<exists>s'. iderw me b t = Inr s'" using assms(2-4) by (simp add: iderw_def Let_def not_le)
  with assms(1) False show ?thesis by (auto simp: bread_def)
qed

text \<open>When a block can be read: it is on the disk, nobody holds it, and there is a buffer to put it in.\<close>

lemma bread_total:
  assumes inv: "bc_inv lru s" and rng: "bno < disksize s"
    and free: "\<And>c. c < NBUF \<Longrightarrow> b_dev (bufs s ! c) = 1 \<Longrightarrow> b_blockno (bufs s ! c) = bno \<Longrightarrow> \<not> sl_locked (b_lock (bufs s ! c))"
    and room: "(\<forall>c < NBUF. \<not> (b_dev (bufs s ! c) = 1 \<and> b_blockno (bufs s ! c) = bno)) \<Longrightarrow>
      \<exists>c < NBUF. \<not> b_dirty (bufs s ! c) \<and> \<not> sl_locked (b_lock (bufs s ! c))"
  obtains b s' where "bread me 1 bno s = Inr (b, s')"
proof -
  let ?P = "\<lambda>b. b_dev (bufs s ! b) = 1 \<and> b_blockno (bufs s ! b) = bno"
  let ?Q = "\<lambda>b. b_refcnt (bufs s ! b) = 0 \<and> \<not> b_dirty (bufs s ! b)"
  have d: "dpath (bc_next s) (bc_prev s) NBUF lru NBUF" "NBUF \<notin> set lru" "distinct lru" "set lru = {..<NBUF}"
    and len: "length (bufs s) = NBUF"
    using inv by (auto simp: bc_inv_def dlist_def)
  then have l: "length lru < Suc NBUF" using distinct_card [OF d(3)] by simp
  note w1 = bc_walk_next [OF d(1,2) l, of ?P] and w2 = bc_walk_prev [OF d(1,2) l, of ?Q]
  have acq: "buf_acquire me c (set_buf c x s) = Inr (c, set_buf c (x\<lparr>b_lock := (b_lock x)\<lparr>sl_locked := True,
      sl_pid := p_pid (ptable s ! me)\<rparr>\<rparr>) s)" if "c < NBUF" "\<not> sl_locked (b_lock x)" for c x
    using that len by (simp add: buf_acquire_def acquiresleep_def upd_buf_set)
  show thesis
  proof (cases "find ?P lru")
    case (Some c)
    then have c: "c < NBUF" "?P c" using d(4) by (auto simp: find_Some_iff dest: nth_mem)
    with free have u: "\<not> sl_locked (b_lock (bufs s ! c))" by simp
    let ?x = "(bufs s ! c)\<lparr>b_refcnt := b_refcnt (bufs s ! c) + 1\<rparr>"
    have "bget me 1 bno s = Inr (c, set_buf c (?x\<lparr>b_lock := (b_lock ?x)\<lparr>sl_locked := True, sl_pid := p_pid (ptable s ! me)\<rparr>\<rparr>) s)"
      using w1 Some acq [of c ?x] c u by (simp add: bget_def upd_buf_set)
    from bread_of_bget [OF this] c len rng that show thesis by (auto simp: holdingsleep_def)
  next
    case None
    then have "\<forall>c < NBUF. \<not> ?P c" using d(4) by (auto simp: find_None_iff)
    from room [OF this] obtain r where r: "r < NBUF" "\<not> b_dirty (bufs s ! r)" "\<not> sl_locked (b_lock (bufs s ! r))"
      by blast
    then have "?Q r" using bc_inv_nth [OF inv r(1)] by (simp add: buf_ok_def)
    with r(1) d(4) obtain c where f: "find ?Q (rev lru) = Some c"
      by (cases "find ?Q (rev lru)") (auto simp: find_None_iff)
    then obtain i where "i < length (rev lru)" "?Q c" "c = rev lru ! i" by (auto simp: find_Some_iff)
    then have c0: "c \<in> set (rev lru)" "?Q c" using nth_mem by metis+
    then have c: "c < NBUF" using d(4) by auto
    have u: "\<not> sl_locked (b_lock (bufs s ! c))"
      using bc_inv_nth [OF inv c] c0(2) by (auto simp: buf_ok_def split: if_splits)
    let ?x = "(bufs s ! c)\<lparr>b_dev := 1, b_blockno := bno, b_valid := False, b_dirty := False, b_refcnt := 1\<rparr>"
    have "bget me 1 bno s = Inr (c, set_buf c (?x\<lparr>b_lock := (b_lock ?x)\<lparr>sl_locked := True, sl_pid := p_pid (ptable s ! me)\<rparr>\<rparr>) s)"
      using w1 w2 None f acq [of c ?x] c u by (simp add: bget_def upd_buf_set)
    from bread_of_bget [OF this] c len rng that show thesis by (auto simp: holdingsleep_def)
  qed
qed

lemma bread_ok:
  assumes "bc_inv lru s" and "bno < disksize s" and "\<And>b. b \<in> locked s \<Longrightarrow> b_blockno (bufs s ! b) \<noteq> bno"
    and "bno \<in> dirty_blocks s \<or> card (locked s) + card (dirty_blocks s) < NBUF"
  obtains b s' where "bread me 1 bno s = Inr (b, s')"
proof (rule bread_total [OF assms(1,2)])
  show "\<not> sl_locked (b_lock (bufs s ! c))"
    if "c < NBUF" "b_dev (bufs s ! c) = 1" "b_blockno (bufs s ! c) = bno" for c
    using assms(3) [of c] that by (auto simp: locked_def)
  assume none: "\<forall>c < NBUF. \<not> (b_dev (bufs s ! c) = 1 \<and> b_blockno (bufs s ! c) = bno)"
  have "bno \<notin> dirty_blocks s"
  proof
    assume "bno \<in> dirty_blocks s"
    then obtain i where i: "i < NBUF" "b_dirty (bufs s ! i)" "b_blockno (bufs s ! i) = bno" by (auto simp: dirty_blocks_iff)
    with bc_inv_nth [OF assms(1) i(1)] none show False by (simp add: buf_ok_def)
  qed
  with assms(4) show "\<exists>c < NBUF. \<not> b_dirty (bufs s ! c) \<and> \<not> sl_locked (b_lock (bufs s ! c))"
    using clean_buffer_exists [OF assms(1)] by blast
qed

section \<open>Properties\<close>

text \<open>
  Property C14. \<open>bread\<close> of a block of the disk that nobody holds returns, as long as some buffer is neither locked
  nor dirty, the locked buffer of that block with the contents that the callers of the cache last gave it, and
  what every block shows stays as it was.
\<close>

theorem bread_correct:
  assumes "bc_inv lru s" and "bno < disksize s"
    and "\<forall>c < NBUF. b_dev (bufs s ! c) = 1 \<and> b_blockno (bufs s ! c) = bno \<longrightarrow> \<not> sl_locked (b_lock (bufs s ! c))"
    and "\<exists>c < NBUF. \<not> b_dirty (bufs s ! c) \<and> \<not> sl_locked (b_lock (bufs s ! c))"
  shows "\<exists>b s'. bread me 1 bno s = Inr (b, s') \<and> held me b bno s' \<and> b_data (bufs s' ! b) = bview s bno \<and>
     bview s' = bview s \<and> bc_inv lru s' \<and> disk s' = disk s \<and> (\<forall>c. c \<noteq> b \<longrightarrow> bufs s' ! c = bufs s ! c)"
proof -
  obtain b s' where rd: "bread me 1 bno s = Inr (b, s')" using bread_total assms by metis
  obtain x where x: "b < NBUF" "s' = set_buf b x s" "holdingsleep me (b_lock x) s" "holds_block bno x"
    "bc_inv lru s'" "bview s' = bview s"
    using bread_form [OF assms(1) rd] by metis
  have len: "length (bufs s) = NBUF" using assms(1) by (simp add: bc_inv_def)
  then have h: "held me b bno s'" using x by (simp add: held_def)
  have "b_data (bufs s' ! b) = bview s bno" using bview_cached [OF x(5) x(1)] heldD(2) [OF h] x(6) by simp
  then show ?thesis using rd h x len by auto
qed

definition bio_boot :: bkernel where
  "bio_boot = binit (pkernel.extend (pipe_kernel wrapping_pipe)
     \<lparr>disk = (\<lambda>n. replicate BSIZE (if n = 7 then 7 else 0)), disksize = 1000, dwrites = [], bcache_lock = zero_lock,
      bufs = replicate NBUF zero_buf, bc_next = (\<lambda>_. 0), bc_prev = (\<lambda>_. 0)\<rparr>)"

text \<open>The state after \<open>binit\<close> on a disk of 1000 blocks, all zero but block 7.\<close>

lemma bio_boot_facts:
  "bc_inv (rev [0..<NBUF]) bio_boot" "bview bio_boot = disk bio_boot" "disksize bio_boot = 1000"
  "disk bio_boot = (\<lambda>n. replicate BSIZE (if n = 7 then 7 else 0))"
  "\<And>i. i < NBUF \<Longrightarrow> bufs bio_boot ! i = zero_buf\<lparr>b_lock := initsleeplock ''buffer'' zero_sleeplock\<rparr>"
proof -
  let ?s = "pkernel.extend (pipe_kernel wrapping_pipe)
     \<lparr>disk = (\<lambda>n. replicate BSIZE (if n = 7 then 7 else 0)), disksize = 1000, dwrites = [], bcache_lock = zero_lock,
      bufs = replicate NBUF zero_buf, bc_next = (\<lambda>_. 0), bc_prev = (\<lambda>_. 0)\<rparr>"
  have d: "bufs ?s = replicate NBUF zero_buf" "\<And>bno. length (disk ?s bno) = BSIZE" "disksize ?s = 1000"
    "disk ?s = (\<lambda>n. replicate BSIZE (if n = 7 then 7 else 0))"
    by (simp_all add: pkernel.defs)
  note i = binit_inv [OF d(1,2), folded bio_boot_def]
  have step: "disksize (binit_step b t) = disksize t" "disk (binit_step b t) = disk t" for b and t :: bkernel
    by (simp_all add: binit_step_def bc_push_def upd_buf_def)
  then have f: "disksize (fold binit_step xs t) = disksize t" "disk (fold binit_step xs t) = disk t" for xs and t :: bkernel
    by (induction xs arbitrary: t) simp_all
  show "bc_inv (rev [0..<NBUF]) bio_boot" by (rule i(1))
  show k: "disk bio_boot = (\<lambda>n. replicate BSIZE (if n = 7 then 7 else 0))" "disksize bio_boot = 1000"
    using d(3,4) f by (simp_all add: bio_boot_def binit_def)
  show "bview bio_boot = disk bio_boot" using i(2) k(1) d(4) by simp
  show "\<And>i. i < NBUF \<Longrightarrow> bufs bio_boot ! i = zero_buf\<lparr>b_lock := initsleeplock ''buffer'' zero_sleeplock\<rparr>" by (rule i(3))
qed

theorem bread_correct_witness:
  "\<exists>b s'. bread 0 1 7 bio_boot = Inr (b, s') \<and> b_data (bufs s' ! b) = replicate BSIZE 7"
proof -
  note B = bio_boot_facts
  have r: "(7::u32) < disksize bio_boot" by (simp add: B(3))
  have u: "\<not> b_dirty (bufs bio_boot ! c) \<and> \<not> sl_locked (b_lock (bufs bio_boot ! c))" if "c < NBUF" for c
    unfolding B(5) [OF that] by (simp add: zero_buf_def initsleeplock_def)
  have f: "\<forall>c < NBUF. b_dev (bufs bio_boot ! c) = 1 \<and> b_blockno (bufs bio_boot ! c) = 7 \<longrightarrow>
      \<not> sl_locked (b_lock (bufs bio_boot ! c))" using u by blast
  have "\<exists>c < NBUF. \<not> b_dirty (bufs bio_boot ! c) \<and> \<not> sl_locked (b_lock (bufs bio_boot ! c))"
    using u [of 0] by (intro exI [of _ 0]) simp
  from bread_correct [OF B(1) r f this, of 0] B(2,4) show ?thesis by auto
qed

end
