(* ===== verification/Layout.thy ===== *)
theory Layout
  imports Prelude
begin

text \<open>
  Byte strings and the on-disk formats of kernel/fs.h: little-endian fields, the super block, the 64-byte inodes of
  the inode blocks and the 16-byte directory entries.  Where the source casts \<open>bp->data\<close> to a pointer to one of
  these structures, the model reads the structure from the bytes and writes it back to them.
\<close>

section \<open>Byte strings\<close>

definition slice :: "'a list \<Rightarrow> nat \<Rightarrow> nat \<Rightarrow> 'a list" where
  "slice bs off n = take n (drop off bs)"

text \<open>\<open>memmove\<close> of the bytes \<open>xs\<close> into an array at an offset.\<close>

definition splice :: "'a list \<Rightarrow> nat \<Rightarrow> 'a list \<Rightarrow> 'a list" where
  "splice bs off xs = take off bs @ xs @ drop (off + length xs) bs"

definition bytes16 :: "u16 \<Rightarrow> u8 list" where
  "bytes16 v = [ucast v, ucast (drop_bit 8 v)]"

definition bytes32 :: "u32 \<Rightarrow> u8 list" where
  "bytes32 v = [ucast v, ucast (drop_bit 8 v), ucast (drop_bit 16 v), ucast (drop_bit 24 v)]"

definition word16 :: "u8 list \<Rightarrow> u16" where
  "word16 bs = ucast (bs ! 0) OR push_bit 8 (ucast (bs ! 1))"

definition word32 :: "u8 list \<Rightarrow> u32" where
  "word32 bs =
     ucast (bs ! 0) OR push_bit 8 (ucast (bs ! 1)) OR push_bit 16 (ucast (bs ! 2)) OR push_bit 24 (ucast (bs ! 3))"

definition get16 :: "u8 list \<Rightarrow> nat \<Rightarrow> u16" where
  "get16 bs off = word16 (slice bs off 2)"

definition get32 :: "u8 list \<Rightarrow> nat \<Rightarrow> u32" where
  "get32 bs off = word32 (slice bs off 4)"

definition put32 :: "u8 list \<Rightarrow> nat \<Rightarrow> u32 \<Rightarrow> u8 list" where
  "put32 bs off v = splice bs off (bytes32 v)"

lemma length_bytes [simp]: "length (bytes16 v) = 2" "length (bytes32 w) = 4"
  by (simp_all add: bytes16_def bytes32_def)

lemma word16_bytes16 [simp]: "word16 (bytes16 v) = v"
proof (rule bit_word_eqI)
  fix n assume "n < LENGTH(16)"
  then consider "n < 8" | "8 \<le> n" "n < 16" by fastforce
  then show "bit (word16 (bytes16 v)) n = bit v n"
    by cases (auto simp: word16_def bytes16_def bit_simps)
qed

lemma word32_bytes32 [simp]: "word32 (bytes32 v) = v"
proof (rule bit_word_eqI)
  fix n assume "n < LENGTH(32)"
  then consider "n < 8" | "8 \<le> n" "n < 16" | "16 \<le> n" "n < 24" | "24 \<le> n" "n < 32" by fastforce
  then show "bit (word32 (bytes32 v)) n = bit v n"
    by cases (auto simp: word32_def bytes32_def bit_simps)
qed

lemma length_splice [simp]: "off + length xs \<le> length bs \<Longrightarrow> length (splice bs off xs) = length bs"
  by (simp add: splice_def)

lemma length_slice [simp]: "length (slice bs off n) = min n (length bs - off)"
  by (simp add: slice_def)

lemma slice_splice_same [simp]:
  "off + length xs \<le> length bs \<Longrightarrow> n = length xs \<Longrightarrow> slice (splice bs off xs) off n = xs"
  by (simp add: slice_def splice_def)

lemma nth_splice:
  "off + length xs \<le> length bs \<Longrightarrow> i < length bs \<Longrightarrow>
     splice bs off xs ! i = (if off \<le> i \<and> i < off + length xs then xs ! (i - off) else bs ! i)"
  by (auto simp: splice_def nth_append)

lemma slice_splice_other:
  assumes "off + length xs \<le> length bs" and "i + n \<le> off \<or> off + length xs \<le> i" and "i + n \<le> length bs"
  shows "slice (splice bs off xs) i n = slice bs i n"
proof (rule nth_equalityI)
  show "length (slice (splice bs off xs) i n) = length (slice bs i n)" using assms by simp
  fix k assume "k < length (slice (splice bs off xs) i n)"
  then have "k < n" by simp
  then show "slice (splice bs off xs) i n ! k = slice bs i n ! k"
    using assms by (auto simp: slice_def nth_splice)
qed

lemma nth_slice [simp]: "k < n \<Longrightarrow> off + n \<le> length bs \<Longrightarrow> slice bs off n ! k = bs ! (off + k)"
  by (simp add: slice_def)

lemma splice_slice: "off + n \<le> length bs \<Longrightarrow> splice bs off (slice bs off n) = bs"
  by (rule nth_equalityI) (auto simp: nth_splice)

lemma length_put32 [simp]: "off + 4 \<le> length bs \<Longrightarrow> length (put32 bs off v) = length bs"
  by (simp add: put32_def)

lemma get32_put32_same [simp]: "off + 4 \<le> length bs \<Longrightarrow> get32 (put32 bs off v) off = v"
  by (simp add: get32_def put32_def)

lemma get32_put32_other:
  "off + 4 \<le> length bs \<Longrightarrow> i + 4 \<le> length bs \<Longrightarrow> i + 4 \<le> off \<or> off + 4 \<le> i \<Longrightarrow> get32 (put32 bs off v) i = get32 bs i"
  by (simp add: get32_def put32_def slice_splice_other)

section \<open>Structures\<close>

abbreviation NDIRECT :: nat where "NDIRECT \<equiv> 12"
abbreviation NINDIRECT :: nat where "NINDIRECT \<equiv> 128"
abbreviation MAXFILE :: nat where "MAXFILE \<equiv> NDIRECT + NINDIRECT"
abbreviation IPB :: nat where "IPB \<equiv> 8"
abbreviation BPB :: nat where "BPB \<equiv> 4096"
abbreviation DIRSIZ :: nat where "DIRSIZ \<equiv> 14"
abbreviation DINODE_SIZE :: nat where "DINODE_SIZE \<equiv> 64"
abbreviation DIRENT_SIZE :: nat where "DIRENT_SIZE \<equiv> 16"

record superblock =
  sb_size :: u32
  sb_nblocks :: u32
  sb_ninodes :: u32
  sb_nlog :: u32
  sb_logstart :: u32
  sb_inodestart :: u32
  sb_bmapstart :: u32

definition superblock_of :: "u8 list \<Rightarrow> superblock" where
  "superblock_of bs =
     \<lparr>sb_size = get32 bs 0, sb_nblocks = get32 bs 4, sb_ninodes = get32 bs 8, sb_nlog = get32 bs 12,
      sb_logstart = get32 bs 16, sb_inodestart = get32 bs 20, sb_bmapstart = get32 bs 24\<rparr>"

record dinode =
  di_type :: u16
  di_major :: u16
  di_minor :: u16
  di_nlink :: u16
  di_size :: u32
  di_addrs :: "u32 list"

definition dinode_of :: "u8 list \<Rightarrow> dinode" where
  "dinode_of bs =
     \<lparr>di_type = get16 bs 0, di_major = get16 bs 2, di_minor = get16 bs 4, di_nlink = get16 bs 6,
      di_size = get32 bs 8, di_addrs = map (\<lambda>i. get32 bs (12 + 4 * i)) [0..<NDIRECT + 1]\<rparr>"

definition dinode_bytes :: "dinode \<Rightarrow> u8 list" where
  "dinode_bytes d =
     bytes16 (di_type d) @ bytes16 (di_major d) @ bytes16 (di_minor d) @ bytes16 (di_nlink d) @
     bytes32 (di_size d) @ concat (map bytes32 (di_addrs d))"

definition zero_dinode :: dinode where
  "zero_dinode = \<lparr>di_type = 0, di_major = 0, di_minor = 0, di_nlink = 0, di_size = 0,
     di_addrs = replicate (NDIRECT + 1) 0\<rparr>"

record dirent =
  de_inum :: u16
  de_name :: "u8 list"

definition dirent_of :: "u8 list \<Rightarrow> dirent" where
  "dirent_of bs = \<lparr>de_inum = get16 bs 0, de_name = slice bs 2 DIRSIZ\<rparr>"

definition dirent_bytes :: "dirent \<Rightarrow> u8 list" where
  "dirent_bytes de = bytes16 (de_inum de) @ de_name de"

definition IBLOCK :: "u32 \<Rightarrow> superblock \<Rightarrow> u32" where
  "IBLOCK i sb = i div of_nat IPB + sb_inodestart sb"

definition BBLOCK :: "u32 \<Rightarrow> superblock \<Rightarrow> u32" where
  "BBLOCK b sb = b div of_nat BPB + sb_bmapstart sb"

lemma length_concat_bytes32 [simp]: "length (concat (map bytes32 xs)) = 4 * length xs"
  by (induction xs) simp_all

lemma length_dinode_bytes [simp]: "length (di_addrs d) = NDIRECT + 1 \<Longrightarrow> length (dinode_bytes d) = DINODE_SIZE"
  by (simp add: dinode_bytes_def)

lemma length_dirent_bytes [simp]: "length (de_name de) = DIRSIZ \<Longrightarrow> length (dirent_bytes de) = DIRENT_SIZE"
  by (simp add: dirent_bytes_def)

lemma slice_append1: "off + n \<le> length xs \<Longrightarrow> slice (xs @ ys) off n = slice xs off n"
  by (simp add: slice_def)

lemma slice_append2: "length xs \<le> off \<Longrightarrow> slice (xs @ ys) off n = slice ys (off - length xs) n"
  by (simp add: slice_def)

lemma slice_all: "length xs = n \<Longrightarrow> slice xs 0 n = xs"
  by (simp add: slice_def)

lemma slice_concat32: "i < length xs \<Longrightarrow> slice (concat (map bytes32 xs)) (4 * i) 4 = bytes32 (xs ! i)"
proof (induction xs arbitrary: i)
  case (Cons x xs)
  then show ?case by (cases i) (simp_all add: slice_append1 slice_append2 slice_all)
qed simp

lemma dinode_roundtrip:
  assumes "length (di_addrs d) = NDIRECT + 1"
  shows "dinode_of (dinode_bytes d) = d"
proof -
  have "get32 (dinode_bytes d) (12 + 4 * i) = di_addrs d ! i" if "i < NDIRECT + 1" for i
    using that assms by (simp add: get32_def dinode_bytes_def slice_append2 slice_concat32)
  then have "di_addrs (dinode_of (dinode_bytes d)) = di_addrs d"
    using assms by (intro nth_equalityI) (simp_all add: dinode_of_def del: upt_Suc)
  moreover have "di_type (dinode_of (dinode_bytes d)) = di_type d" "di_major (dinode_of (dinode_bytes d)) = di_major d"
    "di_minor (dinode_of (dinode_bytes d)) = di_minor d" "di_nlink (dinode_of (dinode_bytes d)) = di_nlink d"
    "di_size (dinode_of (dinode_bytes d)) = di_size d"
    by (simp_all add: dinode_of_def get16_def get32_def dinode_bytes_def slice_append1 slice_append2 slice_all)
  ultimately show ?thesis by (cases d) (simp add: dinode_of_def)
qed

lemma dirent_roundtrip:
  assumes "length (de_name de) = DIRSIZ"
  shows "dirent_of (dirent_bytes de) = de"
  using assms by (cases de) (simp add: dirent_of_def dirent_bytes_def get16_def slice_append1 slice_append2 slice_all)

end
