(* ===== verification/Log.thy ===== *)
theory Log
  imports Bio Layout
begin

text \<open>
  kernel/log.c: the redo log that makes a group of file system calls atomic with respect to crashes.  \<open>readsb\<close> of
  fs.c stands here because \<open>initlog\<close> calls it.  \<open>begin_op\<close> and \<open>end_op\<close> are the atomic steps that the source
  makes of them with \<open>log.lock\<close>; \<open>commit\<close> is a run of the calling process \<open>me\<close>.
\<close>

abbreviation LOGSIZE :: nat where "LOGSIZE \<equiv> 30"

section \<open>Definitions\<close>

record log =
  lg_lock :: spinlock
  lg_start :: u32
  lg_size :: int
  lg_outstanding :: int
  lg_committing :: bool
  lg_dev :: u32
  lh_n :: int
  lh_block :: "u32 list"

record lkernel = bkernel +
  log :: log

definition upd_log :: "(log \<Rightarrow> log) \<Rightarrow> 'a lkernel_scheme \<Rightarrow> 'a lkernel_scheme" where
  "upd_log f s = s\<lparr>log := f (log s)\<rparr>"

definition readsb :: "nat \<Rightarrow> u32 \<Rightarrow> 'a bkernel_scheme \<Rightarrow> (superblock \<times> 'a bkernel_scheme) res" where
  "readsb me dev s =
     bind_res (bread me dev 1 s) (\<lambda>(bp, s1).
     bind_res (brelse me bp s1) (\<lambda>s2.
     Inr (superblock_of (b_data (bufs s1 ! bp)), s2)))"

text \<open>The body of the loop of \<open>install_trans\<close>, for one block of the log.\<close>

definition install_block :: "nat \<Rightarrow> nat \<Rightarrow> 'a lkernel_scheme \<Rightarrow> 'a lkernel_scheme res" where
  "install_block me tail s =
     bind_res (bread me (lg_dev (log s)) (lg_start (log s) + of_nat tail + 1) s) (\<lambda>(lbuf, s1).
     bind_res (bread me (lg_dev (log s1)) (lh_block (log s1) ! tail) s1) (\<lambda>(dbuf, s2).
     bind_res (bwrite me dbuf (upd_buf dbuf (\<lambda>x. x\<lparr>b_data := b_data (bufs s2 ! lbuf)\<rparr>) s2)) (\<lambda>s3.
     bind_res (brelse me lbuf s3) (\<lambda>s4.
     brelse me dbuf s4))))"

primrec install_from :: "nat \<Rightarrow> nat list \<Rightarrow> 'a lkernel_scheme \<Rightarrow> 'a lkernel_scheme res" where
  "install_from me [] s = Inr s"
| "install_from me (t # ts) s = bind_res (install_block me t s) (install_from me ts)"

definition install_trans :: "nat \<Rightarrow> 'a lkernel_scheme \<Rightarrow> 'a lkernel_scheme res" where
  "install_trans me s = install_from me [0..<nat (lh_n (log s))] s"

text \<open>
  The header block: the count and then the block numbers.  A count above \<open>LOGSIZE\<close> would be read into memory behind
  the array.
\<close>

definition header_of :: "int \<Rightarrow> u32 list \<Rightarrow> u8 list \<Rightarrow> u8 list" where
  "header_of n bl d = fold (\<lambda>i x. put32 x (4 + 4 * i) (bl ! i)) [0..<nat n] (put32 d 0 (of_int n))"

definition read_head :: "nat \<Rightarrow> 'a lkernel_scheme \<Rightarrow> 'a lkernel_scheme res" where
  "read_head me s =
     bind_res (bread me (lg_dev (log s)) (lg_start (log s)) s) (\<lambda>(b, s1).
       let d = b_data (bufs s1 ! b); n = sint (get32 d 0)
       in if n > int LOGSIZE then Inl (Undefined ''read_head'')
          else brelse me b
                 (upd_log (\<lambda>l. l\<lparr>lh_n := n, lh_block := map (\<lambda>i. get32 d (4 + 4 * i)) [0..<nat n] @
                                                       drop (nat n) (lh_block l)\<rparr>) s1))"

definition write_head :: "nat \<Rightarrow> 'a lkernel_scheme \<Rightarrow> 'a lkernel_scheme res" where
  "write_head me s =
     bind_res (bread me (lg_dev (log s)) (lg_start (log s)) s) (\<lambda>(b, s1).
     bind_res (bwrite me b
                 (upd_buf b (\<lambda>x. x\<lparr>b_data := header_of (lh_n (log s1)) (lh_block (log s1)) (b_data x)\<rparr>) s1)) (\<lambda>s2.
     brelse me b s2))"

definition recover_from_log :: "nat \<Rightarrow> 'a lkernel_scheme \<Rightarrow> 'a lkernel_scheme res" where
  "recover_from_log me s =
     bind_res (read_head me s) (\<lambda>s1.
     bind_res (install_trans me s1) (\<lambda>s2.
     write_head me (upd_log (\<lambda>l. l\<lparr>lh_n := 0\<rparr>) s2)))"

definition initlog :: "nat \<Rightarrow> u32 \<Rightarrow> 'a lkernel_scheme \<Rightarrow> 'a lkernel_scheme res" where
  "initlog me dev s =
     guard_res (4 + 4 * LOGSIZE \<ge> BSIZE) ''initlog: too big logheader''
       (bind_res (readsb me dev (upd_log (\<lambda>l. l\<lparr>lg_lock := initlock ''log'' (lg_lock l)\<rparr>) s)) (\<lambda>(sb, s1).
          recover_from_log me
            (upd_log (\<lambda>l. l\<lparr>lg_start := sb_logstart sb, lg_size := sint (sb_nlog sb), lg_dev := dev\<rparr>) s1)))"

definition begin_op :: "'a lkernel_scheme \<Rightarrow> 'a lkernel_scheme res" where
  "begin_op s =
     (if lg_committing (log s) then Inl (Waits CLog)
      else if lh_n (log s) + (lg_outstanding (log s) + 1) * MAXOPBLOCKS > int LOGSIZE then Inl (Waits CLog)
      else Inr (upd_log (\<lambda>l. l\<lparr>lg_outstanding := lg_outstanding l + 1\<rparr>) s))"

text \<open>One block of \<open>write_log\<close>.\<close>

definition write_log_block :: "nat \<Rightarrow> nat \<Rightarrow> 'a lkernel_scheme \<Rightarrow> 'a lkernel_scheme res" where
  "write_log_block me tail s =
     bind_res (bread me (lg_dev (log s)) (lg_start (log s) + of_nat tail + 1) s) (\<lambda>(to, s1).
     bind_res (bread me (lg_dev (log s1)) (lh_block (log s1) ! tail) s1) (\<lambda>(from, s2).
     bind_res (bwrite me to (upd_buf to (\<lambda>x. x\<lparr>b_data := b_data (bufs s2 ! from)\<rparr>) s2)) (\<lambda>s3.
     bind_res (brelse me from s3) (\<lambda>s4.
     brelse me to s4))))"

primrec write_log_from :: "nat \<Rightarrow> nat list \<Rightarrow> 'a lkernel_scheme \<Rightarrow> 'a lkernel_scheme res" where
  "write_log_from me [] s = Inr s"
| "write_log_from me (t # ts) s = bind_res (write_log_block me t s) (write_log_from me ts)"

definition write_log :: "nat \<Rightarrow> 'a lkernel_scheme \<Rightarrow> 'a lkernel_scheme res" where
  "write_log me s = write_log_from me [0..<nat (lh_n (log s))] s"

definition commit :: "nat \<Rightarrow> 'a lkernel_scheme \<Rightarrow> 'a lkernel_scheme res" where
  "commit me s =
     (if lh_n (log s) > 0
      then bind_res (write_log me s) (\<lambda>s1.
           bind_res (write_head me s1) (\<lambda>s2.
           bind_res (install_trans me s2) (\<lambda>s3.
           write_head me (upd_log (\<lambda>l. l\<lparr>lh_n := 0\<rparr>) s3))))
      else Inr s)"

definition end_op :: "nat \<Rightarrow> 'a lkernel_scheme \<Rightarrow> 'a lkernel_scheme res" where
  "end_op me s =
     (let s1 = upd_log (\<lambda>l. l\<lparr>lg_outstanding := lg_outstanding l - 1\<rparr>) s
      in guard_res (lg_committing (log s1)) ''log.committing''
           (if lg_outstanding (log s1) = 0
            then bind_res (commit me (upd_log (\<lambda>l. l\<lparr>lg_committing := True\<rparr>) s1)) (\<lambda>s2.
                   Inr (wakeup CLog (upd_log (\<lambda>l. l\<lparr>lg_committing := False\<rparr>) s2)))
            else Inr (wakeup CLog s1)))"

definition log_write :: "nat \<Rightarrow> 'a lkernel_scheme \<Rightarrow> 'a lkernel_scheme res" where
  "log_write b s =
     guard_res (lh_n (log s) \<ge> int LOGSIZE \<or> lh_n (log s) \<ge> lg_size (log s) - 1) ''too big a transaction''
       (guard_res (lg_outstanding (log s) < 1) ''log_write outside of trans''
         (let n = nat (lh_n (log s)); bno = b_blockno (bufs s ! b);
              i = (case find_index (\<lambda>x. x = bno) (take n (lh_block (log s))) of Some j \<Rightarrow> j | None \<Rightarrow> n)
          in Inr (upd_buf b (\<lambda>x. x\<lparr>b_dirty := True\<rparr>)
                   (upd_log (\<lambda>l. l\<lparr>lh_block := (lh_block l)[i := bno],
                                   lh_n := (if i = n then lh_n l + 1 else lh_n l)\<rparr>) s))))"

section \<open>The log outside the cache\<close>

lemma dk_frame_log: "dk_frame s s' \<Longrightarrow> log s' = log s"
proof -
  assume "dk_frame s s'"
  then have e: "s' = s\<lparr>ptable := ptable s', disk := disk s', dwrites := dwrites s', bufs := bufs s',
      bc_next := bc_next s', bc_prev := bc_prev s'\<rparr>"
    by (simp add: dk_frame_def)
  show "log s' = log s" by (subst e) simp
qed

lemma upd_log_simps [simp]:
  "log (upd_log f s) = f (log s)" "bufs (upd_log f s) = bufs s" "disk (upd_log f s) = disk s"
  "log (upd_buf b g s) = log s" "dwrites (upd_log f s) = dwrites s" "disksize (upd_log f s) = disksize s"
  "ptable (upd_log f s) = ptable s" "log (wakeup c s) = log s"
  by (simp_all add: upd_log_def upd_buf_def wakeup_def wakeup1_def)

lemma write_log_block_log: "write_log_block me t s = Inr s' \<Longrightarrow> log s' = log s"
  unfolding write_log_block_def
  by (auto simp: bind_res_eq_Inr_iff dest!: cache_frames [THEN dk_frame_log])

lemma write_log_from_log: "write_log_from me ts s = Inr s' \<Longrightarrow> log s' = log s"
  by (induction ts arbitrary: s) (auto simp: bind_res_eq_Inr_iff dest: write_log_block_log)

lemma install_block_log: "install_block me t s = Inr s' \<Longrightarrow> log s' = log s"
  unfolding install_block_def
  by (auto simp: bind_res_eq_Inr_iff dest!: cache_frames [THEN dk_frame_log])

lemma install_from_log: "install_from me ts s = Inr s' \<Longrightarrow> log s' = log s"
  by (induction ts arbitrary: s) (auto simp: bind_res_eq_Inr_iff dest: install_block_log)

lemma write_head_log: "write_head me s = Inr s' \<Longrightarrow> log s' = log s"
  unfolding write_head_def
  by (auto simp: bind_res_eq_Inr_iff dest!: cache_frames [THEN dk_frame_log])

lemma commit_log:
  assumes "commit me s = Inr s'" and "0 \<le> lh_n (log s)"
  shows "log s' = (log s)\<lparr>lh_n := 0\<rparr>"
  using assms
  by (auto simp: commit_def write_log_def install_trans_def bind_res_eq_Inr_iff split: if_splits
      dest!: write_log_from_log install_from_log write_head_log)

section \<open>Space in the log\<close>

text \<open>
  File system calls of any number of processes: each begins, logs blocks and ends; \<open>us\<close> counts, for each call in
  progress, the blocks that it has added to the log.  A call that logs a block that is in the log already adds
  none.  Whatever else the kernel does leaves the log alone.
\<close>

inductive log_reach :: "nat \<Rightarrow> 'a lkernel_scheme \<Rightarrow> nat list \<Rightarrow> bool" for me where
  idle: "lh_n (log s) = 0 \<Longrightarrow> lg_outstanding (log s) = 0 \<Longrightarrow> \<not> lg_committing (log s) \<Longrightarrow>
     length (lh_block (log s)) = LOGSIZE \<Longrightarrow> log_reach me s []"
| begins: "log_reach me s us \<Longrightarrow> begin_op s = Inr s' \<Longrightarrow> log_reach me s' (us @ [0])"
| writes: "log_reach me s us \<Longrightarrow> k < length us \<Longrightarrow> int (us ! k) < MAXOPBLOCKS \<Longrightarrow> log_write b s = Inr s' \<Longrightarrow>
     log_reach me s' (if lh_n (log s') = lh_n (log s) then us else us[k := Suc (us ! k)])"
| ends: "log_reach me s us \<Longrightarrow> k < length us \<Longrightarrow> end_op me s = Inr s' \<Longrightarrow> log_reach me s' (take k us @ drop (Suc k) us)"
| other: "log_reach me s us \<Longrightarrow> log s' = log s \<Longrightarrow> log_reach me s' us"

definition reserved :: "nat list \<Rightarrow> int" where
  "reserved us = (\<Sum>u \<leftarrow> us. MAXOPBLOCKS - int u)"

definition log_space :: "'a lkernel_scheme \<Rightarrow> nat list \<Rightarrow> bool" where
  "log_space s us \<longleftrightarrow>
     0 \<le> lh_n (log s) \<and> \<not> lg_committing (log s) \<and> lg_outstanding (log s) = int (length us) \<and>
     length (lh_block (log s)) = LOGSIZE \<and> (\<forall>u \<in> set us. int u \<le> MAXOPBLOCKS) \<and>
     lh_n (log s) + reserved us \<le> int LOGSIZE"

lemma reserved_simps [simp]: "reserved [] = 0" "reserved (u # us) = MAXOPBLOCKS - int u + reserved us"
  "reserved (us @ vs) = reserved us + reserved vs"
  by (simp_all add: reserved_def)

lemma reserved_upper: "\<forall>u \<in> set us. int u \<le> MAXOPBLOCKS \<Longrightarrow> 0 \<le> reserved us \<and> reserved us \<le> MAXOPBLOCKS * int (length us)"
  by (induction us) auto

lemma reserved_update: "k < length us \<Longrightarrow> reserved (us[k := Suc (us ! k)]) = reserved us - 1"
proof (induction us arbitrary: k)
  case (Cons u us)
  then show ?case by (cases k) simp_all
qed simp

lemma reserved_remove:
  assumes "k < length us" and "\<forall>u \<in> set us. int u \<le> MAXOPBLOCKS"
  shows "reserved (take k us @ drop (Suc k) us) \<le> reserved us"
proof -
  have "us = take k us @ us ! k # drop (Suc k) us" using assms(1) by (simp add: id_take_nth_drop [symmetric])
  then have "reserved us = reserved (take k us) + (MAXOPBLOCKS - int (us ! k)) + reserved (drop (Suc k) us)"
    by (metis reserved_simps(2,3) add.assoc)
  moreover have "int (us ! k) \<le> MAXOPBLOCKS" using assms by simp
  ultimately show ?thesis by simp
qed

lemma log_write_log:
  assumes "log_write b s = Inr s'"
  shows "lh_n (log s') = lh_n (log s) \<or> lh_n (log s') = lh_n (log s) + 1"
    "lg_outstanding (log s') = lg_outstanding (log s)" "lg_committing (log s') = lg_committing (log s)"
    "length (lh_block (log s')) = length (lh_block (log s))" "lg_size (log s') = lg_size (log s)"
  using assms by (auto simp: log_write_def Let_def)

lemma end_op_log:
  assumes "end_op me s = Inr s'" and "0 \<le> lh_n (log s)"
  shows "lg_outstanding (log s') = lg_outstanding (log s) - 1" "\<not> lg_committing (log s')"
    "lh_block (log s') = lh_block (log s)" "lh_n (log s') = (if lg_outstanding (log s') = 0 then 0 else lh_n (log s))"
  using assms
  by (auto simp: end_op_def Let_def bind_res_eq_Inr_iff dest!: commit_log split: if_splits)

lemma log_reach_space: "log_reach me s us \<Longrightarrow> log_space s us"
proof (induction rule: log_reach.induct)
  case (idle s)
  then show ?case by (simp add: log_space_def)
next
  case (begins s us s')
  then have u: "\<forall>u \<in> set us. int u \<le> MAXOPBLOCKS" by (simp add: log_space_def)
  with begins reserved_upper [OF u] show ?case
    by (auto simp: log_space_def begin_op_def split: if_splits)
next
  case (writes s us k b s')
  from log_write_log [OF writes.hyps(4)] writes reserved_update [OF writes.hyps(2)] show ?case
    by (auto simp: log_space_def set_update_subset_insert [THEN subsetD] in_set_conv_nth nth_list_update split: if_splits)
next
  case (ends s us k s')
  then have n: "0 \<le> lh_n (log s)" and u: "\<forall>u \<in> set us. int u \<le> MAXOPBLOCKS" by (simp_all add: log_space_def)
  let ?vs = "take k us @ drop (Suc k) us"
  have vs: "set ?vs \<subseteq> set us" using set_take_subset set_drop_subset by (metis Un_subset_iff set_append)
  then have uv: "\<forall>u \<in> set ?vs. int u \<le> MAXOPBLOCKS" using u by blast
  have lv: "int (length ?vs) = int (length us) - 1" using ends.hyps(2) by simp
  have rv: "reserved ?vs \<le> reserved us" by (rule reserved_remove [OF ends.hyps(2) u])
  have zero: "reserved ?vs = 0" if "length ?vs = 0" using that by (metis length_0_conv reserved_simps(1))
  note E = end_op_log [OF ends.hyps(3) n]
  have "lh_n (log s') + reserved ?vs \<le> int LOGSIZE" "0 \<le> lh_n (log s')"
    using E(1,4) rv lv zero n ends.IH by (auto simp: log_space_def)
  then show ?case using E ends.IH lv uv unfolding log_space_def by simp
next
  case (other s us s')
  then show ?case by (simp add: log_space_def)
qed


lemma reserved_nth: "\<forall>u \<in> set us. int u \<le> MAXOPBLOCKS \<Longrightarrow> k < length us \<Longrightarrow> MAXOPBLOCKS - int (us ! k) \<le> reserved us"
proof (induction us arbitrary: k)
  case (Cons u us)
  then show ?case using reserved_upper [of us] by (cases k) force+
qed simp

text \<open>The steps of three calls that log ten blocks each, on a log that is one block short.\<close>

lemma log_write_new:
  assumes "bno \<notin> set (take m (lh_block (log s)))" and "lh_n (log s) = int m" and "m < LOGSIZE" and "int m < lg_size (log s) - 1"
    and "1 \<le> lg_outstanding (log s)" and "length (lh_block (log s)) = LOGSIZE" and "b_blockno (bufs s ! b) = bno"
  shows "\<exists>s'. log_write b s = Inr s' \<and> lh_n (log s') = int (Suc m) \<and> lg_size (log s') = lg_size (log s) \<and>
     lg_outstanding (log s') = lg_outstanding (log s) \<and> length (lh_block (log s')) = LOGSIZE \<and>
     take (Suc m) (lh_block (log s')) = take m (lh_block (log s)) @ [bno]"
proof -
  have "find_index (\<lambda>x. x = bno) (take m (lh_block (log s))) = None"
    using assms(1) by (auto simp: find_index_None_iff)
  then show ?thesis using assms by (simp add: log_write_def Let_def take_Suc_conv_app_nth)
qed

definition three_used :: "nat \<Rightarrow> nat list" where
  "three_used m = [min m 10, min (m - 10) 10, min (m - 20) 10]"

lemma three_used_step:
  assumes "m < 30"
  shows "m div 10 < length (three_used m)" "three_used m ! (m div 10) < 10"
    "(three_used m)[m div 10 := Suc (three_used m ! (m div 10))] = three_used (Suc m)"
proof -
  consider "m < 10" | "10 \<le> m" "m < 20" | "20 \<le> m" "m < 30" using assms by linarith
  then have "m div 10 = 0 \<and> m < 10 \<or> m div 10 = 1 \<and> 10 \<le> m \<and> m < 20 \<or> m div 10 = 2 \<and> 20 \<le> m \<and> m < 30"
    by cases auto
  then show "m div 10 < length (three_used m)" "three_used m ! (m div 10) < 10"
    "(three_used m)[m div 10 := Suc (three_used m ! (m div 10))] = three_used (Suc m)"
    by (auto simp: three_used_def numeral_2_eq_2)
qed

lemma three_ops_begin:
  fixes s :: lkernel
  assumes "lh_n (log s) = 0" "lg_outstanding (log s) = 0" "\<not> lg_committing (log s)"
    "length (lh_block (log s)) = LOGSIZE"
  shows "\<exists>s' :: lkernel. log_reach me s' (three_used 0) \<and> lh_n (log s') = 0 \<and> lg_size (log s') = lg_size (log s)"
proof -
  define up :: "lkernel \<Rightarrow> lkernel" where "up = upd_log (\<lambda>l. l\<lparr>lg_outstanding := lg_outstanding l + 1\<rparr>)"
  have b: "begin_op s = Inr (up s)" "begin_op (up s) = Inr (up (up s))" "begin_op (up (up s)) = Inr (up (up (up s)))"
    using assms by (simp_all add: begin_op_def up_def)
  have "log_reach me s []" using assms by (rule log_reach.idle)
  from log_reach.begins [OF log_reach.begins [OF log_reach.begins [OF this b(1)] b(2)] b(3)]
  have "log_reach me (up (up (up s))) (three_used 0)" by (simp add: three_used_def)
  then show ?thesis using assms by (intro exI [of _ "up (up (up s))"]) (simp add: up_def)
qed

lemma three_ops_fill:
  fixes s :: lkernel
  assumes "lh_n (log s) = 0" "lg_outstanding (log s) = 0" "\<not> lg_committing (log s)"
    "length (lh_block (log s)) = LOGSIZE" "30 \<le> lg_size (log s)" and "m \<le> 29"
  shows "\<exists>s' :: lkernel. log_reach me s' (three_used m) \<and> lh_n (log s') = int m \<and> lg_size (log s') = lg_size (log s) \<and>
     set (take m (lh_block (log s'))) \<subseteq> of_nat ` {..<m}"
  using \<open>m \<le> 29\<close>
proof (induction m)
  case 0
  from three_ops_begin [OF assms(1-4)] assms(5) show ?case by auto
next
  case (Suc m)
  then obtain t :: lkernel where t: "log_reach me t (three_used m)" "lh_n (log t) = int m" "lg_size (log t) = lg_size (log s)"
    "set (take m (lh_block (log t))) \<subseteq> of_nat ` {..<m}" by auto
  define t' where "t' = t\<lparr>bufs := [zero_buf\<lparr>b_blockno := of_nat m\<rparr>]\<rparr>"
  have r: "log_reach me t' (three_used m)" using t(1) by (rule log_reach.other) (simp add: t'_def)
  have sp: "log_space t' (three_used m)" using r by (rule log_reach_space)
  have new: "(of_nat m :: u32) \<notin> set (take m (lh_block (log t')))"
  proof
    assume "(of_nat m :: u32) \<in> set (take m (lh_block (log t')))"
    then obtain j where j: "j < m" "(of_nat m :: u32) = of_nat j" using t(4) by (auto simp: t'_def)
    then have "unat (of_nat m :: u32) = unat (of_nat j :: u32)" by simp
    with j(1) Suc.prems show False by (simp add: unat_of_nat_u32)
  qed
  have m30: "m < 30" using Suc.prems by simp
  obtain u where u: "log_write 0 t' = Inr u" "lh_n (log u) = int (Suc m)" "lg_size (log u) = lg_size (log s)"
    "take (Suc m) (lh_block (log u)) = take m (lh_block (log t')) @ [of_nat m]"
    using log_write_new [OF new, of 0] t(2,3) sp Suc.prems assms(5) by (auto simp: t'_def log_space_def three_used_def)
  have "log_reach me u (three_used (Suc m))"
    using log_reach.writes [OF r three_used_step(1) [OF m30] _ u(1)] three_used_step(2,3) [OF m30] u(2) t(2)
    by (simp add: t'_def)
  then show ?case using u t(4) by (intro exI [of _ u]) (auto simp: t'_def lessThan_Suc)
qed

section \<open>Properties\<close>


definition log_boot :: "int \<Rightarrow> lkernel" where
  "log_boot sz = bkernel.extend bio_boot
     \<lparr>log = \<lparr>lg_lock = zero_lock, lg_start = 2, lg_size = sz, lg_outstanding = 0, lg_committing = False, lg_dev = 1,
             lh_n = 0, lh_block = replicate LOGSIZE 0\<rparr>\<rparr>"

lemma log_log_boot: "log (log_boot sz) = \<lparr>lg_lock = zero_lock, lg_start = 2, lg_size = sz, lg_outstanding = 0,
    lg_committing = False, lg_dev = 1, lh_n = 0, lh_block = replicate LOGSIZE 0\<rparr>"
  by (simp add: log_boot_def bkernel.defs)


text \<open>
  Property C31. A log of 30 blocks, which is what \<open>mkfs\<close> makes (its \<open>nlog\<close> is \<open>LOGSIZE\<close> and includes the header), is one
  block short: three calls that log at most \<open>MAXOPBLOCKS\<close> blocks each and that \<open>begin_op\<close> has admitted can
  reach the panic of \<open>log_write\<close>.
\<close>

theorem log_one_block_short:
  fixes s :: lkernel
  assumes "lh_n (log s) = 0" and "lg_outstanding (log s) = 0" and "\<not> lg_committing (log s)"
    and "length (lh_block (log s)) = LOGSIZE" and "lg_size (log s) = 30"
  shows "\<exists>(s' :: lkernel) us k. log_reach me s' us \<and> lg_size (log s') = 30 \<and> k < length us \<and> int (us ! k) < MAXOPBLOCKS \<and>
     log_write b s' = Inl (Panic ''too big a transaction'')"
proof -
  obtain s' :: lkernel where s': "log_reach me s' (three_used 29)" "lh_n (log s') = int 29" "lg_size (log s') = 30"
    using three_ops_fill [OF assms(1-4), of 29 me] assms(5) by auto
  then have "log_write b s' = Inl (Panic ''too big a transaction'')" by (simp add: log_write_def)
  with s' show ?thesis by (intro exI [of _ s'] exI [of _ "three_used 29"] exI [of _ 2]) (simp add: three_used_def)
qed

theorem log_one_block_short_witness:
  "\<exists>(s' :: lkernel) us k. log_reach 0 s' us \<and> lg_size (log s') = 30 \<and> k < length us \<and> int (us ! k) < MAXOPBLOCKS \<and>
     log_write 0 s' = Inl (Panic ''too big a transaction'')"
  by (rule log_one_block_short [of "log_boot 30"]) (simp_all add: log_log_boot)

end
