(* ===== verification/Crash.thy ===== *)
theory Crash
  imports Log
begin

text \<open>
  What the log is for: a crash at any point of \<open>commit\<close>, followed by the recovery that runs when the system
  starts again, leaves the disk with all of the blocks of the transaction or with none of them.  The calls of the
  log are first described by what they do to the disk and to the blocks that the cache shows.
\<close>

section \<open>Copying a block\<close>

definition idle_cache :: "'a bkernel_scheme \<Rightarrow> bool" where
  "idle_cache s \<longleftrightarrow> (\<exists>lru. bc_inv lru s) \<and> locked s = {}"

definition apply_writes :: "(u32 \<times> u8 list) list \<Rightarrow> (u32 \<Rightarrow> u8 list) \<Rightarrow> u32 \<Rightarrow> u8 list" where
  "apply_writes ws f = fold (\<lambda>(b, d) g. g(b := d)) ws f"

lemma apply_writes_simps [simp]:
  "apply_writes [] f = f" "apply_writes (w # ws) f = apply_writes ws (f(fst w := snd w))"
  "apply_writes (ws @ vs) f = apply_writes vs (apply_writes ws f)"
  by (simp_all add: apply_writes_def split: prod.splits)

lemma apply_writes_other: "b \<notin> fst ` set ws \<Longrightarrow> apply_writes ws f b = f b"
  by (induction ws arbitrary: f) auto

text \<open>
  \<open>wrote ws D s s'\<close>: the writes \<open>ws\<close> have reached the disk and are what the cache shows, \<open>D\<close> are the blocks that
  are dirty afterwards, and no buffer is held.
\<close>

definition wrote :: "(u32 \<times> u8 list) list \<Rightarrow> u32 set \<Rightarrow> 'a bkernel_scheme \<Rightarrow> 'a bkernel_scheme \<Rightarrow> bool" where
  "wrote ws D s s' \<longleftrightarrow>
     idle_cache s' \<and> bview s' = apply_writes ws (bview s) \<and> disk s' = apply_writes ws (disk s) \<and>
     dirty_blocks s' = D \<and> dwrites s' = dwrites s @ ws \<and> dk_frame s s'"

lemma wrote_trans: "wrote ws D s s1 \<Longrightarrow> wrote vs E s1 s2 \<Longrightarrow> wrote (ws @ vs) E s s2"
  unfolding wrote_def by (auto intro: dk_frame_trans)

lemma wroteD:
  assumes "wrote ws D s s'"
  shows "idle_cache s'" "bview s' = apply_writes ws (bview s)" "disk s' = apply_writes ws (disk s)"
    "dirty_blocks s' = D" "dwrites s' = dwrites s @ ws" "dk_frame s s'" "disksize s' = disksize s"
  using assms dk_frameD unfolding wrote_def by blast+

text \<open>Two blocks are read, one of them gets new data and is written to the disk, and both are released.\<close>

lemma held_other: "held me b bno s \<Longrightarrow> dk_frame s s' \<Longrightarrow> bufs s' ! b = bufs s ! b \<Longrightarrow> held me b bno s'"
  using dk_frameD(2) [of s s'] woken_nth(2) [of "ptable s" "ptable s'" me] by (simp add: held_def holdingsleep_def)

lemma read_two:
  assumes idle: "idle_cache s" and ab: "a \<noteq> b" and a: "a < disksize s" "card (dirty_blocks s) < NBUF"
    and b: "b < disksize s" "b \<in> dirty_blocks s \<or> Suc (card (dirty_blocks s)) < NBUF"
  obtains p s1 q s2 lru where "bread me 1 a s = Inr (p, s1)" "bread me 1 b s1 = Inr (q, s2)" "p \<noteq> q" "bc_inv lru s2"
    "held me p a s2" "held me q b s2" "bview s2 = bview s" "disk s2 = disk s" "dwrites s2 = dwrites s"
    "dirty_blocks s2 = dirty_blocks s" "locked s2 = {p, q}" "dk_frame s s1" "dk_frame s s2"
    "b_dirty (bufs s2 ! p) \<or> b_data (bufs s2 ! p) = disk s a" "b_dirty (bufs s2 ! q) \<or> b_data (bufs s2 ! q) = disk s b"
proof -
  from idle obtain lru where inv: "bc_inv lru s" and lk: "locked s = {}" by (auto simp: idle_cache_def)
  obtain p s1 where r1: "bread me 1 a s = Inr (p, s1)"
    by (rule bread_ok [OF inv a(1)]) (use a(2) lk in auto)
  obtain i1: "bc_inv lru s1" "held me p a s1" "bview s1 = bview s" "bc_frame s s1" "locked s1 = insert p (locked s)"
    "dirty_blocks s1 = dirty_blocks s" "b_dirty (bufs s1 ! p) \<longleftrightarrow> a \<in> dirty_blocks s"
    "a \<notin> dirty_blocks s \<Longrightarrow> b_data (bufs s1 ! p) = disk s a"
    by (rule bread_spec [OF inv r1]) blast
  have blk: "b_blockno (bufs s1 ! p) = a" using heldD(2) [OF i1(2)] by (simp add: holds_block_def)
  have b1: "b < disksize s1" using b(1) bc_frameD(2) [OF i1(4)] by simp
  obtain q s2 where r2: "bread me 1 b s1 = Inr (q, s2)"
    by (rule bread_ok [OF i1(1) b1]) (use b(2) lk i1(5,6) blk ab in auto)
  obtain i2: "bc_inv lru s2" "held me q b s2" "bview s2 = bview s1" "bc_frame s1 s2" "locked s2 = insert q (locked s1)"
    "q \<notin> locked s1" "dirty_blocks s2 = dirty_blocks s1" "\<And>c. c \<noteq> q \<Longrightarrow> bufs s2 ! c = bufs s1 ! c"
    "b_dirty (bufs s2 ! q) \<longleftrightarrow> b \<in> dirty_blocks s1" "b \<notin> dirty_blocks s1 \<Longrightarrow> b_data (bufs s2 ! q) = disk s1 b"
    by (rule bread_spec [OF i1(1) r2]) blast
  have pq: "p \<noteq> q" using i2(6) i1(5) by auto
  have d1: "disk s1 = disk s" "dwrites s1 = dwrites s" using bc_frameD [OF i1(4)] by simp_all
  have d2: "disk s2 = disk s1" "dwrites s2 = dwrites s1" using bc_frameD [OF i2(4)] by simp_all
  have f: "dk_frame s s1" "dk_frame s1 s2" using i1(4) i2(4) by (auto intro: bc_frame_dk)
  have hp: "held me p a s2" by (rule held_other [OF i1(2) f(2) i2(8) [OF pq]])
  have lk2: "locked s2 = {p, q}" using i2(5) i1(5) lk by auto
  have cp: "b_dirty (bufs s2 ! p) \<or> b_data (bufs s2 ! p) = disk s a" using i1(7,8) i2(8) [OF pq] by auto
  have cq: "b_dirty (bufs s2 ! q) \<or> b_data (bufs s2 ! q) = disk s b" using i2(9,10) d1(1) by auto
  show thesis
    by (rule that [OF r1 r2 pq i2(1) hp i2(2) _ _ _ _ lk2 f(1) dk_frame_trans [OF f] cp cq])
      (use i1(3,6) i2(3,7) d1 d2 in simp_all)
qed

lemma write_release:
  assumes inv: "bc_inv lru s" and pq: "p \<noteq> q" and hp: "held me p a s" and hq: "held me q b s"
    and lk: "locked s = {p, q}" and a: "a < disksize s" and d: "length d = BSIZE"
    and cq: "b_dirty (bufs s ! q) \<or> b_data (bufs s ! q) = disk s b" and ab: "a \<noteq> b"
  obtains s3 where "bwrite me p (upd_buf p (\<lambda>x. x\<lparr>b_data := d\<rparr>) s) = Inr s3"
    "\<exists>s'. bind_res (brelse me q s3) (brelse me p) = Inr s' \<and> wrote [(a, d)] (dirty_blocks s - {a}) s s'"
    "\<exists>s'. bind_res (brelse me p s3) (brelse me q) = Inr s' \<and> wrote [(a, d)] (dirty_blocks s - {a}) s s'"
proof -
  let ?x = "(bufs s ! p)\<lparr>b_data := d, b_dirty := b_dirty (bufs s ! p)\<rparr>"
  define s2 where "s2 = set_buf p ?x s"
  have e: "upd_buf p (\<lambda>x. x\<lparr>b_data := d\<rparr>) s = s2" by (simp add: s2_def upd_buf_set)
  note S = set_data [OF inv hp d, of "b_dirty (bufs s ! p)", folded s2_def]
    and T = set_data_sets [OF inv hp, of "b_dirty (bufs s ! p)" d, folded s2_def]
  have D: "dirty_blocks s2 - {a} = dirty_blocks s - {a}" using T(2) by (auto split: if_splits)
  have a2: "a < disksize s2" using a by (simp add: s2_def)
  obtain s3 where w: "bwrite me p s2 = Inr s3" "bc_inv lru s3" "held me p a s3" "bview s3 = bview s2" "dk_frame s2 s3"
    "locked s3 = locked s2" "dirty_blocks s3 = dirty_blocks s2 - {a}" "disk s3 = (disk s2)(a := bview s2 a)"
    "dwrites s3 = dwrites s2 @ [(a, bview s2 a)]" "\<And>c. c \<noteq> p \<Longrightarrow> bufs s3 ! c = bufs s2 ! c" "b_data (bufs s3 ! p) = bview s2 a"
    using bwrite_sets [OF S(1,2) a2] by metis
  have v: "bview s3 = (bview s)(a := d)" "disk s3 = (disk s)(a := d)" "dwrites s3 = dwrites s @ [(a, d)]"
    using w S(3) by (simp_all add: s2_def)
  have "dk_frame s s2" unfolding s2_def by (rule bc_frame_dk [OF bc_frame_set_buf])
  from dk_frame_trans [OF this w(5)] have f3: "dk_frame s s3" .
  have bq: "bufs s3 ! q = bufs s ! q" using w(10) [of q] pq by (simp add: s2_def)
  have hq3: "held me q b s3" by (rule held_other [OF hq f3 bq])
  have cq3: "b_dirty (bufs s3 ! q) \<or> b_data (bufs s3 ! q) = disk s3 b" using cq bq v(2) ab by simp
  have cp3: "b_dirty (bufs s3 ! p) \<or> b_data (bufs s3 ! p) = disk s3 a" using w(8,11) by simp
  have lk3: "locked s3 = {p, q}" using w(6) T(1) lk by simp
  have rel: "\<exists>s'. bind_res (brelse me c1 s3) (brelse me c2) = Inr s' \<and> wrote [(a, d)] (dirty_blocks s - {a}) s s'"
    if c: "held me c1 n1 s3" "held me c2 n2 s3" "{c1, c2} = {p, q}" "c1 \<noteq> c2"
      and cl1: "b_dirty (bufs s3 ! c1) \<or> b_data (bufs s3 ! c1) = disk s3 n1"
      and cl2: "b_dirty (bufs s3 ! c2) \<or> b_data (bufs s3 ! c2) = disk s3 n2" for c1 c2 n1 n2
  proof -
    obtain s4 lru4 where r4: "brelse me c1 s3 = Inr s4" "bc_inv lru4 s4" "bview s4 = bview s3" "bc_frame s3 s4"
      "locked s4 = locked s3 - {c1}" "dirty_blocks s4 = dirty_blocks s3" "\<And>c. c \<noteq> c1 \<Longrightarrow> bufs s4 ! c = bufs s3 ! c"
      using brelse_sets [OF w(2) c(1) cl1] by metis
    have b4: "bufs s4 ! c2 = bufs s3 ! c2" using r4(7) c(4) by simp
    have h4: "held me c2 n2 s4" by (rule held_other [OF c(2) bc_frame_dk [OF r4(4)] b4])
    have cl4: "b_dirty (bufs s4 ! c2) \<or> b_data (bufs s4 ! c2) = disk s4 n2"
      using cl2 b4 bc_frameD(1) [OF r4(4)] by simp
    obtain s5 lru5 where r5: "brelse me c2 s4 = Inr s5" "bc_inv lru5 s5" "bview s5 = bview s4" "bc_frame s4 s5"
      "locked s5 = locked s4 - {c2}" "dirty_blocks s5 = dirty_blocks s4"
      using brelse_sets [OF r4(2) h4 cl4] by metis
    have "locked s5 = {}" using r5(5) r4(5) lk3 c(3) by auto
    then have "idle_cache s5" using r5(2) by (auto simp: idle_cache_def)
    moreover have "dk_frame s s5"
      using f3 bc_frame_dk [OF r4(4)] bc_frame_dk [OF r5(4)] dk_frame_trans by blast
    moreover have "disk s5 = disk s3" "dwrites s5 = dwrites s3" using bc_frameD [OF r4(4)] bc_frameD [OF r5(4)] by simp_all
    ultimately have "wrote [(a, d)] (dirty_blocks s - {a}) s s5"
      using v r4(3,6) r5(3,6) w(7) D by (simp add: wrote_def)
    then show ?thesis using r4(1) r5(1) by simp
  qed
  show thesis
  proof (rule that)
    show "bwrite me p (upd_buf p (\<lambda>x. x\<lparr>b_data := d\<rparr>) s) = Inr s3" using w(1) e by simp
    show "\<exists>s'. bind_res (brelse me q s3) (brelse me p) = Inr s' \<and> wrote [(a, d)] (dirty_blocks s - {a}) s s'"
      by (rule rel [OF hq3 w(3) _ _ cq3 cp3]) (use pq in auto)
    show "\<exists>s'. bind_res (brelse me p s3) (brelse me q) = Inr s' \<and> wrote [(a, d)] (dirty_blocks s - {a}) s s'"
      by (rule rel [OF w(3) hq3 _ _ cp3 cq3]) (use pq in auto)
  qed
qed

lemma bview_len: "idle_cache s \<Longrightarrow> length (bview s n) = BSIZE"
  using bview_length by (auto simp: idle_cache_def)

lemma write_log_block_spec:
  assumes idle: "idle_cache s" and dev: "lg_dev (log s) = 1"
    and dst: "lg_start (log s) + of_nat t + 1 = a" and src: "lh_block (log s) ! t = b" and ab: "a \<noteq> b"
    and rng: "a < disksize s" "b < disksize s" and D: "b \<in> dirty_blocks s" "a \<notin> dirty_blocks s" "card (dirty_blocks s) < NBUF"
  obtains s' where "write_log_block me t s = Inr s'" "wrote [(a, bview s b)] (dirty_blocks s) s s'"
proof -
  have b: "b \<in> dirty_blocks s \<or> Suc (card (dirty_blocks s)) < NBUF" using D(1) by blast
  obtain p s1 q s2 lru where r: "bread me 1 a s = Inr (p, s1)" "bread me 1 b s1 = Inr (q, s2)" "p \<noteq> q" "bc_inv lru s2"
    "held me p a s2" "held me q b s2" "bview s2 = bview s" "disk s2 = disk s" "dwrites s2 = dwrites s"
    "dirty_blocks s2 = dirty_blocks s" "locked s2 = {p, q}" "dk_frame s s1" "dk_frame s s2"
    "b_dirty (bufs s2 ! p) \<or> b_data (bufs s2 ! p) = disk s a" "b_dirty (bufs s2 ! q) \<or> b_data (bufs s2 ! q) = disk s b"
    by (rule read_two [OF idle ab rng(1) D(3) rng(2) b]) blast
  have d: "b_data (bufs s2 ! q) = bview s b" using bview_cached [OF r(4) heldD(1,2) [OF r(6)]] r(7) by simp
  have len: "length (b_data (bufs s2 ! q)) = BSIZE" using d bview_len [OF idle] by simp
  have a2: "a < disksize s2" using dk_frameD(1) [OF r(13)] rng(1) by simp
  have cq: "b_dirty (bufs s2 ! q) \<or> b_data (bufs s2 ! q) = disk s2 b" using r(8,15) by simp
  obtain s3 s' where w: "bwrite me p (upd_buf p (\<lambda>x. x\<lparr>b_data := b_data (bufs s2 ! q)\<rparr>) s2) = Inr s3"
    "bind_res (brelse me q s3) (brelse me p) = Inr s'"
    "wrote [(a, b_data (bufs s2 ! q))] (dirty_blocks s2 - {a}) s2 s'"
    using write_release [OF r(4,3,5,6,11) a2 len cq ab] by metis
  have e: "lg_dev (log s1) = 1" "lh_block (log s1) ! t = b" using dk_frame_log [OF r(12)] dev src by simp_all
  have "write_log_block me t s = Inr s'"
    unfolding write_log_block_def dev dst r(1) by (simp add: e r(2) w(1,2))
  moreover have "wrote [(a, bview s b)] (dirty_blocks s) s s'"
    using w(3) r(7-10) d D(2) dk_frame_trans [OF r(13)] by (auto simp: wrote_def)
  ultimately show thesis by (rule that)
qed

lemma install_block_spec:
  assumes idle: "idle_cache s" and dev: "lg_dev (log s) = 1"
    and src: "lg_start (log s) + of_nat t + 1 = a" and dst: "lh_block (log s) ! t = b" and ab: "a \<noteq> b"
    and rng: "a < disksize s" "b < disksize s"
    and D: "b \<in> dirty_blocks s \<or> Suc (card (dirty_blocks s)) < NBUF" "card (dirty_blocks s) < NBUF"
  obtains s' where "install_block me t s = Inr s'" "wrote [(b, bview s a)] (dirty_blocks s - {b}) s s'"
proof -
  obtain p s1 q s2 lru where r: "bread me 1 a s = Inr (p, s1)" "bread me 1 b s1 = Inr (q, s2)" "p \<noteq> q" "bc_inv lru s2"
    "held me p a s2" "held me q b s2" "bview s2 = bview s" "disk s2 = disk s" "dwrites s2 = dwrites s"
    "dirty_blocks s2 = dirty_blocks s" "locked s2 = {p, q}" "dk_frame s s1" "dk_frame s s2"
    "b_dirty (bufs s2 ! p) \<or> b_data (bufs s2 ! p) = disk s a" "b_dirty (bufs s2 ! q) \<or> b_data (bufs s2 ! q) = disk s b"
    by (rule read_two [OF idle ab rng(1) D(2) rng(2) D(1)]) blast
  have d: "b_data (bufs s2 ! p) = bview s a" using bview_cached [OF r(4) heldD(1,2) [OF r(5)]] r(7) by simp
  have len: "length (b_data (bufs s2 ! p)) = BSIZE" using d bview_len [OF idle] by simp
  have b2: "b < disksize s2" using dk_frameD(1) [OF r(13)] rng(2) by simp
  have cp: "b_dirty (bufs s2 ! p) \<or> b_data (bufs s2 ! p) = disk s2 a" using r(8,14) by simp
  have qp: "q \<noteq> p" and ba: "b \<noteq> a" and lk: "locked s2 = {q, p}" using r(3,11) ab by auto
  obtain s3 s' where w: "bwrite me q (upd_buf q (\<lambda>x. x\<lparr>b_data := b_data (bufs s2 ! p)\<rparr>) s2) = Inr s3"
    "bind_res (brelse me p s3) (brelse me q) = Inr s'"
    "wrote [(b, b_data (bufs s2 ! p))] (dirty_blocks s2 - {b}) s2 s'"
    using write_release [OF r(4) qp r(6,5) lk b2 len cp ba] by metis
  have e: "lg_dev (log s1) = 1" "lh_block (log s1) ! t = b" using dk_frame_log [OF r(12)] dev dst by simp_all
  have "install_block me t s = Inr s'"
    unfolding install_block_def dev src r(1) by (simp add: e r(2) w(1,2))
  moreover have "wrote [(b, bview s a)] (dirty_blocks s - {b}) s s'"
    using w(3) r(7-10) d dk_frame_trans [OF r(13)] by (auto simp: wrote_def)
  ultimately show thesis by (rule that)
qed

lemma write_head_spec:
  assumes idle: "idle_cache s" and dev: "lg_dev (log s) = 1" and st: "lg_start (log s) = a"
    and rng: "a < disksize s" and D: "a \<notin> dirty_blocks s" "card (dirty_blocks s) < NBUF"
    and n: "nat (lh_n (log s)) \<le> LOGSIZE"
  obtains s' where "write_head me s = Inr s'"
    "wrote [(a, header_of (lh_n (log s)) (lh_block (log s)) (bview s a))] (dirty_blocks s) s s'"
proof -
  from idle obtain lru where inv: "bc_inv lru s" and lk: "locked s = {}" by (auto simp: idle_cache_def)
  let ?h = "header_of (lh_n (log s)) (lh_block (log s)) (bview s a)"
  have fl: "length (fold (\<lambda>i x. put32 x (4 + 4 * i) (bl ! i)) [0..<k] d) = BSIZE" if "length d = BSIZE" "k \<le> LOGSIZE"
    for k bl and d :: "u8 list"
    using that by (induction k) simp_all
  have len: "length ?h = BSIZE"
    unfolding header_of_def by (rule fl) (use bview_length [OF inv] n in simp_all)
  obtain p s1 where r1: "bread me 1 a s = Inr (p, s1)"
    by (rule bread_ok [OF inv rng]) (use D(2) lk in auto)
  obtain i1: "bc_inv lru s1" "held me p a s1" "bview s1 = bview s" "bc_frame s s1" "locked s1 = insert p (locked s)"
    "dirty_blocks s1 = dirty_blocks s" "b_data (bufs s1 ! p) = bview s a"
    by (rule bread_spec [OF inv r1]) blast
  have lg: "log s1 = log s" using bc_frame_dk [OF i1(4)] by (rule dk_frame_log)
  define s2 where "s2 = set_buf p ((bufs s1 ! p)\<lparr>b_data := ?h, b_dirty := b_dirty (bufs s1 ! p)\<rparr>) s1"
  have e2: "upd_buf p (\<lambda>x. x\<lparr>b_data := header_of (lh_n (log s1)) (lh_block (log s1)) (b_data x)\<rparr>) s1 = s2"
    by (simp add: s2_def upd_buf_set lg i1(7))
  note S = set_data [OF i1(1,2) len, of "b_dirty (bufs s1 ! p)", folded s2_def]
    and T = set_data_sets [OF i1(1,2), of "b_dirty (bufs s1 ! p)" ?h, folded s2_def]
  have db: "dirty_blocks s2 - {a} = dirty_blocks s" using T(2) D(1) i1(6) by (auto split: if_splits)
  have f2: "dk_frame s s2"
    using dk_frame_trans [OF bc_frame_dk [OF i1(4)] bc_frame_dk [OF bc_frame_set_buf]] by (simp only: s2_def)
  have a2: "a < disksize s2" using rng dk_frameD(1) [OF f2] by simp
  obtain s3 where w: "bwrite me p s2 = Inr s3" "bc_inv lru s3" "held me p a s3" "bview s3 = bview s2" "dk_frame s2 s3"
    "locked s3 = locked s2" "dirty_blocks s3 = dirty_blocks s2 - {a}" "disk s3 = (disk s2)(a := bview s2 a)"
    "dwrites s3 = dwrites s2 @ [(a, bview s2 a)]" "b_data (bufs s3 ! p) = bview s2 a"
    using bwrite_sets [OF S(1,2) a2] by metis
  have c3: "b_dirty (bufs s3 ! p) \<or> b_data (bufs s3 ! p) = disk s3 a" using w(8,10) by simp
  obtain s4 lru4 where r4: "brelse me p s3 = Inr s4" "bc_inv lru4 s4" "bview s4 = bview s3" "bc_frame s3 s4"
    "locked s4 = locked s3 - {p}" "dirty_blocks s4 = dirty_blocks s3"
    using brelse_sets [OF w(2,3) c3] by metis
  have v: "bview s4 = (bview s)(a := ?h)" using r4(3) w(4) S(3) i1(3) by simp
  have dk: "disk s4 = (disk s)(a := ?h)" "dwrites s4 = dwrites s @ [(a, ?h)]"
    using bc_frameD [OF r4(4)] bc_frameD [OF i1(4)] w(8,9) S(3) by (simp_all add: s2_def)
  have "locked s4 = {}" using r4(5) w(6) T(1) i1(5) lk by auto
  then have "idle_cache s4" using r4(2) by (auto simp: idle_cache_def)
  moreover have "dk_frame s s4" using f2 w(5) bc_frame_dk [OF r4(4)] dk_frame_trans by blast
  ultimately have wr: "wrote [(a, ?h)] (dirty_blocks s) s s4" using v dk r4(6) w(7) db by (simp add: wrote_def)
  have "write_head me s = Inr s4" by (simp add: write_head_def dev st r1 e2 w(1) r4(1))
  then show thesis using wr by (rule that)
qed

section \<open>The loops\<close>

text \<open>Block \<open>t\<close> of the log, and the blocks that the log occupies.\<close>

definition log_slot :: "u32 \<Rightarrow> nat \<Rightarrow> u32" where
  "log_slot st t = st + of_nat t + 1"

definition log_area :: "u32 \<Rightarrow> u32 set" where
  "log_area st = insert st (log_slot st ` {..<LOGSIZE})"

text \<open>The log lies on the disk, and the blocks \<open>bl\<close> are blocks of the disk outside the log.\<close>

definition log_fits :: "u32 \<Rightarrow> u32 list \<Rightarrow> 'a bkernel_scheme \<Rightarrow> bool" where
  "log_fits st bl s \<longleftrightarrow> unat st + LOGSIZE < unat (disksize s) \<and> length bl \<le> LOGSIZE \<and>
     (\<forall>b \<in> set bl. b < disksize s \<and> b \<notin> log_area st)"

lemma log_slot_facts:
  assumes "log_fits st bl s"
  shows "st < disksize s" "\<And>t. t < LOGSIZE \<Longrightarrow> log_slot st t < disksize s" "\<And>t. t < LOGSIZE \<Longrightarrow> log_slot st t \<noteq> st"
    "\<And>t u. t < LOGSIZE \<Longrightarrow> u < LOGSIZE \<Longrightarrow> log_slot st t = log_slot st u \<longleftrightarrow> t = u"
proof -
  have b: "unat st + LOGSIZE < unat (disksize s)" using assms by (simp add: log_fits_def)
  have un: "unat (log_slot st t) = unat st + t + 1" if "t < LOGSIZE" for t
  proof -
    have "unat (disksize s) < 4294967296" by (rule unat_u32_less)
    then have "unat st + t + 1 < 4294967296" using that b by simp
    moreover have "log_slot st t = of_nat (unat st + t + 1)" by (simp add: log_slot_def)
    ultimately show ?thesis using unat_of_nat_u32 by metis
  qed
  show "st < disksize s" using b by (simp add: word_less_nat_alt)
  show "log_slot st t < disksize s" if "t < LOGSIZE" for t using un [OF that] b that by (simp add: word_less_nat_alt)
  show "log_slot st t \<noteq> st" if "t < LOGSIZE" for t using un [OF that] by auto
  show "log_slot st t = log_slot st u \<longleftrightarrow> t = u" if "t < LOGSIZE" "u < LOGSIZE" for t u
  proof
    assume "log_slot st t = log_slot st u"
    then have "unat (log_slot st t) = unat (log_slot st u)" by (rule arg_cong)
    then show "t = u" unfolding un [OF that(1)] un [OF that(2)] by simp
  qed (rule arg_cong)
qed

lemma wrote_fits:
  assumes "wrote ws D s s'"
  shows "log_fits st bl s' = log_fits st bl s"
  unfolding log_fits_def wroteD(7) [OF assms] ..

lemma wrote_log: "wrote ws D s s' \<Longrightarrow> log s' = log s"
  using wroteD(6) dk_frame_log by blast

definition log_writes :: "u32 \<Rightarrow> (nat \<Rightarrow> u8 list) \<Rightarrow> nat list \<Rightarrow> (u32 \<times> u8 list) list" where
  "log_writes st c ts = map (\<lambda>t. (log_slot st t, c t)) ts"

definition home_writes :: "u32 list \<Rightarrow> (nat \<Rightarrow> u8 list) \<Rightarrow> nat list \<Rightarrow> (u32 \<times> u8 list) list" where
  "home_writes bl c ts = map (\<lambda>t. (bl ! t, c t)) ts"

lemma log_writes_simps [simp]: "log_writes st c [] = []" "log_writes st c (t # ts) = (log_slot st t, c t) # log_writes st c ts"
  by (simp_all add: log_writes_def)

lemma home_writes_simps [simp]: "home_writes bl c [] = []" "home_writes bl c (t # ts) = (bl ! t, c t) # home_writes bl c ts"
  by (simp_all add: home_writes_def)

lemma write_log_from_spec:
  assumes "idle_cache s" "lg_dev (log s) = 1" "lg_start (log s) = st" "take (length bl) (lh_block (log s)) = bl"
    and "log_fits st bl s" "dirty_blocks s = set bl" "card (set bl) < NBUF" "set ts \<subseteq> {..<length bl}"
  shows "\<exists>s'. write_log_from me ts s = Inr s' \<and> wrote (log_writes st (\<lambda>t. bview s (bl ! t)) ts) (set bl) s s'"
  using assms
proof (induction ts arbitrary: s)
  case Nil
  then show ?case by (simp add: log_writes_def wrote_def)
next
  case (Cons t ts)
  have t: "t < length bl" "t < LOGSIZE" using Cons.prems(5,8) by (auto simp: log_fits_def)
  note F = log_slot_facts [OF Cons.prems(5)]
  have bt: "bl ! t \<in> set bl" using t(1) by simp
  have src: "lh_block (log s) ! t = bl ! t" using Cons.prems(4) t(1) by (metis nth_take)
  have area: "log_slot st t \<notin> set bl" using Cons.prems(5) t(2) by (auto simp: log_fits_def log_area_def)
  have ab: "log_slot st t \<noteq> bl ! t" using area bt by metis
  have br: "bl ! t < disksize s" using Cons.prems(5) bt by (simp add: log_fits_def)
  have dst: "lg_start (log s) + of_nat t + 1 = log_slot st t" using Cons.prems(3) by (simp add: log_slot_def)
  have D: "bl ! t \<in> dirty_blocks s" "log_slot st t \<notin> dirty_blocks s" "card (dirty_blocks s) < NBUF"
    using Cons.prems(6,7) bt area by simp_all
  obtain s1 where s1: "write_log_block me t s = Inr s1" "wrote [(log_slot st t, bview s (bl ! t))] (dirty_blocks s) s s1"
    using write_log_block_spec [OF Cons.prems(1,2) dst src ab F(2) [OF t(2)] br D] by metis
  note W = wroteD [OF s1(2)] and l1 = wrote_log [OF s1(2)]
  obtain s' where s': "write_log_from me ts s1 = Inr s'"
    "wrote (log_writes st (\<lambda>t. bview s1 (bl ! t)) ts) (set bl) s1 s'"
    using Cons.IH [of s1] W l1 wrote_fits [OF s1(2)] Cons.prems by auto
  have same: "bview s1 (bl ! u) = bview s (bl ! u)" if "u \<in> set ts" for u
  proof -
    have "bl ! u \<in> set bl" using Cons.prems(8) that by auto
    then show ?thesis using W(2) area by (metis apply_writes_simps(1,2) fst_conv fun_upd_other)
  qed
  then have "log_writes st (\<lambda>t. bview s1 (bl ! t)) ts = log_writes st (\<lambda>t. bview s (bl ! t)) ts"
    by (simp add: log_writes_def)
  then have "wrote (log_writes st (\<lambda>t. bview s (bl ! t)) (t # ts)) (set bl) s s'"
    using wrote_trans [OF s1(2) s'(2)] by simp
  then show ?case using s1(1) s'(1) by simp
qed

lemma install_from_spec:
  assumes "idle_cache s" "lg_dev (log s) = 1" "lg_start (log s) = st" "take (length bl) (lh_block (log s)) = bl"
    and "log_fits st bl s" "card (dirty_blocks s) < NBUF" "set ts \<subseteq> {..<length bl}"
    and "set bl \<subseteq> dirty_blocks s \<and> distinct (map ((!) bl) ts) \<or> Suc (card (dirty_blocks s)) < NBUF"
  shows "\<exists>s'. install_from me ts s = Inr s' \<and>
     wrote (home_writes bl (\<lambda>t. bview s (log_slot st t)) ts) (dirty_blocks s - (!) bl ` set ts) s s'"
  using assms
proof (induction ts arbitrary: s)
  case Nil
  then show ?case by (simp add: home_writes_def wrote_def)
next
  case (Cons t ts)
  have t: "t < length bl" "t < LOGSIZE" using Cons.prems(5,7) by (auto simp: log_fits_def)
  note F = log_slot_facts [OF Cons.prems(5)]
  have bt: "bl ! t \<in> set bl" using t(1) by simp
  have dst: "lh_block (log s) ! t = bl ! t" using Cons.prems(4) t(1) by (metis nth_take)
  have area: "log_slot st u \<notin> set bl" if "u < LOGSIZE" for u
    using Cons.prems(5) that by (auto simp: log_fits_def log_area_def)
  have ab: "log_slot st t \<noteq> bl ! t" using area [OF t(2)] bt by metis
  have br: "bl ! t < disksize s" using Cons.prems(5) bt by (simp add: log_fits_def)
  have src: "lg_start (log s) + of_nat t + 1 = log_slot st t" using Cons.prems(3) by (simp add: log_slot_def)
  have D: "bl ! t \<in> dirty_blocks s \<or> Suc (card (dirty_blocks s)) < NBUF" using Cons.prems(8) bt by blast
  obtain s1 where s1: "install_block me t s = Inr s1"
    "wrote [(bl ! t, bview s (log_slot st t))] (dirty_blocks s - {bl ! t}) s s1"
    using install_block_spec [OF Cons.prems(1,2) src dst ab F(2) [OF t(2)] br D Cons.prems(6)] by metis
  note W = wroteD [OF s1(2)] and l1 = wrote_log [OF s1(2)]
  have c1: "card (dirty_blocks s1) \<le> card (dirty_blocks s)" unfolding W(4) by (intro card_mono) auto
  have room: "Suc (card (dirty_blocks s1)) < NBUF"
  proof (cases "bl ! t \<in> dirty_blocks s")
    case True
    then have "card (dirty_blocks s1) = card (dirty_blocks s) - 1" "0 < card (dirty_blocks s)"
      unfolding W(4) by (auto simp: card_gt_0_iff)
    then show ?thesis using Cons.prems(6) by simp
  next
    case False
    then show ?thesis using D c1 by simp
  qed
  have fits: "log_fits st bl s1" using wrote_fits [OF s1(2)] Cons.prems(5) by simp
  obtain s' where s': "install_from me ts s1 = Inr s'"
    "wrote (home_writes bl (\<lambda>t. bview s1 (log_slot st t)) ts) (dirty_blocks s1 - (!) bl ` set ts) s1 s'"
    using Cons.IH [of s1] W(1) l1 fits room Cons.prems(2,3,4,7) by auto
  have same: "bview s1 (log_slot st u) = bview s (log_slot st u)" if "u \<in> set ts" for u
  proof -
    have "u < LOGSIZE" using Cons.prems(5,7) that by (auto simp: log_fits_def)
    then have "log_slot st u \<noteq> bl ! t" using area [of u] bt by metis
    then show ?thesis using W(2) by simp
  qed
  then have "home_writes bl (\<lambda>t. bview s1 (log_slot st t)) ts = home_writes bl (\<lambda>t. bview s (log_slot st t)) ts"
    by (simp add: home_writes_def)
  moreover have "dirty_blocks s1 - (!) bl ` set ts = dirty_blocks s - (!) bl ` set (t # ts)" using W(4) by auto
  ultimately have "wrote (home_writes bl (\<lambda>t. bview s (log_slot st t)) (t # ts)) (dirty_blocks s - (!) bl ` set (t # ts)) s s'"
    using wrote_trans [OF s1(2) s'(2)] by simp
  then show ?case using s1(1) s'(1) by simp
qed

section \<open>The header\<close>

lemma header_fold:
  assumes "length d = BSIZE" and "k \<le> LOGSIZE"
  shows "length (fold (\<lambda>i x. put32 x (4 + 4 * i) (bl ! i)) [0..<k] d) = BSIZE \<and>
     get32 (fold (\<lambda>i x. put32 x (4 + 4 * i) (bl ! i)) [0..<k] d) 0 = get32 d 0 \<and>
     (\<forall>i < k. get32 (fold (\<lambda>i x. put32 x (4 + 4 * i) (bl ! i)) [0..<k] d) (4 + 4 * i) = bl ! i)"
  using assms(2)
proof (induction k)
  case 0
  then show ?case using assms(1) by simp
next
  case (Suc k)
  let ?x = "fold (\<lambda>i x. put32 x (4 + 4 * i) (bl ! i)) [0..<k] d"
  have IH: "length ?x = BSIZE" "get32 ?x 0 = get32 d 0" "\<And>i. i < k \<Longrightarrow> get32 ?x (4 + 4 * i) = bl ! i"
    using Suc by simp_all
  have "get32 (put32 ?x (4 + 4 * k) (bl ! k)) (4 + 4 * i) = bl ! i" if "i < Suc k" for i
    using IH(1,3) that Suc.prems by (cases "i = k") (simp_all add: get32_put32_other)
  moreover have "get32 (put32 ?x (4 + 4 * k) (bl ! k)) 0 = get32 d 0"
    using IH(1,2) Suc.prems by (simp add: get32_put32_other)
  ultimately show ?case using IH(1) Suc.prems by simp
qed

lemma header_of_get:
  assumes "length d = BSIZE" and "nat n \<le> LOGSIZE"
  shows "length (header_of n bl d) = BSIZE" "get32 (header_of n bl d) 0 = of_int n"
    "\<And>i. i < nat n \<Longrightarrow> get32 (header_of n bl d) (4 + 4 * i) = bl ! i"
  using header_fold [of "put32 d 0 (of_int n)" "nat n" bl] assms by (simp_all add: header_of_def)

lemma sint_of_int_small: "0 \<le> n \<Longrightarrow> n < 2147483648 \<Longrightarrow> sint (of_int n :: u32) = n"
  by (simp add: signed_of_int signed_take_bit_int_eq_self)

section \<open>Commit and recovery\<close>

lemma upd_log_cache [simp]:
  "bc_next (upd_log f s) = bc_next s" "bc_prev (upd_log f s) = bc_prev s" "idle_cache (upd_log f s) = idle_cache s"
  "bview (upd_log f s) = bview s" "dirty_blocks (upd_log f s) = dirty_blocks s" "locked (upd_log f s) = locked s"
  "bc_inv lru (upd_log f s) = bc_inv lru s" "log_fits st bl (upd_log f s) = log_fits st bl s"
  by (auto simp: upd_log_def idle_cache_def bc_inv_def locked_def dirty_blocks_def bview_def log_fits_def fun_eq_iff
      split: option.split)

lemma log_set_buf [simp]: "log (set_buf b x s) = log s"
  by (simp add: set_buf_def)

text \<open>The transaction that \<open>commit\<close> is about to write: the blocks \<open>bl\<close>, all of them dirty in the cache.\<close>

definition commit_ready :: "u32 list \<Rightarrow> 'a lkernel_scheme \<Rightarrow> bool" where
  "commit_ready bl s \<longleftrightarrow>
     idle_cache s \<and> lg_dev (log s) = 1 \<and> lh_n (log s) = int (length bl) \<and> take (length bl) (lh_block (log s)) = bl \<and>
     bl \<noteq> [] \<and> distinct bl \<and> length bl < NBUF \<and> dirty_blocks s = set bl \<and> log_fits (lg_start (log s)) bl s \<and>
     get32 (disk s (lg_start (log s))) 0 = 0"

definition commit_writes :: "u32 list \<Rightarrow> 'a lkernel_scheme \<Rightarrow> (u32 \<times> u8 list) list" where
  "commit_writes bl s =
     (let st = lg_start (log s); c = (\<lambda>t. bview s (bl ! t));
          h = header_of (int (length bl)) (lh_block (log s)) (bview s st)
      in log_writes st c [0..<length bl] @ [(st, h)] @ home_writes bl c [0..<length bl] @ [(st, header_of 0 (lh_block (log s)) h)])"

lemma apply_log_writes:
  assumes "log_fits st bl s" and "t < k" and "k \<le> LOGSIZE"
  shows "apply_writes (log_writes st c [0..<k]) f (log_slot st t) = c t"
  using assms(2,3)
proof (induction k)
  case (Suc k)
  note F = log_slot_facts(4) [OF assms(1)]
  show ?case
  proof (cases "t = k")
    case True
    then show ?thesis by (simp add: log_writes_def)
  next
    case False
    then have "log_slot st t \<noteq> log_slot st k" using F Suc.prems by simp
    then show ?thesis using Suc False by (simp add: log_writes_def)
  qed
qed simp

lemma commit_spec:
  assumes "commit_ready bl s"
  obtains s' where "commit me s = Inr s'" "idle_cache s'" "dirty_blocks s' = {}" "log s' = (log s)\<lparr>lh_n := 0\<rparr>"
    "disk s' = apply_writes (commit_writes bl s) (disk s)" "dwrites s' = dwrites s @ commit_writes bl s"
    "bview s' = apply_writes (commit_writes bl s) (bview s)"
proof -
  define st where "st = lg_start (log s)"
  define n where "n = length bl"
  have R: "idle_cache s" "lg_dev (log s) = 1" "lh_n (log s) = int n" "take (length bl) (lh_block (log s)) = bl" "0 < n"
    "distinct bl" "n < NBUF" "dirty_blocks s = set bl" "log_fits st bl s"
    using assms by (auto simp: commit_ready_def st_def n_def)
  have nL: "n \<le> LOGSIZE" using R(9) by (simp add: log_fits_def n_def)
  note F = log_slot_facts [OF R(9)]
  have sb: "st \<notin> set bl" using R(9) by (auto simp: log_fits_def log_area_def)
  have cd: "card (set bl) < NBUF" using R(6,7) by (simp add: distinct_card n_def)
  have sub: "set [0..<n] \<subseteq> {..<length bl}" by (auto simp: n_def)
  define c where "c = (\<lambda>t. bview s (bl ! t))"
  obtain s1 where s1: "write_log_from me [0..<n] s = Inr s1" "wrote (log_writes st c [0..<n]) (set bl) s s1"
    using write_log_from_spec [OF R(1,2) st_def [symmetric] R(4,9,8) cd sub] by (auto simp: c_def)
  note W1 = wroteD [OF s1(2)] and l1 = wrote_log [OF s1(2)]
  have v1: "bview s1 st = bview s st"
    unfolding W1(2) by (rule apply_writes_other) (use F(3) [THEN not_sym] nL in \<open>auto simp: log_writes_def\<close>)
  define h where "h = header_of (int n) (lh_block (log s)) (bview s st)"
  have st1: "st < disksize s1" using F(1) W1(7) by simp
  have h1: "lg_dev (log s1) = 1" "lg_start (log s1) = st" "st \<notin> dirty_blocks s1" "card (dirty_blocks s1) < NBUF"
    "nat (lh_n (log s1)) \<le> LOGSIZE" using l1 R W1(4) sb cd nL by (simp_all add: st_def)
  obtain s2 where s2: "write_head me s1 = Inr s2" "wrote [(st, h)] (set bl) s1 s2"
    using write_head_spec [OF W1(1) h1(1,2) st1 h1(3,4,5)] l1 R(3) v1 W1(4) unfolding h_def by metis
  note W2 = wroteD [OF s2(2)] and l2 = wrote_log [OF s2(2)]
  have c2: "bview s2 (log_slot st t) = c t" if "t < n" for t
  proof -
    have "log_slot st t \<noteq> st" using F(3) that nL by simp
    then have "bview s2 (log_slot st t) = bview s1 (log_slot st t)" using W2(2) by simp
    also have "\<dots> = c t" unfolding W1(2) by (rule apply_log_writes [OF R(9) that nL])
    finally show ?thesis .
  qed
  have i2: "lg_dev (log s2) = 1" "lg_start (log s2) = st" "take (length bl) (lh_block (log s2)) = bl" "log_fits st bl s2"
    "card (dirty_blocks s2) < NBUF" using l1 l2 R wrote_fits [OF s1(2)] wrote_fits [OF s2(2)] W2(4) cd by (simp_all add: st_def)
  have dm: "distinct (map ((!) bl) [0..<n])" using R(6) by (simp add: n_def map_nth)
  have dd: "set bl \<subseteq> dirty_blocks s2 \<and> distinct (map ((!) bl) [0..<n]) \<or> Suc (card (dirty_blocks s2)) < NBUF"
    using W2(4) dm by simp
  obtain s3 where s3: "install_from me [0..<n] s2 = Inr s3"
    "wrote (home_writes bl (\<lambda>t. bview s2 (log_slot st t)) [0..<n]) (dirty_blocks s2 - (!) bl ` set [0..<n]) s2 s3"
    using install_from_spec [OF W2(1) i2 sub dd] by blast
  have hw: "home_writes bl (\<lambda>t. bview s2 (log_slot st t)) [0..<n] = home_writes bl c [0..<n]"
    using c2 by (simp add: home_writes_def)
  have d3: "dirty_blocks s2 - (!) bl ` set [0..<n] = {}"
    using W2(4) by (auto simp: n_def in_set_conv_nth)
  note s3' = s3(2) [unfolded hw d3]
  note W3 = wroteD [OF s3'] and l3 = wrote_log [OF s3']
  have v3: "bview s3 st = h"
  proof -
    have "bview s3 st = bview s2 st"
      unfolding W3(2) by (rule apply_writes_other) (use sb in \<open>auto simp: home_writes_def n_def\<close>)
    then show ?thesis using W2(2) by simp
  qed
  let ?s3 = "upd_log (\<lambda>l. l\<lparr>lh_n := 0\<rparr>) s3"
  have h3: "idle_cache ?s3" "lg_dev (log ?s3) = 1" "lg_start (log ?s3) = st" "st < disksize ?s3" "st \<notin> dirty_blocks ?s3"
    "card (dirty_blocks ?s3) < NBUF" "nat (lh_n (log ?s3)) \<le> LOGSIZE"
    using l1 l2 l3 R W3 F(1) W1(7) W2(7) by (simp_all add: st_def)
  obtain s4 where s4: "write_head me ?s3 = Inr s4"
    "wrote [(st, header_of (lh_n (log ?s3)) (lh_block (log ?s3)) (bview ?s3 st))] (dirty_blocks ?s3) ?s3 s4"
    using write_head_spec [OF h3] by metis
  have h4: "header_of (lh_n (log ?s3)) (lh_block (log ?s3)) (bview ?s3 st) = header_of 0 (lh_block (log s)) h"
    using l1 l2 l3 v3 by simp
  note s4' = s4(2) [unfolded h4]
  note W4 = wroteD [OF s4'] and l4 = wrote_log [OF s4']
  have cw: "commit_writes bl s = log_writes st c [0..<n] @ [(st, h)] @ home_writes bl c [0..<n] @ [(st, header_of 0 (lh_block (log s)) h)]"
    by (simp add: commit_writes_def Let_def st_def n_def c_def h_def)
  show thesis
  proof (rule that)
    show "commit me s = Inr s4"
      using s1(1) s2(1) s3(1) s4(1) l1 l2 R(3,5) by (simp add: commit_def write_log_def install_trans_def)
    show "idle_cache s4" by (rule W4(1))
    show "dirty_blocks s4 = {}" using W4(4) W3(4) by simp
    show "log s4 = (log s)\<lparr>lh_n := 0\<rparr>" using l1 l2 l3 l4 by simp
    show "disk s4 = apply_writes (commit_writes bl s) (disk s)" using W1(3) W2(3) W3(3) W4(3) cw by simp
    show "dwrites s4 = dwrites s @ commit_writes bl s" using W1(5) W2(5) W3(5) W4(5) cw by simp
    show "bview s4 = apply_writes (commit_writes bl s) (bview s)" using W1(2) W2(2) W3(2) W4(2) cw by simp
  qed
qed

text \<open>What the header of a disk says.\<close>

definition header_n :: "(u32 \<Rightarrow> u8 list) \<Rightarrow> u32 \<Rightarrow> int" where
  "header_n dk st = sint (get32 (dk st) 0)"

definition header_blocks :: "(u32 \<Rightarrow> u8 list) \<Rightarrow> u32 \<Rightarrow> u32 list" where
  "header_blocks dk st = map (\<lambda>i. get32 (dk st) (4 + 4 * i)) [0..<nat (header_n dk st)]"

lemma read_head_spec:
  assumes idle: "idle_cache s" and dev: "lg_dev (log s) = 1" and st: "lg_start (log s) = st" and rng: "st < disksize s"
    and D: "dirty_blocks s = {}" and n: "header_n (disk s) st \<le> int LOGSIZE"
  obtains s' where "read_head me s = Inr s'" "idle_cache s'" "bview s' = bview s" "disk s' = disk s" "dirty_blocks s' = {}"
    "disksize s' = disksize s"
    "log s' = (log s)\<lparr>lh_n := header_n (disk s) st,
       lh_block := header_blocks (disk s) st @ drop (nat (header_n (disk s) st)) (lh_block (log s))\<rparr>"
proof -
  from idle obtain lru where inv: "bc_inv lru s" and lk: "locked s = {}" by (auto simp: idle_cache_def)
  obtain p s1 where r1: "bread me 1 st s = Inr (p, s1)"
    by (rule bread_ok [OF inv rng]) (use D lk in auto)
  obtain i1: "bc_inv lru s1" "held me p st s1" "bview s1 = bview s" "bc_frame s s1" "locked s1 = insert p (locked s)"
    "dirty_blocks s1 = dirty_blocks s" "b_data (bufs s1 ! p) = disk s st"
    by (rule bread_spec [OF inv r1]) (use D in blast)
  let ?f = "\<lambda>l. l\<lparr>lh_n := header_n (disk s) st,
       lh_block := header_blocks (disk s) st @ drop (nat (header_n (disk s) st)) (lh_block l)\<rparr>"
  define t where "t = upd_log ?f s1"
  have h2: "held me p st t" using i1(2) by (simp add: t_def held_def holdingsleep_def)
  have i2: "bc_inv lru t" using i1(1) by (simp add: t_def)
  have c2: "b_dirty (bufs t ! p) \<or> b_data (bufs t ! p) = disk t st"
    using i1(7) bc_frameD(1) [OF i1(4)] by (simp add: t_def)
  obtain s' lru' where r: "brelse me p t = Inr s'" "bc_inv lru' s'" "bview s' = bview t"
    "bc_frame t s'" "locked s' = locked t - {p}" "dirty_blocks s' = dirty_blocks t"
    using brelse_sets [OF i2 h2 c2] by metis
  have l1: "log s1 = log s" using bc_frame_dk [OF i1(4)] by (rule dk_frame_log)
  have l': "log s' = ?f (log s)" using dk_frame_log [OF bc_frame_dk [OF r(4)]] l1 by (simp add: t_def)
  have "read_head me s = Inr s'"
    using r(1) n unfolding read_head_def dev st r1
    by (simp add: i1(7) header_n_def [symmetric] header_blocks_def [symmetric] Let_def t_def)
  moreover have "idle_cache s'" using r(2,5) i1(5) lk by (auto simp: idle_cache_def t_def)
  moreover have "disk s' = disk s" "disksize s' = disksize s" using bc_frameD [OF r(4)] bc_frameD [OF i1(4)] by (simp_all add: t_def)
  ultimately show thesis using that r(3,6) i1(3,6) D l' by (simp add: t_def)
qed

text \<open>
  Recovery copies the blocks of the log that the header names to their places, one after the other, and clears
  the header.
\<close>

lemma recover_spec:
  assumes idle: "idle_cache s" and dev: "lg_dev (log s) = 1" and st: "lg_start (log s) = st" and D: "dirty_blocks s = {}"
    and n: "0 \<le> header_n (disk s) st" and fits: "log_fits st (header_blocks (disk s) st) s"
  obtains s' h where "recover_from_log me s = Inr s'" "idle_cache s'" "dirty_blocks s' = {}" "lh_n (log s') = 0"
    "header_n (disk s') st = 0"
    "disk s' = apply_writes (home_writes (header_blocks (disk s) st) (\<lambda>t. disk s (log_slot st t))
        [0..<length (header_blocks (disk s) st)] @ [(st, h)]) (disk s)"
proof -
  define bl where "bl = header_blocks (disk s) st"
  have lb: "length bl = nat (header_n (disk s) st)" by (simp add: bl_def header_blocks_def)
  have fits': "log_fits st bl s" using fits by (simp add: bl_def)
  have nL: "length bl \<le> LOGSIZE" using fits' by (simp add: log_fits_def)
  have n30: "header_n (disk s) st \<le> int LOGSIZE" using nL lb n by simp
  note F = log_slot_facts [OF fits']
  have sb: "st \<notin> set bl" using fits' by (auto simp: log_fits_def log_area_def)
  obtain s1 where s1: "read_head me s = Inr s1" "idle_cache s1" "bview s1 = bview s" "disk s1 = disk s"
    "dirty_blocks s1 = {}" "disksize s1 = disksize s"
    "log s1 = (log s)\<lparr>lh_n := header_n (disk s) st,
       lh_block := header_blocks (disk s) st @ drop (nat (header_n (disk s) st)) (lh_block (log s))\<rparr>"
    using read_head_spec [OF idle dev st F(1) D n30] by metis
  have on_disk: "bview s n = disk s n" for n
    using idle D clean_block_on_disk [of _ s n] by (auto simp: idle_cache_def)
  have l1: "lg_dev (log s1) = 1" "lg_start (log s1) = st" "take (length bl) (lh_block (log s1)) = bl"
    using s1(7) dev st by (simp_all add: bl_def [symmetric] lb [symmetric])
  have fits1: "log_fits st bl s1" using fits' s1(6) by (simp add: log_fits_def)
  have card1: "card (dirty_blocks s1) < NBUF" "set [0..<length bl] \<subseteq> {..<length bl}"
    "set bl \<subseteq> dirty_blocks s1 \<and> distinct (map ((!) bl) [0..<length bl]) \<or> Suc (card (dirty_blocks s1)) < NBUF"
    using s1(5) by auto
  obtain s2 where s2: "install_from me [0..<length bl] s1 = Inr s2"
    "wrote (home_writes bl (\<lambda>t. bview s1 (log_slot st t)) [0..<length bl])
       (dirty_blocks s1 - (!) bl ` set [0..<length bl]) s1 s2"
    using install_from_spec [OF s1(2) l1 fits1 card1] by blast
  note W2 = wroteD [OF s2(2)] and l2 = wrote_log [OF s2(2)]
  let ?s2 = "upd_log (\<lambda>l. l\<lparr>lh_n := 0\<rparr>) s2"
  have h2: "idle_cache ?s2" "lg_dev (log ?s2) = 1" "lg_start (log ?s2) = st" "st < disksize ?s2" "st \<notin> dirty_blocks ?s2"
    "card (dirty_blocks ?s2) < NBUF" "nat (lh_n (log ?s2)) \<le> LOGSIZE"
    using l2 l1 W2 F(1) s1(5,6) by simp_all
  define h where "h = header_of (lh_n (log ?s2)) (lh_block (log ?s2)) (bview ?s2 st)"
  obtain s3 where s3: "write_head me ?s2 = Inr s3" "wrote [(st, h)] (dirty_blocks ?s2) ?s2 s3"
    using write_head_spec [OF h2] unfolding h_def by metis
  note W3 = wroteD [OF s3(2)] and l3 = wrote_log [OF s3(2)]
  have lh: "length (bview ?s2 st) = BSIZE" using W2(1) by (intro bview_len) simp
  have "get32 h 0 = 0" using header_of_get(2) [OF lh, of 0] by (simp add: h_def)
  then have h0: "header_n (disk s3) st = 0" using W3(3) by (simp add: header_n_def)
  have nn: "nat (header_n (disk s) st) = length bl" using lb by simp
  have "recover_from_log me s = Inr s3"
    using s1(1,7) s2(1) s3(1) by (simp add: recover_from_log_def install_trans_def nn)
  moreover have "disk s3 = apply_writes (home_writes bl (\<lambda>t. disk s (log_slot st t)) [0..<length bl] @ [(st, h)]) (disk s)"
    using W3(3) W2(3) s1(3,4) on_disk by simp
  moreover have "lh_n (log s3) = 0" using l3 by simp
  moreover have "dirty_blocks s3 = {}" using W3(4) W2(4) s1(5) by simp
  ultimately show thesis using that W3(1) h0 by (simp add: bl_def)
qed

section \<open>Crashes\<close>

text \<open>
  The machine starts again with the disk \<open>dk\<close>: the cache is empty and \<open>initlog\<close> has found the log of \<open>s\<close> in the super
  block.
\<close>

definition restarted :: "'a lkernel_scheme \<Rightarrow> (u32 \<Rightarrow> u8 list) \<Rightarrow> 'a lkernel_scheme \<Rightarrow> bool" where
  "restarted s dk r \<longleftrightarrow>
     idle_cache r \<and> dirty_blocks r = {} \<and> disk r = dk \<and> disksize r = disksize s \<and> lg_dev (log r) = 1 \<and>
     lg_start (log r) = lg_start (log s)"

lemma apply_home_writes:
  assumes "distinct bl" and "t < k" and "k \<le> length bl"
  shows "apply_writes (home_writes bl c [0..<k]) f (bl ! t) = c t"
  using assms(2,3)
proof (induction k)
  case (Suc k)
  show ?case
  proof (cases "t = k")
    case True
    then show ?thesis by (simp add: home_writes_def)
  next
    case False
    then have "bl ! t \<noteq> bl ! k" using assms(1) Suc.prems by (simp add: nth_eq_iff_index_eq)
    then show ?thesis using Suc False by (simp add: home_writes_def)
  qed
qed simp

lemma commit_writes_area:
  assumes "commit_ready bl s" and "b \<notin> log_area (lg_start (log s))" and "b \<notin> set bl"
  shows "b \<notin> fst ` set (commit_writes bl s)"
  using assms by (auto simp: commit_writes_def Let_def log_writes_def home_writes_def log_area_def commit_ready_def)

text \<open>
  The disk at the three kinds of moment of a commit: before its header is written, while the blocks are copied to
  their places, and after the header is cleared.
\<close>

lemma crash_before:
  assumes ready: "commit_ready bl s" and k: "k \<le> length bl" and r: "restarted s (apply_writes (take k (commit_writes bl s)) (disk s)) r"
  shows "header_n (disk r) (lg_start (log s)) = 0 \<and> (\<forall>b. b \<notin> log_area (lg_start (log s)) \<longrightarrow> disk r b = disk s b)"
proof -
  let ?st = "lg_start (log s)"
  have fits: "log_fits ?st bl s" and L: "length bl \<le> LOGSIZE" using ready by (auto simp: commit_ready_def log_fits_def)
  note F = log_slot_facts [OF fits]
  have tk: "take k (commit_writes bl s) = log_writes ?st (\<lambda>t. bview s (bl ! t)) [0..<k]"
    using k by (simp add: commit_writes_def Let_def log_writes_def take_map)
  have sub: "fst ` set (take k (commit_writes bl s)) \<subseteq> log_slot ?st ` {..<LOGSIZE}"
    unfolding tk using k L by (auto simp: log_writes_def)
  have "?st \<notin> log_slot ?st ` {..<LOGSIZE}" using F(3) [THEN not_sym] by (auto simp: image_iff)
  with sub have "?st \<notin> fst ` set (take k (commit_writes bl s))" by blast
  then have "disk r ?st = disk s ?st" using r by (simp add: restarted_def apply_writes_other)
  moreover have "disk r b = disk s b" if "b \<notin> log_area ?st" for b
  proof -
    have "b \<notin> fst ` set (take k (commit_writes bl s))" using sub that by (auto simp: log_area_def)
    then show ?thesis using r by (simp add: restarted_def apply_writes_other)
  qed
  ultimately show ?thesis using ready by (simp add: header_n_def commit_ready_def)
qed

lemma crash_after:
  assumes ready: "commit_ready bl s" and k: "length bl < k" and r: "restarted s (apply_writes (take k (commit_writes bl s)) (disk s)) r"
  defines "st \<equiv> lg_start (log s)"
  shows "header_n (disk r) st = int (length bl) \<and> header_blocks (disk r) st = bl \<and>
       (\<forall>t < length bl. disk r (log_slot st t) = bview s (bl ! t)) \<and>
       (\<forall>b. b \<notin> log_area st \<longrightarrow> b \<notin> set bl \<longrightarrow> disk r b = disk s b) \<or>
     header_n (disk r) st = 0 \<and> (\<forall>b. b \<notin> log_area st \<longrightarrow> disk r b = bview s b)"
proof -
  let ?n = "length bl" and ?c = "\<lambda>t. bview s (bl ! t)"
  have R: "idle_cache s" "take ?n (lh_block (log s)) = bl" "distinct bl" "dirty_blocks s = set bl" "log_fits st bl s"
    and L: "?n \<le> LOGSIZE"
    using ready by (auto simp: commit_ready_def log_fits_def st_def)
  note F = log_slot_facts [OF R(5)]
  have sb: "st \<notin> set bl" using R(5) by (auto simp: log_fits_def log_area_def)
  define h where "h = header_of (int ?n) (lh_block (log s)) (bview s st)"
  let ?W1 = "log_writes st ?c [0..<?n]" and ?W2 = "home_writes bl ?c [0..<?n]"
  have W: "commit_writes bl s = ?W1 @ (st, h) # ?W2 @ [(st, header_of 0 (lh_block (log s)) h)]"
    by (simp add: commit_writes_def Let_def st_def h_def)
  have l1: "length ?W1 = ?n" "length ?W2 = ?n" by (simp_all add: log_writes_def home_writes_def)
  have hl: "length (bview s st) = BSIZE" "nat (int ?n) \<le> LOGSIZE" using bview_len [OF R(1)] L by simp_all
  note H = header_of_get [OF hl, where bl = "lh_block (log s)", folded h_def]
  have dr: "disk r = apply_writes (take k (commit_writes bl s)) (disk s)" using r by (simp add: restarted_def)
  have clean: "disk s b = bview s b" if "b \<notin> set bl" for b
    using R(1,4) that clean_block_on_disk [of _ s b] by (auto simp: idle_cache_def)
  have frame: "disk r b = disk s b" if "b \<notin> log_area st" "b \<notin> set bl" for b
  proof -
    have "b \<notin> fst ` set (commit_writes bl s)" using commit_writes_area [OF ready] that by (simp add: st_def)
    moreover have "set (take k (commit_writes bl s)) \<subseteq> set (commit_writes bl s)" by (rule set_take_subset)
    ultimately have "b \<notin> fst ` set (take k (commit_writes bl s))" by blast
    then show ?thesis unfolding dr by (rule apply_writes_other)
  qed
  show ?thesis
  proof (cases "k \<le> 2 * ?n + 1")
    case True
    define j where "j = k - Suc ?n"
    have j: "k = Suc (?n + j)" "j \<le> ?n" using k True by (simp_all add: j_def)
    have tk: "take k (commit_writes bl s) = ?W1 @ (st, h) # home_writes bl ?c [0..<j]"
      using j l1 by (simp add: W home_writes_def take_map)
    have st_r: "disk r st = h"
      unfolding dr tk using sb j(2) by (simp add: apply_writes_other home_writes_def image_image) (subst apply_writes_other; auto)
    have n_r: "header_n (disk r) st = int ?n"
      using H(2) L sint_of_int_small [of "int ?n"] by (simp add: header_n_def st_r)
    have "get32 h (4 + 4 * i) = bl ! i" if "i < ?n" for i using H(3) [of i] R(2) that by (metis nat_int nth_take)
    then have "header_blocks (disk r) st = bl"
      unfolding header_blocks_def n_r st_r by (intro nth_equalityI) simp_all
    moreover have "disk r (log_slot st t) = ?c t" if "t < ?n" for t
    proof -
      have "log_slot st t \<notin> set bl" "log_slot st t \<noteq> st" using R(5) F(3) that L by (auto simp: log_fits_def log_area_def)
      then have "disk r (log_slot st t) = apply_writes ?W1 (disk s) (log_slot st t)"
        unfolding dr tk using j(2) by (simp add: apply_writes_other home_writes_def image_image) (subst apply_writes_other; auto)
      also have "\<dots> = ?c t" by (rule apply_log_writes [OF R(5) that L])
      finally show ?thesis .
    qed
    ultimately show ?thesis using n_r frame by blast
  next
    case False
    then have tk: "take k (commit_writes bl s) = commit_writes bl s" using l1 by (simp add: W)
    let ?h0 = "header_of 0 (lh_block (log s)) h"
    have "disk r st = ?h0" unfolding dr tk by (simp add: W)
    moreover have "get32 ?h0 0 = 0" using header_of_get(2) [OF H(1), of 0] by simp
    ultimately have "header_n (disk r) st = 0" by (simp add: header_n_def)
    moreover have "disk r b = bview s b" if b: "b \<notin> log_area st" for b
    proof (cases "b \<in> set bl")
      case True
      then obtain t where t: "t < ?n" "b = bl ! t" by (auto simp: in_set_conv_nth)
      have "b \<noteq> st" using True sb by auto
      then have "disk r b = apply_writes ?W2 (apply_writes (?W1 @ [(st, h)]) (disk s)) b" unfolding dr tk by (simp add: W)
      also have "\<dots> = ?c t" unfolding t(2) by (rule apply_home_writes [OF R(3) t(1) order_refl])
      finally show ?thesis using t(2) by simp
    next
      case no: False
      with frame b clean show ?thesis by simp
    qed
    ultimately show ?thesis by blast
  qed
qed

section \<open>Properties\<close>

text \<open>Recovery with an empty header, and with the header of a committed transaction.\<close>

lemma recover_empty:
  assumes c: "commit_ready bl s" and r: "restarted s d r" and n: "header_n (disk r) (lg_start (log s)) = 0"
  shows "\<exists>r'. recover_from_log me r = Inr r' \<and> header_n (disk r') (lg_start (log s)) = 0 \<and>
     (\<forall>b. b \<notin> log_area (lg_start (log s)) \<longrightarrow> disk r' b = disk r b)"
proof -
  let ?st = "lg_start (log s)"
  have R: "idle_cache r" "lg_dev (log r) = 1" "lg_start (log r) = ?st" "dirty_blocks r = {}" "disksize r = disksize s"
    using r by (simp_all add: restarted_def)
  have e: "header_blocks (disk r) ?st = []" using n by (simp add: header_blocks_def)
  have f: "log_fits ?st (header_blocks (disk r) ?st) r" unfolding e using c R(5) by (simp add: log_fits_def commit_ready_def)
  have "0 \<le> header_n (disk r) ?st" using n by simp
  from recover_spec [OF R(1-4) this f, of me] obtain r' h where
    r': "recover_from_log me r = Inr r'" "header_n (disk r') ?st = 0"
    "disk r' = apply_writes (home_writes (header_blocks (disk r) ?st) (\<lambda>t. disk r (log_slot ?st t))
        [0..<length (header_blocks (disk r) ?st)] @ [(?st, h)]) (disk r)" by metis
  then have "disk r' = (disk r)(?st := h)" by (simp add: e)
  with r'(1,2) show ?thesis by (auto simp: log_area_def)
qed

lemma recover_committed:
  assumes c: "commit_ready bl s" and r: "restarted s d r"
    and A: "header_n (disk r) (lg_start (log s)) = int (length bl)" "header_blocks (disk r) (lg_start (log s)) = bl"
      "\<forall>t < length bl. disk r (log_slot (lg_start (log s)) t) = bview s (bl ! t)"
      "\<forall>b. b \<notin> log_area (lg_start (log s)) \<longrightarrow> b \<notin> set bl \<longrightarrow> disk r b = disk s b"
  shows "\<exists>r'. recover_from_log me r = Inr r' \<and> header_n (disk r') (lg_start (log s)) = 0 \<and>
     (\<forall>b. b \<notin> log_area (lg_start (log s)) \<longrightarrow> disk r' b = bview s b)"
proof -
  let ?st = "lg_start (log s)"
  have R: "idle_cache r" "lg_dev (log r) = 1" "lg_start (log r) = ?st" "dirty_blocks r = {}" "disksize r = disksize s"
    using r by (simp_all add: restarted_def)
  have fits: "log_fits ?st bl s" "distinct bl" "idle_cache s" "dirty_blocks s = set bl"
    using c by (auto simp: commit_ready_def)
  have n: "0 \<le> header_n (disk r) ?st" using A(1) by simp
  have f: "log_fits ?st (header_blocks (disk r) ?st) r" unfolding A(2) using fits(1) R(5) by (simp add: log_fits_def)
  obtain r' h where r': "recover_from_log me r = Inr r'" "header_n (disk r') ?st = 0"
    "disk r' = apply_writes (home_writes bl (\<lambda>t. disk r (log_slot ?st t)) [0..<length bl] @ [(?st, h)]) (disk r)"
    using recover_spec [OF R(1-4) n f, of me] unfolding A(2) by metis
  have "disk r' b = bview s b" if b: "b \<notin> log_area ?st" for b
  proof -
    have "b \<noteq> ?st" using b by (auto simp: log_area_def)
    then have d: "disk r' b = apply_writes (home_writes bl (\<lambda>t. disk r (log_slot ?st t)) [0..<length bl]) (disk r) b"
      using r'(3) by simp
    show ?thesis
    proof (cases "b \<in> set bl")
      case True
      then obtain t where t: "t < length bl" "b = bl ! t" by (auto simp: in_set_conv_nth)
      with d apply_home_writes [OF fits(2) t(1) order_refl] A(3) show ?thesis by simp
    next
      case False
      then have "disk r' b = disk r b" unfolding d by (intro apply_writes_other) (auto simp: home_writes_def)
      then show ?thesis
        using A(4) b False fits(3,4) clean_block_on_disk [of _ s b] by (auto simp: idle_cache_def)
    qed
  qed
  with r' show ?thesis by auto
qed

text \<open>
  Property C4. A commit is atomic with respect to crashes: \<open>commit\<close> succeeds, and if the machine stops after any number
  \<open>k\<close> of its disk writes and starts again, recovery succeeds and leaves every block outside the log as it was
  before the transaction, if the header was not written yet, or as the transaction left it, if it was.
\<close>

theorem commit_crash_atomic:
  assumes "commit_ready bl s"
  shows "\<exists>s' ws. commit me s = Inr s' \<and> dwrites s' = dwrites s @ ws \<and>
     (\<forall>k r. restarted s (apply_writes (take k ws) (disk s)) r \<longrightarrow>
        (\<exists>r'. recover_from_log me r = Inr r' \<and> header_n (disk r') (lg_start (log s)) = 0 \<and>
           (\<forall>b. b \<notin> log_area (lg_start (log s)) \<longrightarrow>
              disk r' b = (if k \<le> length bl then disk s b else bview s b))))"
proof -
  let ?st = "lg_start (log s)"
  obtain s' where s': "commit me s = Inr s'" "dwrites s' = dwrites s @ commit_writes bl s"
    using commit_spec [OF assms] by metis
  have rec: "\<exists>r'. recover_from_log me r = Inr r' \<and> header_n (disk r') ?st = 0 \<and>
      (\<forall>b. b \<notin> log_area ?st \<longrightarrow> disk r' b = (if k \<le> length bl then disk s b else bview s b))"
    if r: "restarted s (apply_writes (take k (commit_writes bl s)) (disk s)) r" for k r
  proof (cases "k \<le> length bl")
    case True
    with crash_before [OF assms True r] recover_empty [OF assms r] show ?thesis by auto
  next
    case False
    then have k: "length bl < k" by simp
    from crash_after [OF assms k r] show ?thesis
      using recover_empty [OF assms r, of me] recover_committed [OF assms r, of me] False by auto
  qed
  then show ?thesis using s' by blast
qed

definition logged_boot :: lkernel where
  "logged_boot = upd_log (\<lambda>l. l\<lparr>lh_n := 1, lh_block := (lh_block l)[0 := 100]\<rparr>)
     (set_buf 0 (zero_buf\<lparr>b_valid := True, b_dirty := True, b_dev := 1, b_blockno := 100, b_data := replicate BSIZE 9\<rparr>) (log_boot 30))"

lemma log_boot_cache:
  "bc_inv (rev [0..<NBUF]) (log_boot n)" "locked (log_boot n) = {}" "dirty_blocks (log_boot n) = {}"
  "disk (log_boot n) = disk bio_boot" "disksize (log_boot n) = 1000" "bufs (log_boot n) = bufs bio_boot"
proof -
  show b: "bufs (log_boot n) = bufs bio_boot" "disk (log_boot n) = disk bio_boot" "disksize (log_boot n) = 1000"
    using bio_boot_facts(3) by (simp_all add: log_boot_def bkernel.defs)
  show "bc_inv (rev [0..<NBUF]) (log_boot n)"
    using bio_boot_facts(1) unfolding bc_inv_def b by (simp add: log_boot_def bkernel.defs)
  show "locked (log_boot n) = {}" "dirty_blocks (log_boot n) = {}"
    using bio_boot_facts(5) by (auto simp: locked_def dirty_blocks_def b zero_buf_def initsleeplock_def)
qed

lemma logged_boot_ready: "commit_ready [100] logged_boot"
proof -
  let ?x = "zero_buf\<lparr>b_valid := True, b_dirty := True, b_dev := 1, b_blockno := 100, b_data := replicate BSIZE 9\<rparr>"
  note L = log_boot_cache [of 30]
  have len: "length (bufs (log_boot 30)) = NBUF" using L(1) by (simp add: bc_inv_def)
  have z: "bufs (log_boot 30) ! j = zero_buf\<lparr>b_lock := initsleeplock ''buffer'' zero_sleeplock\<rparr>" if "j < NBUF" for j
    using bio_boot_facts(5) [OF that] by (simp add: L(6))
  have i: "bc_inv (rev [0..<NBUF]) (set_buf 0 ?x (log_boot 30))"
    by (rule bc_inv_set_buf [OF L(1)]) (use z in \<open>auto simp: buf_ok_def zero_buf_def zero_sleeplock_def\<close>)
  have nth: "bufs logged_boot ! j = (if j = 0 then ?x else zero_buf\<lparr>b_lock := initsleeplock ''buffer'' zero_sleeplock\<rparr>)"
    if "j < NBUF" for j
    using z [OF that] len that by (cases "j = 0") (simp_all add: logged_boot_def)
  have f: "\<not> sl_locked (b_lock (bufs logged_boot ! j))" "b_dirty (bufs logged_boot ! j) \<longleftrightarrow> j = 0" if "j < NBUF" for j
    unfolding nth [OF that] by (simp_all add: zero_buf_def zero_sleeplock_def initsleeplock_def)
  have b0: "b_blockno (bufs logged_boot ! 0) = 100" using nth [of 0] by simp
  have lk: "locked logged_boot = {}" using f(1) by (auto simp: locked_def)
  have "n \<in> dirty_blocks logged_boot \<longleftrightarrow> n = 100" for n
  proof -
    have "(\<exists>i < NBUF. b_dirty (bufs logged_boot ! i) \<and> b_blockno (bufs logged_boot ! i) = n) \<longleftrightarrow>
        (\<exists>i < NBUF. i = 0 \<and> b_blockno (bufs logged_boot ! i) = n)" using f(2) by blast
    then show ?thesis unfolding dirty_blocks_iff using b0 by auto
  qed
  then have db: "dirty_blocks logged_boot = {100}" by blast
  have lg: "log logged_boot = (log (log_boot 30))\<lparr>lh_n := 1, lh_block := (replicate LOGSIZE 0)[0 := 100]\<rparr>"
    by (simp add: logged_boot_def log_log_boot)
  have ds: "disksize logged_boot = 1000" "disk logged_boot = disk bio_boot"
    using L(4,5) by (simp_all add: logged_boot_def)
  have area: "(100::u32) \<notin> log_area 2"
  proof -
    have "unat (log_slot 2 t) < 100" if "t < LOGSIZE" for t
    proof -
      have e: "log_slot 2 t = of_nat (t + 3)" by (simp add: log_slot_def)
      show ?thesis using unat_of_nat_u32 [of "t + 3"] that unfolding e by linarith
    qed
    then show ?thesis by (fastforce simp: log_area_def)
  qed
  have ic: "idle_cache logged_boot" using i lk unfolding idle_cache_def logged_boot_def by auto
  have fits: "log_fits 2 [100] logged_boot" using area by (simp add: log_fits_def ds)
  have "get32 (disk logged_boot 2) 0 = 0"
    by (simp add: ds bio_boot_facts(4) get32_def word32_def slice_def nth_drop)
  moreover have "take 1 ((replicate LOGSIZE 0)[0 := 100::u32]) = [100]" by (simp add: numeral_eq_Suc)
  ultimately show ?thesis using ic db fits by (simp add: commit_ready_def lg log_log_boot)
qed

theorem commit_crash_atomic_witness:
  "\<exists>s' r'. commit 0 logged_boot = Inr s' \<and> recover_from_log 0 (log_boot 30) = Inr r' \<and> disk r' 100 = disk bio_boot 100"
proof -
  have "restarted logged_boot (disk logged_boot) (log_boot 30)"
    using log_boot_cache [of 30]
    by (auto simp: restarted_def idle_cache_def log_log_boot logged_boot_def)
  moreover have "lg_start (log logged_boot) = 2" by (simp add: logged_boot_def log_log_boot)
  moreover have "(100::u32) \<notin> log_area 2" "disk logged_boot = disk bio_boot"
    using logged_boot_ready calculation(2) log_boot_cache(4) by (auto simp: commit_ready_def log_fits_def logged_boot_def)
  ultimately show ?thesis using commit_crash_atomic [OF logged_boot_ready, of 0] by (metis apply_writes_simps(1) le0 take0)
qed

end
