(* ===== verification/Tx.thy ===== *)
theory Tx
  imports Crash
begin

text \<open>
  Inside a transaction.  The file system code between \<open>begin_op\<close> and \<open>end_op\<close> reads blocks, changes them through
  \<open>log_write\<close> and releases them.  \<open>tx me H k s\<close> describes such a moment: the process \<open>me\<close> holds the buffers \<open>H\<close>
  (buffer and block number), the blocks that differ from the disk are those in the log, and there is room for \<open>k\<close>
  more calls of \<open>log_write\<close>.  Each primitive has one law that keeps it; the laws are total: the call returns.
\<close>

section \<open>The state of a transaction\<close>

definition logged :: "'a lkernel_scheme \<Rightarrow> u32 list" where
  "logged s = take (nat (lh_n (log s))) (lh_block (log s))"

definition log_room :: "nat \<Rightarrow> log \<Rightarrow> bool" where
  "log_room k l \<longleftrightarrow>
     0 \<le> lh_n l \<and> lh_n l + int k \<le> 27 \<and> lh_n l + int k < lg_size l \<and> length (lh_block l) = LOGSIZE \<and>
     distinct (take (nat (lh_n l)) (lh_block l)) \<and> (k = 0 \<or> 1 \<le> lg_outstanding l)"

definition holding_buf :: "nat \<Rightarrow> 'a bkernel_scheme \<Rightarrow> nat \<Rightarrow> u32 \<Rightarrow> bool" where
  "holding_buf me s b n \<longleftrightarrow> held me b n s \<and> (b_dirty (bufs s ! b) \<or> b_data (bufs s ! b) = disk s n)"

definition tx :: "nat \<Rightarrow> (nat \<times> u32) list \<Rightarrow> nat \<Rightarrow> 'a lkernel_scheme \<Rightarrow> bool" where
  "tx me H k s \<longleftrightarrow>
     (\<exists>lru. bc_inv lru s) \<and> locked s = fst ` set H \<and> distinct (map fst H) \<and> distinct (map snd H) \<and>
     (\<forall>(b, n) \<in> set H. holding_buf me s b n) \<and> log_room k (log s) \<and> dirty_blocks s = set (logged s)"

lemma txI:
  assumes "bc_inv lru s" "locked s = fst ` set H" "distinct (map fst H)" "distinct (map snd H)"
    "\<And>b n. (b, n) \<in> set H \<Longrightarrow> holding_buf me s b n" "log_room k (log s)" "dirty_blocks s = set (logged s)"
  shows "tx me H k s"
  using assms by (auto simp: tx_def)

text \<open>What the primitives leave alone: all but the cache, the log and the processes that they wake.\<close>

definition tx_frame :: "'a lkernel_scheme \<Rightarrow> 'a lkernel_scheme \<Rightarrow> bool" where
  "tx_frame s s' \<longleftrightarrow> woken (ptable s) (ptable s') \<and> lg_outstanding (log s') = lg_outstanding (log s) \<and>
     s' = s\<lparr>ptable := ptable s', bufs := bufs s', bc_next := bc_next s', bc_prev := bc_prev s', log := log s'\<rparr>"

lemma tx_frame_refl [simp]: "tx_frame s s"
  by (simp add: tx_frame_def)

lemma tx_frame_trans: "tx_frame s1 s2 \<Longrightarrow> tx_frame s2 s3 \<Longrightarrow> tx_frame s1 s3"
proof -
  assume a: "tx_frame s1 s2" "tx_frame s2 s3"
  then have e: "s2 = s1\<lparr>ptable := ptable s2, bufs := bufs s2, bc_next := bc_next s2, bc_prev := bc_prev s2, log := log s2\<rparr>"
    "s3 = s2\<lparr>ptable := ptable s3, bufs := bufs s3, bc_next := bc_next s3, bc_prev := bc_prev s3, log := log s3\<rparr>"
    by (simp_all add: tx_frame_def)
  have "s3 = s1\<lparr>ptable := ptable s3, bufs := bufs s3, bc_next := bc_next s3, bc_prev := bc_prev s3, log := log s3\<rparr>"
    by (subst e(2), subst e(1)) simp
  with a show ?thesis using woken_trans unfolding tx_frame_def by metis
qed

lemma bc_frame_tx: "bc_frame s s' \<Longrightarrow> tx_frame s s'"
proof -
  assume a: "bc_frame s s'"
  then have e: "s' = s\<lparr>ptable := ptable s', bufs := bufs s', bc_next := bc_next s', bc_prev := bc_prev s'\<rparr>"
    by (simp add: bc_frame_def)
  have l: "log s' = log s" by (subst e) simp
  have "s' = s\<lparr>ptable := ptable s', bufs := bufs s', bc_next := bc_next s', bc_prev := bc_prev s', log := log s'\<rparr>"
    by (subst e) (simp add: l)
  then show ?thesis using a l by (simp add: tx_frame_def bc_frame_def)
qed

lemma tx_frameD:
  assumes "tx_frame s s'"
  shows "disk s' = disk s" "disksize s' = disksize s" "woken (ptable s) (ptable s')"
    "lg_outstanding (log s') = lg_outstanding (log s)"
proof -
  have e: "s' = s\<lparr>ptable := ptable s', bufs := bufs s', bc_next := bc_next s', bc_prev := bc_prev s', log := log s'\<rparr>"
    using assms by (simp add: tx_frame_def)
  show "disk s' = disk s" "disksize s' = disksize s" by (subst e; simp)+
qed (use assms in \<open>simp_all add: tx_frame_def\<close>)

section \<open>Laws of the primitives\<close>

lemma txD:
  assumes "tx me H k s"
  shows "\<exists>lru. bc_inv lru s" "locked s = fst ` set H" "distinct (map fst H)" "distinct (map snd H)"
    "(b, n) \<in> set H \<Longrightarrow> holding_buf me s b n" "log_room k (log s)"
    "dirty_blocks s = set (logged s)" "card (dirty_blocks s) = nat (lh_n (log s))"
proof -
  show r: "log_room k (log s)" and d: "dirty_blocks s = set (logged s)" using assms by (simp_all add: tx_def)
  show "card (dirty_blocks s) = nat (lh_n (log s))"
    unfolding d using r by (auto simp: logged_def log_room_def distinct_card)
qed (use assms in \<open>auto simp: tx_def\<close>)

text \<open>A buffer that is held shows the current contents of its block.\<close>

lemma tx_data:
  assumes "tx me H k s" and "(b, n) \<in> set H"
  shows "b_data (bufs s ! b) = bview s n"
proof -
  obtain lru where i: "bc_inv lru s" using txD(1) [OF assms(1)] by blast
  have "holding_buf me s b n" by (rule txD(5) [OF assms])
  then have "b < NBUF" "holds_block n (bufs s ! b)" by (simp_all add: holding_buf_def held_def)
  then show ?thesis using bview_cached [OF i(1)] by simp
qed

lemma tx_bview_length [simp]: "tx me H k s \<Longrightarrow> length (bview s n) = BSIZE"
  by (drule txD(1)) (auto intro: bview_length)

lemma tx_less: "tx me H k s \<Longrightarrow> j \<le> k \<Longrightarrow> tx me H j s"
  by (auto simp: tx_def log_room_def)

lemma tx_bread:
  assumes t: "tx me H k s" and n: "n \<notin> snd ` set H" "n < disksize s" and H: "length H \<le> 2"
  shows "ok_res (bread me 1 n s) (\<lambda>(b, s'). tx me ((b, n) # H) k s' \<and> bview s' = bview s \<and>
     dirty_blocks s' = dirty_blocks s \<and> log s' = log s \<and> tx_frame s s')"
proof -
  note T = txD [OF t]
  obtain lru where i0: "bc_inv lru s" using T(1) by blast
  have lk: "b_blockno (bufs s ! b) \<noteq> n" if bl: "b \<in> locked s" for b
  proof -
    obtain m where m: "(b, m) \<in> set H" using bl T(2) by auto
    then have "held me b m s" using T(5) by (simp add: holding_buf_def)
    then have "b_blockno (bufs s ! b) = m" by (simp add: held_def holds_block_def)
    then show ?thesis using n(1) m by force
  qed
  have "card (locked s) \<le> length H" unfolding T(2) by (metis card_length length_map list.set_map)
  moreover have "lh_n (log s) \<le> 27" using T(6) by (simp add: log_room_def)
  ultimately have room: "card (locked s) + card (dirty_blocks s) < NBUF" using T(8) H by simp
  obtain b s' where rd: "bread me 1 n s = Inr (b, s')" using bread_ok [OF i0 n(2) lk] room by blast
  obtain R: "held me b n s'" "bc_inv lru s'" "bview s' = bview s" "bc_frame s s'"
    "locked s' = insert b (locked s)" "b \<notin> locked s" "dirty_blocks s' = dirty_blocks s"
    "\<And>c. c \<noteq> b \<Longrightarrow> bufs s' ! c = bufs s ! c" "b_data (bufs s' ! b) = bview s n"
    "b_dirty (bufs s' ! b) \<longleftrightarrow> n \<in> dirty_blocks s" "n \<notin> dirty_blocks s \<Longrightarrow> b_data (bufs s' ! b) = disk s n"
    using bread_spec [OF i0 rd] by blast
  note F = bc_frame_tx [OF R(4)] and l = dk_frame_log [OF bc_frame_dk [OF R(4)]]
  have new: "b \<notin> fst ` set H" using R(6) T(2) by simp
  have "tx me ((b, n) # H) k s'"
  proof (rule txI [OF R(2)])
    show "locked s' = fst ` set ((b, n) # H)" using R(5) T(2) by simp
    show "distinct (map fst ((b, n) # H))" using T(3) new by simp
    show "distinct (map snd ((b, n) # H))" using T(4) n(1) by simp
    show "log_room k (log s')" using T(6) l by simp
    show "dirty_blocks s' = set (logged s')" using T(7) R(7) l by (simp add: logged_def)
    fix c m
    assume i: "(c, m) \<in> set ((b, n) # H)"
    show "holding_buf me s' c m"
    proof (cases "(c, m) \<in> set H")
      case True
      then have e: "bufs s' ! c = bufs s ! c" using new by (intro R(8)) force
      have "held me c m s" using T(5) [OF True] by (simp add: holding_buf_def)
      from held_frame [OF this e R(4)] show ?thesis
        using T(5) [OF True] e tx_frameD(1) [OF F] by (simp add: holding_buf_def)
    next
      case False
      then show ?thesis using i R(1,10,11) tx_frameD(1) [OF F] by (auto simp: holding_buf_def)
    qed
  qed
  then show ?thesis using rd R(3,7) F l by simp
qed

lemma tx_brelse:
  assumes t: "tx me ((b, n) # H) k s"
  shows "ok_res (brelse me b s) (\<lambda>s'. tx me H k s' \<and> bview s' = bview s \<and> dirty_blocks s' = dirty_blocks s \<and>
     log s' = log s \<and> tx_frame s s')"
proof -
  note T = txD [OF t]
  obtain lru where i0: "bc_inv lru s" using T(1) by blast
  have h: "held me b n s" "b_dirty (bufs s ! b) \<or> b_data (bufs s ! b) = disk s n"
    using T(5) [of b n] by (simp_all add: holding_buf_def)
  obtain s' lru' where R: "brelse me b s = Inr s'" "bc_inv lru' s'" "bview s' = bview s" "bc_frame s s'"
    "locked s' = locked s - {b}" "dirty_blocks s' = dirty_blocks s" "\<And>c. c \<noteq> b \<Longrightarrow> bufs s' ! c = bufs s ! c"
    using brelse_sets [OF i0 h] by blast
  note F = bc_frame_tx [OF R(4)] and l = dk_frame_log [OF bc_frame_dk [OF R(4)]]
  have nb: "b \<notin> fst ` set H" using T(3) by (auto simp: image_iff)
  have "tx me H k s'"
  proof (rule txI [OF R(2)])
    show "locked s' = fst ` set H" using R(5) T(2) nb by auto
    show "distinct (map fst H)" using T(3) by simp
    show "distinct (map snd H)" using T(4) by simp
    show "log_room k (log s')" using T(6) l by simp
    show "dirty_blocks s' = set (logged s')" using T(7) R(6) l by (simp add: logged_def)
    fix c m
    assume i: "(c, m) \<in> set H"
    then have e: "bufs s' ! c = bufs s ! c" using nb by (intro R(7)) force
    have p: "holding_buf me s c m" using T(5) i by simp
    then have "held me c m s" by (simp add: holding_buf_def)
    from held_frame [OF this e R(4)] show "holding_buf me s' c m"
      using p e tx_frameD(1) [OF F] by (simp add: holding_buf_def)
  qed
  then show ?thesis using R(1,3,6) F l by simp
qed

text \<open>New data for a block that is held, and its entry in the log.\<close>

lemma log_write_entry:
  assumes r: "log_room (Suc k) (log s)" and n: "b_blockno (bufs s ! b) = n"
  obtains l where "log_write b s = Inr (upd_buf b (\<lambda>x. x\<lparr>b_dirty := True\<rparr>) (s\<lparr>log := l\<rparr>))" "log_room k l"
    "lg_outstanding l = lg_outstanding (log s)" "set (take (nat (lh_n l)) (lh_block l)) = insert n (set (logged s))"
proof (cases "n \<in> set (logged s)")
  case True
  then obtain j where j: "find_index (\<lambda>x. x = n) (logged s) = Some j"
    using find_index_None_iff [of "\<lambda>x. x = n" "logged s"] by auto
  then have "j < length (logged s)" "logged s ! j = n" by (auto simp: find_index_Some_iff)
  then have jn: "j < nat (lh_n (log s))" "lh_block (log s) ! j = n" by (simp_all add: logged_def)
  then have e: "(lh_block (log s))[j := n] = lh_block (log s)" by (metis list_update_id)
  have "log_write b s = Inr (upd_buf b (\<lambda>x. x\<lparr>b_dirty := True\<rparr>) (s\<lparr>log := log s\<rparr>))"
    using r n j jn e by (simp add: log_write_def logged_def upd_log_def log_room_def)
  then show thesis using that [of "log s"] r True by (auto simp: logged_def log_room_def)
next
  case False
  let ?m = "nat (lh_n (log s))"
  have f: "find_index (\<lambda>x. x = n) (take ?m (lh_block (log s))) = None"
    using False by (auto simp: find_index_None_iff logged_def)
  let ?l = "(log s)\<lparr>lh_block := (lh_block (log s))[?m := n], lh_n := lh_n (log s) + 1\<rparr>"
  have w: "log_write b s = Inr (upd_buf b (\<lambda>x. x\<lparr>b_dirty := True\<rparr>) (s\<lparr>log := ?l\<rparr>))"
    using r n f by (simp add: log_write_def upd_log_def log_room_def)
  have m: "nat (lh_n (log s) + 1) = Suc ?m" "?m < length (lh_block (log s))" using r by (auto simp: log_room_def)
  have t: "take (nat (lh_n ?l)) (lh_block ?l) = logged s @ [n]"
    using m by (simp add: take_Suc_conv_app_nth logged_def)
  have "log_room k ?l" using r False t unfolding log_room_def logged_def by auto
  with w t show thesis using that [of ?l] by simp
qed

lemma bview_log [simp]:
  "bview (s\<lparr>log := l\<rparr>) = bview s" "bc_inv lru (s\<lparr>log := l\<rparr>) = bc_inv lru s" "locked (s\<lparr>log := l\<rparr>) = locked s"
  "dirty_blocks (s\<lparr>log := l\<rparr>) = dirty_blocks s" "held me b n (s\<lparr>log := l\<rparr>) = held me b n s"
  by (auto simp: fun_eq_iff bc_inv_def held_def holdingsleep_def bview_def locked_def dirty_blocks_def split: option.split)

lemma tx_log_write:
  assumes t: "tx me ((b, n) # H) (Suc k) s" and d: "length (d (bufs s ! b)) = BSIZE"
  shows "ok_res (log_write b (upd_buf b (\<lambda>x. x\<lparr>b_data := d x\<rparr>) s)) (\<lambda>s'. tx me ((b, n) # H) k s' \<and>
     bview s' = (bview s)(n := d (bufs s ! b)) \<and> dirty_blocks s' = insert n (dirty_blocks s) \<and> tx_frame s s')"
proof -
  note T = txD [OF t]
  obtain lru where i0: "bc_inv lru s" using T(1) by blast
  have h: "held me b n s" using T(5) [of b n] by (simp add: holding_buf_def)
  have len: "length (bufs s) = NBUF" using i0 by (simp add: bc_inv_def)
  have bN: "b < NBUF" "b_blockno (bufs s ! b) = n" using heldD(1,2) [OF h] by (simp_all add: holds_block_def)
  define s1 where "s1 = upd_buf b (\<lambda>x. x\<lparr>b_data := d x\<rparr>) s"
  have s1: "log s1 = log s" "logged s1 = logged s" "b_blockno (bufs s1 ! b) = n"
    using bN len by (simp_all add: s1_def logged_def upd_buf_def)
  obtain l where l: "log_write b s1 = Inr (upd_buf b (\<lambda>x. x\<lparr>b_dirty := True\<rparr>) (s1\<lparr>log := l\<rparr>))" "log_room k l"
    "lg_outstanding l = lg_outstanding (log s1)" "set (take (nat (lh_n l)) (lh_block l)) = insert n (set (logged s1))"
    using log_write_entry [OF T(6) [folded s1(1)] s1(3)] by blast
  define s2 where "s2 = set_buf b ((bufs s ! b)\<lparr>b_data := d (bufs s ! b), b_dirty := True\<rparr>) s"
  define s' where "s' = s2\<lparr>log := l\<rparr>"
  have e: "upd_buf b (\<lambda>x. x\<lparr>b_dirty := True\<rparr>) (s1\<lparr>log := l\<rparr>) = s'"
    using bN len by (simp add: s'_def s1_def s2_def upd_buf_def set_buf_def)
  note S = set_data [OF i0 h d, where dty = True, folded s2_def] set_data_sets [OF i0 h, where dty = True
      and d = "d (bufs s ! b)", folded s2_def]
  have F: "tx_frame s s'" using l(3) s1(1) by (simp add: tx_frame_def s'_def s2_def set_buf_def)
  have "tx me ((b, n) # H) k s'"
  proof (rule txI)
    show "bc_inv lru s'" using S(1) by (simp add: s'_def)
    show "locked s' = fst ` set ((b, n) # H)" using S(4) T(2) by (simp add: s'_def)
    show "log_room k (log s')" using l(2) by (simp add: s'_def)
    show "dirty_blocks s' = set (logged s')" using S(5) T(7) l(4) s1(2) by (simp add: s'_def logged_def)
    fix c m
    assume i: "(c, m) \<in> set ((b, n) # H)"
    show "holding_buf me s' c m"
    proof (cases "(c, m) \<in> set H")
      case True
      then have "b \<noteq> c" using T(3) by (auto simp: image_iff)
      then have q: "bufs s2 ! c = bufs s ! c" by (simp add: s2_def)
      have "held me c m s2" using T(5) [OF i] q by (simp add: holding_buf_def held_def holdingsleep_def s2_def)
      then show ?thesis using T(5) [OF i] q by (simp add: holding_buf_def s'_def s2_def)
    next
      case False
      then show ?thesis using i S(2) bN len by (simp add: holding_buf_def s'_def s2_def)
    qed
  qed (use T(3,4) in simp_all)
  then show ?thesis using l(1) S(3,5) F unfolding s1_def [symmetric] e by (simp add: s'_def)
qed

lemmas tx_laws = tx_bread tx_log_write tx_brelse

end
