(* ===== verification/Inode.thy ===== *)
theory Inode
  imports Tx
begin

text \<open>
  The lower half of kernel/fs.c: the block allocator, the inode cache and the block map of an inode.  An inode
  pointer is an index of \<open>inodes\<close>.  The functions are runs of process \<open>me\<close>; one that finds an inode or a
  buffer locked ends in \<open>Waits\<close>.
\<close>

abbreviation NINODE :: nat where "NINODE \<equiv> 50"
abbreviation ROOTINO :: u32 where "ROOTINO \<equiv> 1"
abbreviation T_DIR :: u16 where "T_DIR \<equiv> 1"
abbreviation T_FILE :: u16 where "T_FILE \<equiv> 2"
abbreviation T_DEV :: u16 where "T_DEV \<equiv> 3"

section \<open>State\<close>

record inode =
  i_dev :: u32
  i_inum :: u32
  i_ref :: int
  i_lock :: sleeplock
  i_valid :: bool
  i_type :: u16
  i_major :: u16
  i_minor :: u16
  i_nlink :: u16
  i_size :: u32
  i_addrs :: "u32 list"

record ikernel = lkernel +
  sblk :: superblock
  icache_lock :: spinlock
  inodes :: "inode list"

definition upd_inode :: "nat \<Rightarrow> (inode \<Rightarrow> inode) \<Rightarrow> 'a ikernel_scheme \<Rightarrow> 'a ikernel_scheme" where
  "upd_inode ip f s = s\<lparr>inodes := (inodes s)[ip := f (inodes s ! ip)]\<rparr>"

section \<open>Blocks\<close>

definition bzero :: "nat \<Rightarrow> u32 \<Rightarrow> u32 \<Rightarrow> 'a lkernel_scheme \<Rightarrow> 'a lkernel_scheme res" where
  "bzero me dev bno s =
     bind_res (bread me dev bno s) (\<lambda>(bp, s1).
     bind_res (log_write bp (upd_buf bp (\<lambda>x. x\<lparr>b_data := replicate BSIZE 0\<rparr>) s1)) (\<lambda>s2.
     brelse me bp s2))"

text \<open>Bit \<open>bi\<close> of a bitmap block, and the block with that bit set or cleared.\<close>

definition bmap_bit :: "u8 list \<Rightarrow> nat \<Rightarrow> bool" where
  "bmap_bit d bi \<longleftrightarrow> d ! (bi div 8) AND push_bit (bi mod 8) 1 \<noteq> 0"

definition bmap_set :: "u8 list \<Rightarrow> nat \<Rightarrow> u8 list" where
  "bmap_set d bi = d[bi div 8 := d ! (bi div 8) OR push_bit (bi mod 8) 1]"

definition bmap_clear :: "u8 list \<Rightarrow> nat \<Rightarrow> u8 list" where
  "bmap_clear d bi = d[bi div 8 := d ! (bi div 8) AND NOT (push_bit (bi mod 8) 1)]"

text \<open>The outer loop of \<open>balloc\<close> over the bitmap blocks; the inner loop is the search for a clear bit.\<close>

primrec balloc_from :: "nat \<Rightarrow> u32 \<Rightarrow> nat list \<Rightarrow> 'a ikernel_scheme \<Rightarrow> (u32 \<times> 'a ikernel_scheme) res" where
  "balloc_from me dev [] s = Inl (Panic ''balloc: out of blocks'')"
| "balloc_from me dev (b # bs) s =
     bind_res (bread me dev (BBLOCK (of_nat b) (sblk s)) s) (\<lambda>(bp, s1).
       let d = b_data (bufs s1 ! bp)
       in case find (\<lambda>bi. \<not> bmap_bit d bi) [0..<min BPB (unat (sb_size (sblk s)) - b)] of
            Some bi \<Rightarrow>
              bind_res (log_write bp (upd_buf bp (\<lambda>x. x\<lparr>b_data := bmap_set d bi\<rparr>) s1)) (\<lambda>s2.
              bind_res (brelse me bp s2) (\<lambda>s3.
              bind_res (bzero me dev (of_nat (b + bi)) s3) (\<lambda>s4.
              Inr (of_nat (b + bi), s4))))
          | None \<Rightarrow> bind_res (brelse me bp s1) (balloc_from me dev bs))"

definition balloc :: "nat \<Rightarrow> u32 \<Rightarrow> 'a ikernel_scheme \<Rightarrow> (u32 \<times> 'a ikernel_scheme) res" where
  "balloc me dev s =
     balloc_from me dev (map (\<lambda>k. k * BPB) [0..<(unat (sb_size (sblk s)) + BPB - 1) div BPB]) s"

definition bfree :: "nat \<Rightarrow> u32 \<Rightarrow> u32 \<Rightarrow> 'a ikernel_scheme \<Rightarrow> 'a ikernel_scheme res" where
  "bfree me dev b s =
     bind_res (bread me dev (BBLOCK b (sblk s)) s) (\<lambda>(bp, s1).
       let d = b_data (bufs s1 ! bp); bi = unat b mod BPB
       in guard_res (\<not> bmap_bit d bi) ''freeing free block''
            (bind_res (log_write bp (upd_buf bp (\<lambda>x. x\<lparr>b_data := bmap_clear d bi\<rparr>) s1)) (\<lambda>s2.
             brelse me bp s2)))"

section \<open>Inodes\<close>

definition iinit :: "nat \<Rightarrow> u32 \<Rightarrow> 'a ikernel_scheme \<Rightarrow> 'a ikernel_scheme res" where
  "iinit me dev s =
     bind_res (readsb me dev
                 (s\<lparr>icache_lock := initlock ''icache'' (icache_lock s),
                    inodes := map (\<lambda>ip. ip\<lparr>i_lock := initsleeplock ''inode'' (i_lock ip)\<rparr>) (inodes s)\<rparr>))
       (\<lambda>(sb, s1). Inr (s1\<lparr>sblk := sb\<rparr>))"

text \<open>The slot of an inode in its block, and the copies between a cached inode and its slot.\<close>

definition dinode_off :: "u32 \<Rightarrow> nat" where
  "dinode_off inum = unat inum mod IPB * DINODE_SIZE"

definition get_dinode :: "u8 list \<Rightarrow> u32 \<Rightarrow> dinode" where
  "get_dinode d inum = dinode_of (slice d (dinode_off inum) DINODE_SIZE)"

definition put_dinode :: "u8 list \<Rightarrow> u32 \<Rightarrow> dinode \<Rightarrow> u8 list" where
  "put_dinode d inum di = splice d (dinode_off inum) (dinode_bytes di)"

definition inode_dinode :: "inode \<Rightarrow> dinode" where
  "inode_dinode ip =
     \<lparr>di_type = i_type ip, di_major = i_major ip, di_minor = i_minor ip, di_nlink = i_nlink ip, di_size = i_size ip,
      di_addrs = i_addrs ip\<rparr>"

definition load_dinode :: "dinode \<Rightarrow> inode \<Rightarrow> inode" where
  "load_dinode di ip =
     ip\<lparr>i_type := di_type di, i_major := di_major di, i_minor := di_minor di, i_nlink := di_nlink di,
        i_size := di_size di, i_addrs := di_addrs di\<rparr>"

definition iget :: "u32 \<Rightarrow> u32 \<Rightarrow> 'a ikernel_scheme \<Rightarrow> (nat \<times> 'a ikernel_scheme) res" where
  "iget dev inum s =
     (case find_index (\<lambda>ip. i_ref ip > 0 \<and> i_dev ip = dev \<and> i_inum ip = inum) (inodes s) of
        Some ip \<Rightarrow> Inr (ip, upd_inode ip (\<lambda>x. x\<lparr>i_ref := i_ref x + 1\<rparr>) s)
      | None \<Rightarrow>
          (case find_index (\<lambda>ip. i_ref ip = 0) (inodes s) of
             None \<Rightarrow> Inl (Panic ''iget: no inodes'')
           | Some ip \<Rightarrow>
               Inr (ip, upd_inode ip (\<lambda>x. x\<lparr>i_dev := dev, i_inum := inum, i_ref := 1, i_valid := False\<rparr>) s)))"

primrec ialloc_from :: "nat \<Rightarrow> u32 \<Rightarrow> u16 \<Rightarrow> nat list \<Rightarrow> 'a ikernel_scheme \<Rightarrow> (nat \<times> 'a ikernel_scheme) res" where
  "ialloc_from me dev type [] s = Inl (Panic ''ialloc: no inodes'')"
| "ialloc_from me dev type (n # ns) s =
     (let inum = of_nat n
      in bind_res (bread me dev (IBLOCK inum (sblk s)) s) (\<lambda>(bp, s1).
           let d = b_data (bufs s1 ! bp)
           in if di_type (get_dinode d inum) = 0
              then bind_res (log_write bp
                               (upd_buf bp (\<lambda>x. x\<lparr>b_data := put_dinode d inum (zero_dinode\<lparr>di_type := type\<rparr>)\<rparr>) s1)) (\<lambda>s2.
                   bind_res (brelse me bp s2) (iget dev inum))
              else bind_res (brelse me bp s1) (ialloc_from me dev type ns)))"

definition ialloc :: "nat \<Rightarrow> u32 \<Rightarrow> u16 \<Rightarrow> 'a ikernel_scheme \<Rightarrow> (nat \<times> 'a ikernel_scheme) res" where
  "ialloc me dev type s = ialloc_from me dev type [1..<unat (sb_ninodes (sblk s))] s"

definition iupdate :: "nat \<Rightarrow> nat \<Rightarrow> 'a ikernel_scheme \<Rightarrow> 'a ikernel_scheme res" where
  "iupdate me ip s =
     (let x = inodes s ! ip
      in bind_res (bread me (i_dev x) (IBLOCK (i_inum x) (sblk s)) s) (\<lambda>(bp, s1).
         bind_res (log_write bp
                     (upd_buf bp (\<lambda>b. b\<lparr>b_data := put_dinode (b_data b) (i_inum x) (inode_dinode x)\<rparr>) s1)) (\<lambda>s2.
         brelse me bp s2)))"

definition idup :: "nat \<Rightarrow> 'a ikernel_scheme \<Rightarrow> nat \<times> 'a ikernel_scheme" where
  "idup ip s = (ip, upd_inode ip (\<lambda>x. x\<lparr>i_ref := i_ref x + 1\<rparr>) s)"

definition inode_acquire :: "nat \<Rightarrow> nat \<Rightarrow> 'a ikernel_scheme \<Rightarrow> 'a ikernel_scheme res" where
  "inode_acquire me ip s =
     (case acquiresleep me (CInodeLock ip) (i_lock (inodes s ! ip)) s of
        (Blocks, _, _) \<Rightarrow> Inl (Waits (CInodeLock ip))
      | (Returns _, l, s1) \<Rightarrow> Inr (upd_inode ip (\<lambda>x. x\<lparr>i_lock := l\<rparr>) s1))"

definition inode_release :: "nat \<Rightarrow> 'a ikernel_scheme \<Rightarrow> 'a ikernel_scheme" where
  "inode_release ip s =
     (case releasesleep (CInodeLock ip) (i_lock (inodes s ! ip)) s of (l, s1) \<Rightarrow>
        upd_inode ip (\<lambda>x. x\<lparr>i_lock := l\<rparr>) s1)"

definition ilock :: "nat \<Rightarrow> nat \<Rightarrow> 'a ikernel_scheme \<Rightarrow> 'a ikernel_scheme res" where
  "ilock me ip s =
     guard_res (i_ref (inodes s ! ip) < 1) ''ilock''
       (bind_res (inode_acquire me ip s) (\<lambda>s1.
          let x = inodes s1 ! ip
          in if i_valid x then Inr s1
             else bind_res (bread me (i_dev x) (IBLOCK (i_inum x) (sblk s1)) s1) (\<lambda>(bp, s2).
                  let di = get_dinode (b_data (bufs s2 ! bp)) (i_inum x)
                  in bind_res (brelse me bp (upd_inode ip (load_dinode di) s2)) (\<lambda>s3.
                     guard_res (di_type di = 0) ''ilock: no type''
                       (Inr (upd_inode ip (\<lambda>y. y\<lparr>i_valid := True\<rparr>) s3))))))"

definition iunlock :: "nat \<Rightarrow> nat \<Rightarrow> 'a ikernel_scheme \<Rightarrow> 'a ikernel_scheme res" where
  "iunlock me ip s =
     guard_res (\<not> holdingsleep me (i_lock (inodes s ! ip)) s \<or> i_ref (inodes s ! ip) < 1) ''iunlock''
       (Inr (inode_release ip s))"

section \<open>The blocks of an inode\<close>

definition bmap :: "nat \<Rightarrow> nat \<Rightarrow> u32 \<Rightarrow> 'a ikernel_scheme \<Rightarrow> (u32 \<times> 'a ikernel_scheme) res" where
  "bmap me ip bn s =
     (let x = inodes s ! ip
      in if unat bn < NDIRECT
         then (if i_addrs x ! unat bn = 0
               then bind_res (balloc me (i_dev x) s) (\<lambda>(addr, s1).
                      Inr (addr, upd_inode ip (\<lambda>y. y\<lparr>i_addrs := (i_addrs y)[unat bn := addr]\<rparr>) s1))
               else Inr (i_addrs x ! unat bn, s))
         else if unat bn - NDIRECT < NINDIRECT
         then bind_res (if i_addrs x ! NDIRECT = 0
                        then bind_res (balloc me (i_dev x) s) (\<lambda>(addr, s1).
                               Inr (addr, upd_inode ip (\<lambda>y. y\<lparr>i_addrs := (i_addrs y)[NDIRECT := addr]\<rparr>) s1))
                        else Inr (i_addrs x ! NDIRECT, s)) (\<lambda>(ind, s1).
              bind_res (bread me (i_dev x) ind s1) (\<lambda>(bp, s2).
                let j = unat bn - NDIRECT; addr = get32 (b_data (bufs s2 ! bp)) (4 * j)
                in if addr = 0
                   then bind_res (balloc me (i_dev x) s2) (\<lambda>(a, s3).
                        bind_res (log_write bp (upd_buf bp (\<lambda>b. b\<lparr>b_data := put32 (b_data b) (4 * j) a\<rparr>) s3)) (\<lambda>s4.
                        bind_res (brelse me bp s4) (\<lambda>s5. Inr (a, s5))))
                   else bind_res (brelse me bp s2) (\<lambda>s3. Inr (addr, s3))))
         else Inl (Panic ''bmap: out of range''))"

text \<open>The two loops of \<open>itrunc\<close>.\<close>

primrec itrunc_direct :: "nat \<Rightarrow> nat \<Rightarrow> nat list \<Rightarrow> 'a ikernel_scheme \<Rightarrow> 'a ikernel_scheme res" where
  "itrunc_direct me ip [] s = Inr s"
| "itrunc_direct me ip (i # ks) s =
     (let x = inodes s ! ip
      in if i_addrs x ! i \<noteq> 0
         then bind_res (bfree me (i_dev x) (i_addrs x ! i) s) (\<lambda>s1.
                itrunc_direct me ip ks (upd_inode ip (\<lambda>y. y\<lparr>i_addrs := (i_addrs y)[i := 0]\<rparr>) s1))
         else itrunc_direct me ip ks s)"

primrec itrunc_indirect :: "nat \<Rightarrow> u32 \<Rightarrow> u32 list \<Rightarrow> 'a ikernel_scheme \<Rightarrow> 'a ikernel_scheme res" where
  "itrunc_indirect me dev [] s = Inr s"
| "itrunc_indirect me dev (a # as) s =
     (if a \<noteq> 0 then bind_res (bfree me dev a s) (itrunc_indirect me dev as) else itrunc_indirect me dev as s)"

definition itrunc :: "nat \<Rightarrow> nat \<Rightarrow> 'a ikernel_scheme \<Rightarrow> 'a ikernel_scheme res" where
  "itrunc me ip s =
     bind_res (itrunc_direct me ip [0..<NDIRECT] s) (\<lambda>s1.
       let x = inodes s1 ! ip
       in bind_res
            (if i_addrs x ! NDIRECT \<noteq> 0
             then bind_res (bread me (i_dev x) (i_addrs x ! NDIRECT) s1) (\<lambda>(bp, s2).
                  bind_res (itrunc_indirect me (i_dev x)
                              (map (\<lambda>j. get32 (b_data (bufs s2 ! bp)) (4 * j)) [0..<NINDIRECT]) s2) (\<lambda>s3.
                  bind_res (brelse me bp s3) (\<lambda>s4.
                  bind_res (bfree me (i_dev x) (i_addrs x ! NDIRECT) s4) (\<lambda>s5.
                  Inr (upd_inode ip (\<lambda>y. y\<lparr>i_addrs := (i_addrs y)[NDIRECT := 0]\<rparr>) s5)))))
             else Inr s1) (\<lambda>s6.
          iupdate me ip (upd_inode ip (\<lambda>y. y\<lparr>i_size := 0\<rparr>) s6)))"

definition iput :: "nat \<Rightarrow> nat \<Rightarrow> 'a ikernel_scheme \<Rightarrow> 'a ikernel_scheme res" where
  "iput me ip s =
     bind_res (inode_acquire me ip s) (\<lambda>s1.
     bind_res (let x = inodes s1 ! ip
               in if i_valid x \<and> i_nlink x = 0 \<and> i_ref x = 1
                  then bind_res (itrunc me ip s1) (\<lambda>s2.
                       bind_res (iupdate me ip (upd_inode ip (\<lambda>y. y\<lparr>i_type := 0\<rparr>) s2)) (\<lambda>s3.
                       Inr (upd_inode ip (\<lambda>y. y\<lparr>i_valid := False\<rparr>) s3)))
                  else Inr s1) (\<lambda>s4.
     Inr (upd_inode ip (\<lambda>y. y\<lparr>i_ref := i_ref y - 1\<rparr>) (inode_release ip s4))))"

definition iunlockput :: "nat \<Rightarrow> nat \<Rightarrow> 'a ikernel_scheme \<Rightarrow> 'a ikernel_scheme res" where
  "iunlockput me ip s = bind_res (iunlock me ip s) (iput me ip)"

text \<open>\<open>struct stat\<close>.\<close>

record stat =
  st_type :: u16
  st_dev :: u32
  st_ino :: u32
  st_nlink :: u16
  st_size :: u32

definition stati :: "inode \<Rightarrow> stat" where
  "stati ip = \<lparr>st_type = i_type ip, st_dev = i_dev ip, st_ino = i_inum ip, st_nlink = i_nlink ip, st_size = i_size ip\<rparr>"

end
