(* ===== verification/Kbd.thy ===== *)
theory Kbd
  imports Prelude
begin

text \<open>
  kernel/kbd.h and kernel/kbd.c: the scan code tables and \<open>kbdgetc\<close>.  The controller is the list of scan codes it
  holds: the status port has the data bit while the list is not empty, and reading the data port takes the first.
\<close>

section \<open>Tables\<close>

abbreviation SHIFT :: u32 where "SHIFT \<equiv> 1"
abbreviation CTL :: u32 where "CTL \<equiv> 2"
abbreviation ALT :: u32 where "ALT \<equiv> 4"
abbreviation CAPSLOCK :: u32 where "CAPSLOCK \<equiv> 8"
abbreviation NUMLOCK :: u32 where "NUMLOCK \<equiv> 16"
abbreviation SCROLLLOCK :: u32 where "SCROLLLOCK \<equiv> 32"
abbreviation E0ESC :: u32 where "E0ESC \<equiv> 64"

text \<open>An array with designated initialisers: a positional prefix, then the designated entries; the rest is 0.\<close>

definition tab_entry :: "'a list \<Rightarrow> (nat \<times> 'a) list \<Rightarrow> 'a :: zero \<Rightarrow> nat \<Rightarrow> 'a" where
  "tab_entry prefix special z k =
     (if k < length prefix then prefix ! k else case map_of special k of Some v \<Rightarrow> v | None \<Rightarrow> z)"

definition shiftcode :: "nat \<Rightarrow> u32" where
  "shiftcode = tab_entry [] [(0x1D, CTL), (0x2A, SHIFT), (0x36, SHIFT), (0x38, ALT), (0x9D, CTL), (0xB8, ALT)] 0"

definition togglecode :: "nat \<Rightarrow> u32" where
  "togglecode = tab_entry [] [(0x3A, CAPSLOCK), (0x45, NUMLOCK), (0x46, SCROLLLOCK)] 0"

text \<open>Special key codes: HOME E0, END E1, UP E2, DN E3, LF E4, RT E5, PGUP E6, PGDN E7, INS E8, DEL E9.\<close>

definition special_keys :: "(nat \<times> u32) list" where
  "special_keys =
     [(0xC8, 0xE2), (0xD0, 0xE3), (0xC9, 0xE6), (0xD1, 0xE7), (0xCB, 0xE4), (0xCD, 0xE5), (0x97, 0xE0), (0xCF, 0xE1),
      (0xD2, 0xE8), (0xD3, 0xE9)]"

definition chars :: "string \<Rightarrow> u32 list" where
  "chars cs = map of_char cs"

definition normalmap :: "nat \<Rightarrow> u32" where
  "normalmap =
     tab_entry
       ([0, 0x1B] @ chars ''123456'' @
        chars ''7890-='' @ [8, 9] @
        chars ''qwertyui'' @
        chars ''op[]'' @ [10, 0] @ chars ''as'' @
        chars ''dfghjkl;'' @
        [39] @ [0x60] @ [0] @ [0x5C] @ chars ''zxcv'' @
        chars ''bnm,./'' @ [0] @ chars ''*'' @
        [0, 32, 0, 0, 0, 0, 0, 0] @
        [0, 0, 0, 0, 0, 0, 0] @ chars ''7'' @
        chars ''89-456+1'' @
        chars ''230.'' @ [0, 0, 0, 0])
       ([(0x9C, 10), (0xB5, 47)] @ special_keys) 0"

definition shiftmap :: "nat \<Rightarrow> u32" where
  "shiftmap =
     tab_entry
       ([0, 27] @ chars ''!@#$%^'' @
        chars ''&*()_+'' @ [8, 9] @
        chars ''QWERTYUI'' @
        chars ''OP{}'' @ [10, 0] @ chars ''AS'' @
        chars ''DFGHJKL:'' @
        [34] @ [0x7E] @ [0] @ [0x7C] @ chars ''ZXCV'' @
        chars ''BNM<>?'' @ [0] @ chars ''*'' @
        [0, 32, 0, 0, 0, 0, 0, 0] @
        [0, 0, 0, 0, 0, 0, 0] @ chars ''7'' @
        chars ''89-456+1'' @
        chars ''230.'' @ [0, 0, 0, 0])
       ([(0x9C, 10), (0xB5, 47)] @ special_keys) 0"

text \<open>\<open>C(x)\<close> is \<open>x - '@'\<close>; for \<open>'/'\<close> it is negative and the table entry is its low byte.\<close>

definition ctl :: "string \<Rightarrow> u32 list" where
  "ctl cs = map (\<lambda>c. (of_char c - 0x40) AND 0xFF) cs"

definition ctlmap :: "nat \<Rightarrow> u32" where
  "ctlmap =
     tab_entry
       (replicate 16 0 @
        ctl ''QWERTYUI'' @
        ctl ''OP'' @ [0, 0, 13, 0] @ ctl ''AS'' @
        ctl ''DFGHJKL'' @ [0] @
        [0, 0, 0, 0x1C] @ ctl ''ZXCV'' @
        ctl ''BNM'' @ [0, 0] @ ctl ''/'' @ [0, 0])
       ([(0x9C, 13), (0xB5, 0xEF)] @ special_keys) 0"

section \<open>Reading a key\<close>

definition charcode :: "u32 \<Rightarrow> nat \<Rightarrow> u32" where
  "charcode m = (if m = 0 then normalmap else if m = SHIFT then shiftmap else ctlmap)"

text \<open>The result, the new value of the static variable \<open>shift\<close> and the controller's list.\<close>

definition kbdgetc :: "u32 \<Rightarrow> u8 list \<Rightarrow> int \<times> u32 \<times> u8 list" where
  "kbdgetc shift q =
     (case q of
        [] \<Rightarrow> (-1, shift, [])
      | d # q' \<Rightarrow>
          let data = (ucast d :: u32)
          in if data = 0xE0 then (0, shift OR E0ESC, q')
             else if data AND 0x80 \<noteq> 0
             then (let data = (if shift AND E0ESC \<noteq> 0 then data else data AND 0x7F)
                   in (0, shift AND NOT (shiftcode (unat data) OR E0ESC), q'))
             else let esc = shift AND E0ESC \<noteq> 0;
                      data = (if esc then data OR 0x80 else data);
                      sh1 = (if esc then shift AND NOT E0ESC else shift);
                      sh2 = (sh1 OR shiftcode (unat data)) XOR togglecode (unat data);
                      c = charcode (sh2 AND (CTL OR SHIFT)) (unat data);
                      c = (if sh2 AND CAPSLOCK \<noteq> 0
                           then if 97 \<le> c \<and> c \<le> 122 then c - 32
                                else if 65 \<le> c \<and> c \<le> 90 then c + 32 else c
                           else c)
                  in (uint c, sh2, q'))"

text \<open>The characters that \<open>consoleintr(kbdgetc)\<close> gets until the controller is empty.\<close>

fun kbd_drain :: "u32 \<Rightarrow> u8 list \<Rightarrow> int list \<times> u32" where
  "kbd_drain shift [] = ([], shift)"
| "kbd_drain shift (d # q) =
     (case kbdgetc shift (d # q) of (c, shift', _) \<Rightarrow>
        (case kbd_drain shift' q of (cs, shift'') \<Rightarrow> (c # cs, shift'')))"

end
