(* ===== verification/Console.thy ===== *)
theory Console
  imports Inode Kbd
begin

text \<open>
  kernel/console.c and kernel/uart.c.  The CGA text memory, the cursor registers and the serial line are fields of
  the state: \<open>crt\<close> is the text memory by cells, \<open>crt_pos\<close> the cursor registers, \<open>uart_out\<close> what has been sent and
  \<open>uart_in\<close> what the serial port holds for reading.  The wait for the transmitter in \<open>uartputc\<close> has no effect.
  \<open>devsw\<close> maps a major number to the driver; the console is the only one.
\<close>

abbreviation BACKSPACE :: u32 where "BACKSPACE \<equiv> 0x100"
abbreviation INPUT_BUF :: nat where "INPUT_BUF \<equiv> 128"
abbreviation CONSOLE :: nat where "CONSOLE \<equiv> 1"
abbreviation NDEV :: nat where "NDEV \<equiv> 10"

section \<open>State\<close>

record input =
  in_buf :: "u8 list"
  in_r :: u32
  in_w :: u32
  in_e :: u32

datatype dev_read = ConsoleRead
datatype dev_write = ConsoleWrite

record devsw_entry =
  dev_rd :: "dev_read option"
  dev_wr :: "dev_write option"

record ckernel = ikernel +
  cons_lock :: spinlock
  cons_locking :: bool
  panicked :: bool
  input :: input
  crt :: "u16 list"
  crt_pos :: u16
  uart :: bool
  uart_out :: "u8 list"
  uart_in :: "u8 list"
  kbd_shift :: u32
  kbd_queue :: "u8 list"
  devsw :: "devsw_entry list"

section \<open>Output\<close>

definition uartputc :: "u32 \<Rightarrow> 'a ckernel_scheme \<Rightarrow> 'a ckernel_scheme" where
  "uartputc c s = (if uart s then s\<lparr>uart_out := uart_out s @ [ucast c]\<rparr> else s)"

definition uartinit :: "bool \<Rightarrow> 'a ckernel_scheme \<Rightarrow> 'a ckernel_scheme" where
  "uartinit present s =
     (if \<not> present then s
      else fold uartputc (chars ''xv6...'' @ [10]) (s\<lparr>uart := True, uart_in := drop 1 (uart_in s)\<rparr>))"

text \<open>A store to the text memory; the memory has 16-bit cells.\<close>

definition crt_store :: "nat \<Rightarrow> u16 \<Rightarrow> u16 list \<Rightarrow> u16 list res" where
  "crt_store pos v m = (if pos < length m then Inr (m[pos := v]) else Inl (Undefined ''crt''))"

definition crt_scroll :: "nat \<Rightarrow> u16 list \<Rightarrow> u16 list" where
  "crt_scroll pos m =
     (let m1 = take (23 * 80) (drop 80 m) @ drop (23 * 80) m
      in take pos m1 @ replicate (24 * 80 - pos) 0 @ drop (24 * 80) m1)"

definition cgaputc :: "u32 \<Rightarrow> 'a ckernel_scheme \<Rightarrow> 'a ckernel_scheme res" where
  "cgaputc c s =
     (let p = unat (crt_pos s)
      in bind_res (if c = 10 then Inr (p + (80 - p mod 80), crt s)
                   else if c = BACKSPACE then Inr (if p > 0 then p - 1 else p, crt s)
                   else bind_res (crt_store p ((ucast c AND 0xff) OR 0x0700) (crt s)) (\<lambda>m. Inr (p + 1, m))) (\<lambda>(p1, m1).
         guard_res (p1 > 25 * 80) ''pos under/overflow''
           (case (if p1 div 80 \<ge> 24 then (p1 - 80, crt_scroll (p1 - 80) m1) else (p1, m1)) of (p2, m2) \<Rightarrow>
              bind_res (crt_store p2 (32 OR 0x0700) m2) (\<lambda>m3. Inr (s\<lparr>crt := m3, crt_pos := of_nat p2\<rparr>)))))"

definition consputc :: "u32 \<Rightarrow> 'a ckernel_scheme \<Rightarrow> 'a ckernel_scheme res" where
  "consputc c s =
     (if panicked s then Inl Diverges
      else cgaputc c (if c = BACKSPACE then uartputc 8 (uartputc 32 (uartputc 8 s)) else uartputc c s))"

primrec consputs :: "u32 list \<Rightarrow> 'a ckernel_scheme \<Rightarrow> 'a ckernel_scheme res" where
  "consputs [] s = Inr s"
| "consputs (c # cs) s = bind_res (consputc c s) (consputs cs)"

text \<open>The digits that \<open>printint\<close> leaves in its buffer, in the order in which it prints them.\<close>

definition digit_char :: "nat \<Rightarrow> u32" where
  "digit_char d = chars ''0123456789abcdef'' ! d"

function printint_digits :: "nat \<Rightarrow> nat \<Rightarrow> u32 list" where
  "printint_digits b x =
     (if b \<le> 1 \<or> x div b = 0 then [digit_char (x mod b)]
      else printint_digits b (x div b) @ [digit_char (x mod b)])"
  by pat_completeness auto
termination
  by (relation "measure snd") (auto simp: div_eq_0_iff not_le)

declare printint_digits.simps [simp del]

definition printint_chars :: "u32 \<Rightarrow> nat \<Rightarrow> bool \<Rightarrow> u32 list" where
  "printint_chars xx b sign =
     (let neg = (sign \<and> sint xx < 0); x = (if neg then - xx else xx)
      in (if neg then [45] else []) @ printint_digits b (unat x))"

definition printint :: "u32 \<Rightarrow> nat \<Rightarrow> bool \<Rightarrow> 'a ckernel_scheme \<Rightarrow> 'a ckernel_scheme res" where
  "printint xx b sign s = consputs (printint_chars xx b sign) s"

text \<open>
  The argument words of \<open>cprintf\<close>: a number, or a pointer to a string (\<open>None\<close> for a null pointer).  Taking an
  argument that the caller did not pass, or of the other kind, is undefined.
\<close>

datatype carg = ANum u32 | AStr "u32 list option"

fun cprintf_fmt :: "u32 list \<Rightarrow> carg list \<Rightarrow> 'a ckernel_scheme \<Rightarrow> 'a ckernel_scheme res" where
  "cprintf_fmt [] args s = Inr s"
| "cprintf_fmt [c] args s = (if c \<noteq> 37 then consputc c s else Inr s)"
| "cprintf_fmt (c # d # fmt) args s =
     (if c \<noteq> 37 then bind_res (consputc c s) (cprintf_fmt (d # fmt) args)
      else if d = 100 then
        (case args of
           ANum x # as \<Rightarrow> bind_res (printint x 10 True s) (cprintf_fmt fmt as)
         | _ \<Rightarrow> Inl (Undefined ''cprintf''))
      else if d = 120 \<or> d = 112 then
        (case args of
           ANum x # as \<Rightarrow> bind_res (printint x 16 False s) (cprintf_fmt fmt as)
         | _ \<Rightarrow> Inl (Undefined ''cprintf''))
      else if d = 115 then
        (case args of
           AStr p # as \<Rightarrow>
             bind_res (consputs (case p of None \<Rightarrow> chars ''(null)'' | Some t \<Rightarrow> t) s) (cprintf_fmt fmt as)
         | _ \<Rightarrow> Inl (Undefined ''cprintf''))
      else if d = 37 then bind_res (consputc 37 s) (cprintf_fmt fmt args)
      else bind_res (consputc 37 s) (\<lambda>s1. bind_res (consputc d s1) (cprintf_fmt fmt args)))"

definition cprintf :: "u32 list option \<Rightarrow> carg list \<Rightarrow> 'a ckernel_scheme \<Rightarrow> 'a ckernel_scheme res" where
  "cprintf fmt args s = (case fmt of None \<Rightarrow> Inl (Panic ''null fmt'') | Some f \<Rightarrow> cprintf_fmt f args s)"

text \<open>
  What \<open>panic\<close> leaves behind when it stops for good: \<open>aid\<close> is the local APIC number of the processor, \<open>v\<close> the
  address of the argument, from which the stack is walked.
\<close>

primrec print_pcs :: "u32 list \<Rightarrow> 'a ckernel_scheme \<Rightarrow> 'a ckernel_scheme res" where
  "print_pcs [] s = Inr s"
| "print_pcs (pc # pcs) s = bind_res (cprintf (Some (chars '' %p'')) [ANum pc] s) (print_pcs pcs)"

definition panic_stop :: "u8 \<Rightarrow> u32 list \<Rightarrow> u32 \<Rightarrow> 'a ckernel_scheme \<Rightarrow> 'a ckernel_scheme res" where
  "panic_stop aid msg v s =
     bind_res (cprintf (Some (chars ''lapicid %d: panic: '')) [ANum (ucast aid)] (s\<lparr>cons_locking := False\<rparr>)) (\<lambda>s1.
     bind_res (cprintf (Some msg) [] s1) (\<lambda>s2.
     bind_res (cprintf (Some [10]) [] s2) (\<lambda>s3.
     bind_res (print_pcs (getcallerpcs (ram s3) v) s3) (\<lambda>s4.
     Inr (s4\<lparr>panicked := True\<rparr>)))))"

definition state_name :: "procstate \<Rightarrow> u32 list" where
  "state_name st =
     chars (case st of UNUSED \<Rightarrow> ''unused'' | EMBRYO \<Rightarrow> ''embryo'' | SLEEPING \<Rightarrow> ''sleep '' | RUNNABLE \<Rightarrow> ''runble''
            | RUNNING \<Rightarrow> ''run   '' | ZOMBIE \<Rightarrow> ''zombie'')"

definition c_string :: "u8 list \<Rightarrow> u32 list" where
  "c_string bs = map (\<lambda>b. scast b) (takeWhile (\<lambda>b. b \<noteq> 0) bs)"

primrec procdump_from :: "proc list \<Rightarrow> 'a ckernel_scheme \<Rightarrow> 'a ckernel_scheme res" where
  "procdump_from [] s = Inr s"
| "procdump_from (p # ps) s =
     (if p_state p = UNUSED then procdump_from ps s
      else bind_res (cprintf (Some (chars ''%d %s %s''))
                       [ANum (of_int (p_pid p)), AStr (Some (state_name (p_state p))), AStr (Some (c_string (p_name p)))] s)
             (\<lambda>s1.
           bind_res (if p_state p = SLEEPING
                     then print_pcs (takeWhile (\<lambda>pc. pc \<noteq> 0)
                                       (getcallerpcs (ram s1) (rd32 (ram s1) (p_context p + 12) + 8))) s1
                     else Inr s1) (\<lambda>s2.
           bind_res (cprintf (Some [10]) [] s2) (procdump_from ps))))"

definition procdump :: "'a ckernel_scheme \<Rightarrow> 'a ckernel_scheme res" where
  "procdump s = procdump_from (ptable s) s"

section \<open>Input\<close>

text \<open>The loop of the kill character; the bound is the size of the ring, which the edit index never exceeds.\<close>

primrec kill_line :: "nat \<Rightarrow> 'a ckernel_scheme \<Rightarrow> 'a ckernel_scheme res" where
  "kill_line 0 s = Inl Diverges"
| "kill_line (Suc n) s =
     (let i = input s
      in if in_e i \<noteq> in_w i \<and> in_buf i ! unat ((in_e i - 1) mod of_nat INPUT_BUF) \<noteq> 10
         then bind_res (consputc BACKSPACE (s\<lparr>input := i\<lparr>in_e := in_e i - 1\<rparr>\<rparr>)) (kill_line n)
         else Inr s)"

definition console_char :: "u32 \<Rightarrow> 'a ckernel_scheme \<Rightarrow> 'a ckernel_scheme res" where
  "console_char c0 s =
     (let i = input s
      in if c0 \<noteq> 0 \<and> in_e i - in_r i < of_nat INPUT_BUF
         then let c = (if c0 = 13 then 10 else c0);
                  i1 = i\<lparr>in_buf := (in_buf i)[unat (in_e i mod of_nat INPUT_BUF) := ucast c], in_e := in_e i + 1\<rparr>
              in bind_res (consputc c (s\<lparr>input := i1\<rparr>)) (\<lambda>s1.
                   if c = 10 \<or> c = 4 \<or> in_e i1 = in_r i1 + of_nat INPUT_BUF
                   then Inr (wakeup CInput (s1\<lparr>input := i1\<lparr>in_w := in_e i1\<rparr>\<rparr>))
                   else Inr s1)
         else Inr s)"

text \<open>
  \<open>consoleintr\<close> on the characters that \<open>getc\<close> delivers until it returns a negative number; the Boolean is
  \<open>doprocdump\<close>.
\<close>

primrec consoleintr_loop :: "u32 list \<Rightarrow> bool \<Rightarrow> 'a ckernel_scheme \<Rightarrow> (bool \<times> 'a ckernel_scheme) res" where
  "consoleintr_loop [] dump s = Inr (dump, s)"
| "consoleintr_loop (c # cs) dump s =
     (if c = 16 then consoleintr_loop cs True s
      else if c = 21 then bind_res (kill_line (INPUT_BUF + 1) s) (consoleintr_loop cs dump)
      else if c = 8 \<or> c = 0x7f
      then (if in_e (input s) \<noteq> in_w (input s)
            then bind_res (consputc BACKSPACE (s\<lparr>input := (input s)\<lparr>in_e := in_e (input s) - 1\<rparr>\<rparr>))
                   (consoleintr_loop cs dump)
            else consoleintr_loop cs dump s)
      else bind_res (console_char c s) (consoleintr_loop cs dump))"

definition consoleintr :: "u32 list \<Rightarrow> 'a ckernel_scheme \<Rightarrow> 'a ckernel_scheme res" where
  "consoleintr cs s =
     bind_res (consoleintr_loop cs False s) (\<lambda>(dump, s1). if dump then procdump s1 else Inr s1)"

definition kbdintr :: "'a ckernel_scheme \<Rightarrow> 'a ckernel_scheme res" where
  "kbdintr s =
     (case kbd_drain (kbd_shift s) (kbd_queue s) of (cs, sh) \<Rightarrow>
        consoleintr (map of_int cs) (s\<lparr>kbd_shift := sh, kbd_queue := []\<rparr>))"

definition uartgetc :: "'a ckernel_scheme \<Rightarrow> int \<times> 'a ckernel_scheme" where
  "uartgetc s =
     (if \<not> uart s then (-1, s)
      else case uart_in s of [] \<Rightarrow> (-1, s) | c # cs \<Rightarrow> (uint c, s\<lparr>uart_in := cs\<rparr>))"

definition uartintr :: "'a ckernel_scheme \<Rightarrow> 'a ckernel_scheme res" where
  "uartintr s = (if uart s then consoleintr (map ucast (uart_in s)) (s\<lparr>uart_in := []\<rparr>) else consoleintr [] s)"

section \<open>The console device\<close>

text \<open>
  The loop of \<open>consoleread\<close> with \<open>k\<close> bytes to go of \<open>target\<close>: the bytes it hands over, and whether it is done,
  found the process killed, or sleeps.
\<close>

datatype console_read = CR_done "u8 list" | CR_killed | CR_sleeps "u8 list"

primrec cr_cons :: "u8 \<Rightarrow> console_read \<Rightarrow> console_read" where
  "cr_cons c (CR_done bs) = CR_done (c # bs)"
| "cr_cons c CR_killed = CR_killed"
| "cr_cons c (CR_sleeps bs) = CR_sleeps (c # bs)"

primrec consoleread_from :: "nat \<Rightarrow> nat \<Rightarrow> nat \<Rightarrow> 'a ckernel_scheme \<Rightarrow> console_read \<times> 'a ckernel_scheme" where
  "consoleread_from 0 target me s = (CR_done [], s)"
| "consoleread_from (Suc k) target me s =
     (let i = input s
      in if in_r i = in_w i
         then if p_killed (ptable s ! me) then (CR_killed, s) else (CR_sleeps [], sleep_on me CInput s)
         else let c = in_buf i ! unat (in_r i mod of_nat INPUT_BUF); s1 = s\<lparr>input := i\<lparr>in_r := in_r i + 1\<rparr>\<rparr>
              in if c = 4 then (CR_done [], if Suc k < target then s else s1)
                 else if c = 10 then (CR_done [c], s1)
                 else case consoleread_from k target me s1 of (r, s2) \<Rightarrow> (cr_cons c r, s2))"

definition consoleread :: "nat \<Rightarrow> nat \<Rightarrow> int \<Rightarrow> 'a ckernel_scheme \<Rightarrow> ((int \<times> u8 list) \<times> 'a ckernel_scheme) res" where
  "consoleread me ip n s =
     bind_res (iunlock me ip s) (\<lambda>s1.
       case consoleread_from (nat n) (nat n) me s1 of
         (CR_done bs, s2) \<Rightarrow> bind_res (ilock me ip s2) (\<lambda>s3. Inr ((int (length bs), bs), s3))
       | (CR_killed, s2) \<Rightarrow> bind_res (ilock me ip s2) (\<lambda>s3. Inr ((-1, []), s3))
       | (CR_sleeps bs, s2) \<Rightarrow> Inl (Waits CInput))"

text \<open>The source buffer of a write is a function that loads its bytes, which may fault.\<close>

primrec consolewrite_from :: "(nat \<Rightarrow> u8 res) \<Rightarrow> nat \<Rightarrow> nat \<Rightarrow> 'a ckernel_scheme \<Rightarrow> 'a ckernel_scheme res" where
  "consolewrite_from src 0 i s = Inr s"
| "consolewrite_from src (Suc k) i s =
     bind_res (src i) (\<lambda>b. bind_res (consputc (ucast b) s) (consolewrite_from src k (Suc i)))"

definition consolewrite :: "nat \<Rightarrow> nat \<Rightarrow> (nat \<Rightarrow> u8 res) \<Rightarrow> int \<Rightarrow> 'a ckernel_scheme \<Rightarrow> (int \<times> 'a ckernel_scheme) res" where
  "consolewrite me ip src n s =
     bind_res (iunlock me ip s) (\<lambda>s1.
     bind_res (consolewrite_from src (nat n) 0 s1) (\<lambda>s2.
     bind_res (ilock me ip s2) (\<lambda>s3. Inr (n, s3))))"

text \<open>The route of the keyboard interrupt (\<open>ioapicenable\<close>) is not part of the state.\<close>

definition consoleinit :: "'a ckernel_scheme \<Rightarrow> 'a ckernel_scheme" where
  "consoleinit s =
     s\<lparr>cons_lock := initlock ''console'' (cons_lock s),
       devsw := (devsw s)[CONSOLE := \<lparr>dev_rd = Some ConsoleRead, dev_wr = Some ConsoleWrite\<rparr>],
       cons_locking := True\<rparr>"

end
