(* ===== verification/Fs.thy ===== *)
theory Fs
  imports Console
begin

text \<open>
  The upper half of kernel/fs.c: reading and writing the content of an inode, directories and path names.  A read
  returns the bytes it copies, which its callers place; the source of a write is a function that loads its bytes
  one by one and may fault.  Path names are the bytes before the terminating NUL, names the bytes before the NUL
  or all of the 14.
\<close>

section \<open>Content\<close>

function readi_loop :: "nat \<Rightarrow> nat \<Rightarrow> nat \<Rightarrow> nat \<Rightarrow> 'a ikernel_scheme \<Rightarrow> (u8 list \<times> 'a ikernel_scheme) res" where
  "readi_loop me ip off n s =
     (if n = 0 then Inr ([], s)
      else bind_res (bmap me ip (of_nat (off div BSIZE)) s) (\<lambda>(a, s1).
           bind_res (bread me (i_dev (inodes s ! ip)) a s1) (\<lambda>(bp, s2).
             let m = min n (BSIZE - off mod BSIZE)
             in bind_res (brelse me bp s2) (\<lambda>s3.
                bind_res (readi_loop me ip (off + m) (n - m) s3) (\<lambda>(bs, s4).
                Inr (slice (b_data (bufs s2 ! bp)) (off mod BSIZE) m @ bs, s4))))))"
  by pat_completeness auto
termination
  by (relation "measure (\<lambda>(me, ip, off, n, s). n)") auto

declare readi_loop.simps [simp del]

definition dev_of :: "u16 \<Rightarrow> 'a ckernel_scheme \<Rightarrow> devsw_entry option" where
  "dev_of major s = (if sint major < 0 \<or> sint major \<ge> int NDEV then None else Some (devsw s ! nat (sint major)))"

definition readi :: "nat \<Rightarrow> nat \<Rightarrow> u32 \<Rightarrow> u32 \<Rightarrow> 'a ckernel_scheme \<Rightarrow> ((int \<times> u8 list) \<times> 'a ckernel_scheme) res" where
  "readi me ip off n s =
     (let x = inodes s ! ip
      in if i_type x = T_DEV
         then (case Option.bind (dev_of (i_major x) s) dev_rd of
                 None \<Rightarrow> Inr ((-1, []), s)
               | Some ConsoleRead \<Rightarrow> consoleread me ip (sint n) s)
         else if off > i_size x \<or> off + n < off then Inr ((-1, []), s)
         else let m = (if off + n > i_size x then i_size x - off else n)
              in bind_res (readi_loop me ip (unat off) (unat m) s) (\<lambda>(bs, s1). Inr ((sint m, bs), s1)))"

primrec load_src :: "(nat \<Rightarrow> u8 res) \<Rightarrow> nat \<Rightarrow> nat \<Rightarrow> u8 list res" where
  "load_src src i 0 = Inr []"
| "load_src src i (Suc k) = bind_res (src i) (\<lambda>b. bind_res (load_src src (Suc i) k) (\<lambda>bs. Inr (b # bs)))"

function writei_loop ::
  "nat \<Rightarrow> nat \<Rightarrow> (nat \<Rightarrow> u8 res) \<Rightarrow> nat \<Rightarrow> nat \<Rightarrow> nat \<Rightarrow> 'a ikernel_scheme \<Rightarrow> 'a ikernel_scheme res" where
  "writei_loop me ip src i off n s =
     (if n = 0 then Inr s
      else bind_res (bmap me ip (of_nat (off div BSIZE)) s) (\<lambda>(a, s1).
           bind_res (bread me (i_dev (inodes s ! ip)) a s1) (\<lambda>(bp, s2).
             let m = min n (BSIZE - off mod BSIZE)
             in bind_res (load_src src i m) (\<lambda>bs.
                bind_res (log_write bp (upd_buf bp (\<lambda>b. b\<lparr>b_data := splice (b_data b) (off mod BSIZE) bs\<rparr>) s2)) (\<lambda>s3.
                bind_res (brelse me bp s3) (\<lambda>s4.
                writei_loop me ip src (i + m) (off + m) (n - m) s4))))))"
  by pat_completeness auto
termination
  by (relation "measure (\<lambda>(me, ip, src, i, off, n, s). n)") auto

declare writei_loop.simps [simp del]

definition writei ::
  "nat \<Rightarrow> nat \<Rightarrow> (nat \<Rightarrow> u8 res) \<Rightarrow> u32 \<Rightarrow> u32 \<Rightarrow> 'a ckernel_scheme \<Rightarrow> (int \<times> 'a ckernel_scheme) res" where
  "writei me ip src off n s =
     (let x = inodes s ! ip
      in if i_type x = T_DEV
         then (case Option.bind (dev_of (i_major x) s) dev_wr of
                 None \<Rightarrow> Inr (-1, s)
               | Some ConsoleWrite \<Rightarrow> consolewrite me ip src (sint n) s)
         else if off > i_size x \<or> off + n < off then Inr (-1, s)
         else if off + n > of_nat (MAXFILE * BSIZE) then Inr (-1, s)
         else bind_res (writei_loop me ip src 0 (unat off) (unat n) s) (\<lambda>s1.
              bind_res (if n > 0 \<and> off + n > i_size (inodes s1 ! ip)
                        then iupdate me ip (upd_inode ip (\<lambda>y. y\<lparr>i_size := off + n\<rparr>) s1)
                        else Inr s1) (\<lambda>s2.
              Inr (sint n, s2))))"

section \<open>Directories\<close>

text \<open>A name in memory: the bytes of the list, then NULs.\<close>

definition name_view :: "u8 list \<Rightarrow> cview" where
  "name_view bs i = (if i < length bs then bs ! i else 0)"

definition namecmp :: "u8 list \<Rightarrow> u8 list \<Rightarrow> int" where
  "namecmp a b = strncmp (name_view a) (name_view b) DIRSIZ"

text \<open>The offsets of the entries of a directory of \<open>sz\<close> bytes, and the bytes of one entry.\<close>

definition entry_offs :: "u32 \<Rightarrow> nat list" where
  "entry_offs sz = map (\<lambda>k. k * DIRENT_SIZE) [0..<(unat sz + DIRENT_SIZE - 1) div DIRENT_SIZE]"

definition read_dirent :: "nat \<Rightarrow> nat \<Rightarrow> string \<Rightarrow> nat \<Rightarrow> 'a ckernel_scheme \<Rightarrow> (dirent \<times> 'a ckernel_scheme) res" where
  "read_dirent me dp msg off s =
     bind_res (readi me dp (of_nat off) (of_nat DIRENT_SIZE) s) (\<lambda>((r, bs), s1).
       guard_res (r \<noteq> int DIRENT_SIZE) msg (Inr (dirent_of bs, s1)))"

text \<open>The loop of \<open>dirlookup\<close>: the entry found is an inode pointer and the value for \<open>*poff\<close>.\<close>

primrec dirlookup_from ::
  "nat \<Rightarrow> nat \<Rightarrow> u8 list \<Rightarrow> nat list \<Rightarrow> 'a ckernel_scheme \<Rightarrow> ((nat \<times> nat) option \<times> 'a ckernel_scheme) res" where
  "dirlookup_from me dp name [] s = Inr (None, s)"
| "dirlookup_from me dp name (off # offs) s =
     bind_res (read_dirent me dp ''dirlookup read'' off s) (\<lambda>(de, s1).
       if de_inum de \<noteq> 0 \<and> namecmp name (de_name de) = 0
       then bind_res (iget (i_dev (inodes s1 ! dp)) (ucast (de_inum de)) s1) (\<lambda>(ip, s2). Inr (Some (ip, off), s2))
       else dirlookup_from me dp name offs s1)"

definition dirlookup ::
  "nat \<Rightarrow> nat \<Rightarrow> u8 list \<Rightarrow> 'a ckernel_scheme \<Rightarrow> ((nat \<times> nat) option \<times> 'a ckernel_scheme) res" where
  "dirlookup me dp name s =
     guard_res (i_type (inodes s ! dp) \<noteq> T_DIR) ''dirlookup not DIR''
       (dirlookup_from me dp name (entry_offs (i_size (inodes s ! dp))) s)"

text \<open>The search for a free entry; it ends with the offset past the last entry when there is none.\<close>

primrec dirlink_slot :: "nat \<Rightarrow> nat \<Rightarrow> nat list \<Rightarrow> nat \<Rightarrow> 'a ckernel_scheme \<Rightarrow> (nat \<times> 'a ckernel_scheme) res" where
  "dirlink_slot me dp [] past s = Inr (past, s)"
| "dirlink_slot me dp (off # offs) past s =
     bind_res (read_dirent me dp ''dirlink read'' off s) (\<lambda>(de, s1).
       if de_inum de = 0 then Inr (off, s1) else dirlink_slot me dp offs past s1)"

definition bytes_src :: "u8 list \<Rightarrow> nat \<Rightarrow> u8 res" where
  "bytes_src bs i = Inr (bs ! i)"

definition dirlink :: "nat \<Rightarrow> nat \<Rightarrow> u8 list \<Rightarrow> u32 \<Rightarrow> 'a ckernel_scheme \<Rightarrow> (int \<times> 'a ckernel_scheme) res" where
  "dirlink me dp name inum s =
     bind_res (dirlookup me dp name s) (\<lambda>(found, s1).
       case found of
         Some (ip, _) \<Rightarrow> bind_res (iput me ip s1) (\<lambda>s2. Inr (-1, s2))
       | None \<Rightarrow>
           let offs = entry_offs (i_size (inodes s1 ! dp))
           in bind_res (dirlink_slot me dp offs (DIRENT_SIZE * length offs) s1) (\<lambda>(off, s2).
                let de = \<lparr>de_inum = ucast inum, de_name = strncpy (name_view name) DIRSIZ\<rparr>
                in bind_res (writei me dp (bytes_src (dirent_bytes de)) (of_nat off) (of_nat DIRENT_SIZE) s2) (\<lambda>(r, s3).
                   guard_res (r \<noteq> int DIRENT_SIZE) ''dirlink'' (Inr (0, s3)))))"

section \<open>Paths\<close>

abbreviation SLASH :: u8 where "SLASH \<equiv> 47"

definition skipelem :: "u8 list \<Rightarrow> (u8 list \<times> u8 list) option" where
  "skipelem path =
     (let p = dropWhile (\<lambda>c. c = SLASH) path
      in if p = [] then None
         else let elem = takeWhile (\<lambda>c. c \<noteq> SLASH) p
              in Some (take DIRSIZ elem, dropWhile (\<lambda>c. c = SLASH) (dropWhile (\<lambda>c. c \<noteq> SLASH) p)))"

lemma skipelem_shorter:
  assumes "skipelem path = Some (name, rest)"
  shows "length rest < length path"
proof -
  define p where "p = dropWhile (\<lambda>c. c = SLASH) path"
  have p: "p \<noteq> []" "rest = dropWhile (\<lambda>c. c = SLASH) (dropWhile (\<lambda>c. c \<noteq> SLASH) p)"
    using assms unfolding skipelem_def p_def [symmetric] Let_def by (simp_all split: if_split_asm)
  have "hd p \<noteq> SLASH" using p(1) hd_dropWhile [of "\<lambda>c. c = SLASH" path] unfolding p_def by simp
  then obtain c q where cq: "p = c # q" "c \<noteq> SLASH" using p(1) by (cases p) simp_all
  have "length rest \<le> length (dropWhile (\<lambda>c. c \<noteq> SLASH) q)"
    unfolding p(2) cq(1) using cq(2) by (simp add: length_dropWhile_le)
  also have "\<dots> \<le> length q" by (rule length_dropWhile_le)
  also have "\<dots> < length p" by (simp add: cq(1))
  also have "\<dots> \<le> length path" unfolding p_def by (rule length_dropWhile_le)
  finally show ?thesis .
qed

text \<open>
  The loop of \<open>namex\<close> from inode \<open>ip\<close>; \<open>name\<close> is the buffer, which holds the last element when the parent is
  returned.
\<close>

function namex_loop ::
  "nat \<Rightarrow> bool \<Rightarrow> u8 list \<Rightarrow> u8 list \<Rightarrow> nat \<Rightarrow> 'a ckernel_scheme \<Rightarrow> (nat option \<times> u8 list \<times> 'a ckernel_scheme) res" where
  "namex_loop me parent path name ip s =
     (case skipelem path of
        None \<Rightarrow>
          if parent then bind_res (iput me ip s) (\<lambda>s1. Inr (None, name, s1)) else Inr (Some ip, name, s)
      | Some (elem, rest) \<Rightarrow>
          bind_res (ilock me ip s) (\<lambda>s1.
            if i_type (inodes s1 ! ip) \<noteq> T_DIR
            then bind_res (iunlockput me ip s1) (\<lambda>s2. Inr (None, elem, s2))
            else if parent \<and> rest = []
            then bind_res (iunlock me ip s1) (\<lambda>s2. Inr (Some ip, elem, s2))
            else bind_res (dirlookup me ip elem s1) (\<lambda>(found, s2).
                 bind_res (iunlockput me ip s2) (\<lambda>s3.
                   case found of
                     None \<Rightarrow> Inr (None, elem, s3)
                   | Some (nxt, _) \<Rightarrow> namex_loop me parent rest elem nxt s3))))"
  by pat_completeness auto
termination
  by (relation "measure (\<lambda>(me, parent, path, name, ip, s). length path)") (auto dest: skipelem_shorter)

declare namex_loop.simps [simp del]

definition namex :: "nat \<Rightarrow> u8 list \<Rightarrow> bool \<Rightarrow> 'a ckernel_scheme \<Rightarrow> (nat option \<times> u8 list \<times> 'a ckernel_scheme) res" where
  "namex me path parent s =
     (if path \<noteq> [] \<and> hd path = SLASH
      then bind_res (iget ROOTDEV ROOTINO s) (\<lambda>(ip, s1). namex_loop me parent path [] ip s1)
      else case p_cwd (ptable s ! me) of
             None \<Rightarrow> Inl (Undefined ''namex'')
           | Some cwd \<Rightarrow> (case idup cwd s of (ip, s1) \<Rightarrow> namex_loop me parent path [] ip s1))"

definition namei :: "nat \<Rightarrow> u8 list \<Rightarrow> 'a ckernel_scheme \<Rightarrow> (nat option \<times> 'a ckernel_scheme) res" where
  "namei me path s = bind_res (namex me path False s) (\<lambda>(ip, _, s1). Inr (ip, s1))"

definition nameiparent :: "nat \<Rightarrow> u8 list \<Rightarrow> 'a ckernel_scheme \<Rightarrow> (nat option \<times> u8 list \<times> 'a ckernel_scheme) res" where
  "nameiparent me path s = namex me path True s"

end
