(* ===== verification/File.thy ===== *)
theory File
  imports Fs
begin

text \<open>
  kernel/file.c and \<open>pipealloc\<close> of kernel/pipe.c: the table of open files.  A \<open>struct file *\<close> is an index of
  \<open>ftable\<close>.  Reads and writes on pipes may put the caller to sleep; those on inodes are runs.
\<close>

abbreviation NFILE :: nat where "NFILE \<equiv> 100"

section \<open>State\<close>

datatype fdtype = FD_NONE | FD_PIPE | FD_INODE

record fileent =
  f_type :: fdtype
  f_ref :: int
  f_readable :: bool
  f_writable :: bool
  f_pipe :: u32
  f_ip :: nat
  f_off :: u32

record fkernel = ckernel +
  ftable_lock :: spinlock
  ftable :: "fileent list"

definition upd_file :: "nat \<Rightarrow> (fileent \<Rightarrow> fileent) \<Rightarrow> 'a fkernel_scheme \<Rightarrow> 'a fkernel_scheme" where
  "upd_file f g s = s\<lparr>ftable := (ftable s)[f := g (ftable s ! f)]\<rparr>"

section \<open>Operations\<close>

definition fileinit :: "'a fkernel_scheme \<Rightarrow> 'a fkernel_scheme" where
  "fileinit s = s\<lparr>ftable_lock := initlock ''ftable'' (ftable_lock s)\<rparr>"

definition filealloc :: "'a fkernel_scheme \<Rightarrow> nat option \<times> 'a fkernel_scheme" where
  "filealloc s =
     (case find_index (\<lambda>f. f_ref f = 0) (ftable s) of
        None \<Rightarrow> (None, s)
      | Some f \<Rightarrow> (Some f, upd_file f (\<lambda>x. x\<lparr>f_ref := 1\<rparr>) s))"

definition filedup :: "nat \<Rightarrow> 'a fkernel_scheme \<Rightarrow> (nat \<times> 'a fkernel_scheme) res" where
  "filedup f s =
     guard_res (f_ref (ftable s ! f) < 1) ''filedup'' (Inr (f, upd_file f (\<lambda>x. x\<lparr>f_ref := f_ref x + 1\<rparr>) s))"

definition fileclose :: "nat \<Rightarrow> nat \<Rightarrow> 'a fkernel_scheme \<Rightarrow> 'a fkernel_scheme res" where
  "fileclose me f s =
     guard_res (f_ref (ftable s ! f) < 1) ''fileclose''
       (let s1 = upd_file f (\<lambda>x. x\<lparr>f_ref := f_ref x - 1\<rparr>) s; ff = ftable s1 ! f
        in if f_ref ff > 0 then Inr s1
           else let s2 = upd_file f (\<lambda>x. x\<lparr>f_ref := 0, f_type := FD_NONE\<rparr>) s1
                in (case f_type ff of
                      FD_PIPE \<Rightarrow> pipeclose (f_pipe ff) (f_writable ff) s2
                    | FD_INODE \<Rightarrow>
                        bind_res (begin_op s2) (\<lambda>s3. bind_res (iput me (f_ip ff) s3) (\<lambda>s4. end_op me s4))
                    | FD_NONE \<Rightarrow> Inr s2))"

definition filestat :: "nat \<Rightarrow> nat \<Rightarrow> 'a fkernel_scheme \<Rightarrow> (stat option \<times> 'a fkernel_scheme) res" where
  "filestat me f s =
     (let x = ftable s ! f
      in if f_type x = FD_INODE
         then bind_res (ilock me (f_ip x) s) (\<lambda>s1.
              bind_res (iunlock me (f_ip x) s1) (\<lambda>s2.
              Inr (Some (stati (inodes s1 ! f_ip x)), s2)))
         else Inr (None, s))"

text \<open>\<open>addr\<close> is an address of the caller's user memory.\<close>

definition fileread :: "nat \<Rightarrow> nat \<Rightarrow> u32 \<Rightarrow> int \<Rightarrow> 'a fkernel_scheme \<Rightarrow> (io_outcome \<times> 'a fkernel_scheme) res" where
  "fileread me f addr n s =
     (let x = ftable s ! f
      in if \<not> f_readable x then Inr (IO_returns (-1), s)
         else case f_type x of
                FD_PIPE \<Rightarrow> piperead me (f_pipe x) addr n s
              | FD_INODE \<Rightarrow>
                  bind_res (ilock me (f_ip x) s) (\<lambda>s1.
                  bind_res (readi me (f_ip x) (f_off x) (of_int n) s1) (\<lambda>((r, bs), s2).
                  bind_res (ustore_bytes (p_pgdir (ptable s2 ! me)) addr bs s2) (\<lambda>s3.
                  bind_res (iunlock me (f_ip x)
                              (if r > 0 then upd_file f (\<lambda>y. y\<lparr>f_off := f_off y + of_int r\<rparr>) s3 else s3)) (\<lambda>s4.
                  Inr (IO_returns r, s4)))))
              | FD_NONE \<Rightarrow> Inl (Panic ''fileread''))"

text \<open>The source of a write: the bytes of the caller's memory from \<open>addr\<close>.\<close>

definition user_src :: "nat \<Rightarrow> u32 \<Rightarrow> 'a kernel_scheme \<Rightarrow> nat \<Rightarrow> u8 res" where
  "user_src me addr s i = uload8 (p_pgdir (ptable s ! me)) (addr + of_nat i) s"

definition filewrite_max :: int where
  "filewrite_max = ((MAXOPBLOCKS - 1 - 1 - 2) div 2) * 512"

text \<open>The loop of \<open>filewrite\<close> at position \<open>i\<close> of \<open>n\<close>: the value of \<open>i\<close> when it ends.\<close>

function filewrite_loop :: "nat \<Rightarrow> nat \<Rightarrow> u32 \<Rightarrow> int \<Rightarrow> int \<Rightarrow> 'a fkernel_scheme \<Rightarrow> (int \<times> 'a fkernel_scheme) res" where
  "filewrite_loop me f addr n i s =
     (if i < n
      then let n1 = min (n - i) filewrite_max; ip = f_ip (ftable s ! f)
           in bind_res (begin_op s) (\<lambda>s1.
              bind_res (ilock me ip s1) (\<lambda>s2.
              bind_res (writei me ip (user_src me (addr + of_int i) s2) (f_off (ftable s2 ! f)) (of_int n1) s2) (\<lambda>(r, s3).
              bind_res (iunlock me ip
                          (if r > 0 then upd_file f (\<lambda>y. y\<lparr>f_off := f_off y + of_int r\<rparr>) s3 else s3)) (\<lambda>s4.
              bind_res (end_op me s4) (\<lambda>s5.
                if r < 0 then Inr (i, s5)
                else if r \<noteq> n1 then Inl (Panic ''short filewrite'')
                else filewrite_loop me f addr n (i + n1) s5)))))
      else Inr (i, s))"
  by pat_completeness auto
termination
  by (relation "measure (\<lambda>(me, f, addr, n, i, s). nat (n - i))") (auto simp: filewrite_max_def)

declare filewrite_loop.simps [simp del]

definition filewrite :: "nat \<Rightarrow> nat \<Rightarrow> u32 \<Rightarrow> int \<Rightarrow> nat \<Rightarrow> 'a fkernel_scheme \<Rightarrow> (io_outcome \<times> 'a fkernel_scheme) res" where
  "filewrite me f addr n i0 s =
     (let x = ftable s ! f
      in if \<not> f_writable x then Inr (IO_returns (-1), s)
         else case f_type x of
                FD_PIPE \<Rightarrow> pipewrite me (f_pipe x) addr n i0 s
              | FD_INODE \<Rightarrow>
                  bind_res (filewrite_loop me f addr n 0 s) (\<lambda>(i, s1).
                    Inr (IO_returns (if i = n then n else -1), s1))
              | FD_NONE \<Rightarrow> Inl (Panic ''filewrite''))"

section \<open>Pipes\<close>

definition pipe_file :: "u32 \<Rightarrow> bool \<Rightarrow> fileent \<Rightarrow> fileent" where
  "pipe_file p writable x = x\<lparr>f_type := FD_PIPE, f_readable := \<not> writable, f_writable := writable, f_pipe := p\<rparr>"

text \<open>
  \<open>pipealloc\<close>: the two files, or \<open>None\<close> for -1.  The data area of the pipe is what the page held; its content
  does not matter while the counters are equal.
\<close>

definition pipealloc :: "nat \<Rightarrow> 'a fkernel_scheme \<Rightarrow> ((nat \<times> nat) option \<times> 'a fkernel_scheme) res" where
  "pipealloc me s =
     (case filealloc s of
        (None, s1) \<Rightarrow> Inr (None, s1)
      | (Some f0, s1) \<Rightarrow>
          (case filealloc s1 of
             (None, s2) \<Rightarrow> bind_res (fileclose me f0 s2) (\<lambda>s3. Inr (None, s3))
           | (Some f1, s2) \<Rightarrow>
               (case kalloc s2 of (p, s3) \<Rightarrow>
                  if p = 0
                  then bind_res (fileclose me f0 s3) (\<lambda>s4. bind_res (fileclose me f1 s4) (\<lambda>s5. Inr (None, s5)))
                  else let s4 = upd_pipe p (\<lambda>x. x\<lparr>pi_readopen := True, pi_writeopen := True, pi_nwrite := 0, pi_nread := 0,
                                                  pi_lock := initlock ''pipe'' (pi_lock x)\<rparr>) s3
                       in Inr (Some (f0, f1), upd_file f1 (pipe_file p True) (upd_file f0 (pipe_file p False) s4)))))"

end
