(* ===== verification/ProcLife.thy ===== *)
theory ProcLife
  imports File
begin

text \<open>
  The functions of kernel/proc.c that create and end processes and so need files and inodes: \<open>userinit\<close>,
  \<open>growproc\<close>, \<open>fork\<close>, \<open>exit\<close> and \<open>forkret\<close>.  \<open>c\<close> is the processor that runs the process \<open>me\<close>.
\<close>

text \<open>The name array after \<open>safestrcpy\<close>.\<close>

definition copy_name :: "cview \<Rightarrow> u8 list \<Rightarrow> u8 list" where
  "copy_name t dst = splice dst 0 (safestrcpy t 16)"

definition userinit :: "nat \<Rightarrow> u32 \<Rightarrow> u32 \<Rightarrow> 'a fkernel_scheme \<Rightarrow> 'a fkernel_scheme res" where
  "userinit me initcode initcode_size s =
     (case allocproc s of
        (None, _) \<Rightarrow> Inl (Undefined ''userinit'')
      | (Some p, s1) \<Rightarrow>
          bind_res (setupkvm (s1\<lparr>initproc := Some p\<rparr>)) (\<lambda>(d, s2).
            guard_res (d = 0) ''userinit: out of memory?''
              (bind_res (inituvm d initcode initcode_size (upd_proc p (\<lambda>x. x\<lparr>p_pgdir := d\<rparr>) s2)) (\<lambda>s3.
                 let tf = p_tf (ptable s3 ! p);
                     m1 = memset (ram s3) tf 0 76;
                     m2 = wr32 (wr32 (wr32 (wr32 m1 (tf + 60) 0x1B) (tf + 44) 0x23) (tf + 40) 0x23) (tf + 72) 0x23;
                     m3 = wr32 (wr32 (wr32 m2 (tf + 64) 0x200) (tf + 68) PGSIZE) (tf + 56) 0;
                     s4 = upd_proc p (\<lambda>x. x\<lparr>p_sz := PGSIZE,
                                            p_name := copy_name (name_view (map of_char ''initcode'')) (p_name x)\<rparr>)
                            (s3\<lparr>ram := m3\<rparr>)
                 in bind_res (namei me [SLASH] s4) (\<lambda>(cwd, s5).
                      let s6 = upd_proc p (\<lambda>x. x\<lparr>p_cwd := cwd, p_gid := 0\<rparr>) s5;
                          s7 = snd (fss_group_ensure 0 s6)
                      in Inr (upd_proc p (\<lambda>x. x\<lparr>p_state := RUNNABLE\<rparr>) s7))))))"

definition growproc :: "nat \<Rightarrow> nat \<Rightarrow> int \<Rightarrow> 'a kernel_scheme \<Rightarrow> (int \<times> 'a kernel_scheme) res" where
  "growproc c me n s =
     (let p = ptable s ! me; sz = p_sz p; newsz = sz + of_int n
      in bind_res (if n > 0 then allocuvm (p_pgdir p) sz newsz s
                   else if n < 0 then deallocuvm (p_pgdir p) sz newsz s
                   else Inr (sz, s)) (\<lambda>(sz', s1).
           if n \<noteq> 0 \<and> sz' = 0 then Inr (-1, s1)
           else bind_res (switchuvm c (Some me) (upd_proc me (\<lambda>x. x\<lparr>p_sz := sz'\<rparr>) s1)) (\<lambda>s2. Inr (0, s2))))"

text \<open>The loop over the descriptors in \<open>fork\<close>.\<close>

primrec fork_files :: "nat \<Rightarrow> nat \<Rightarrow> nat list \<Rightarrow> 'a fkernel_scheme \<Rightarrow> 'a fkernel_scheme res" where
  "fork_files me np [] s = Inr s"
| "fork_files me np (i # ks) s =
     (case p_ofile (ptable s ! me) ! i of
        None \<Rightarrow> fork_files me np ks s
      | Some f \<Rightarrow>
          bind_res (filedup f s) (\<lambda>(g, s1).
            fork_files me np ks (upd_proc np (\<lambda>x. x\<lparr>p_ofile := (p_ofile x)[i := Some g]\<rparr>) s1)))"

definition fork :: "nat \<Rightarrow> 'a fkernel_scheme \<Rightarrow> (int \<times> 'a fkernel_scheme) res" where
  "fork me s =
     (case allocproc s of
        (None, s1) \<Rightarrow> Inr (-1, s1)
      | (Some np, s1) \<Rightarrow>
          bind_res (copyuvm (p_pgdir (ptable s1 ! me)) (p_sz (ptable s1 ! me)) s1) (\<lambda>(d, s2).
            let s3 = upd_proc np (\<lambda>x. x\<lparr>p_pgdir := d\<rparr>) s2
            in if d = 0
               then bind_res (kfree (p_kstack (ptable s3 ! np)) s3) (\<lambda>s4.
                      Inr (-1, upd_proc np (\<lambda>x. x\<lparr>p_kstack := 0, p_state := UNUSED\<rparr>) s4))
               else let s4 = upd_proc np (\<lambda>x. x\<lparr>p_sz := p_sz (ptable s3 ! me), p_parent := Some me,
                                                p_gid := p_gid (ptable s3 ! me)\<rparr>) s3;
                        s5 = snd (fss_group_ensure (p_gid (ptable s4 ! np)) s4);
                        tf = p_tf (ptable s5 ! np);
                        s6 = s5\<lparr>ram := wr32 (memmove (ram s5) tf (p_tf (ptable s5 ! me)) 76) (tf + 28) 0\<rparr>
                    in bind_res (fork_files me np [0..<NOFILE] s6) (\<lambda>s7.
                         case p_cwd (ptable s7 ! me) of
                           None \<Rightarrow> Inl (Undefined ''fork'')
                         | Some cwd \<Rightarrow>
                             (case idup cwd s7 of (ip, s8) \<Rightarrow>
                                let s9 = upd_proc np (\<lambda>x. x\<lparr>p_cwd := Some ip,
                                           p_name := copy_name (name_view (p_name (ptable s8 ! me))) (p_name x)\<rparr>) s8
                                in Inr (p_pid (ptable s9 ! np), upd_proc np (\<lambda>x. x\<lparr>p_state := RUNNABLE\<rparr>) s9)))))"

primrec exit_files :: "nat \<Rightarrow> nat list \<Rightarrow> 'a fkernel_scheme \<Rightarrow> 'a fkernel_scheme res" where
  "exit_files me [] s = Inr s"
| "exit_files me (fd # fds) s =
     (case p_ofile (ptable s ! me) ! fd of
        None \<Rightarrow> exit_files me fds s
      | Some f \<Rightarrow>
          bind_res (fileclose me f s) (\<lambda>s1.
            exit_files me fds (upd_proc me (\<lambda>x. x\<lparr>p_ofile := (p_ofile x)[fd := None]\<rparr>) s1)))"

text \<open>The loop that hands the children of \<open>me\<close> to \<open>initproc\<close>.\<close>

primrec exit_reparent :: "nat \<Rightarrow> nat list \<Rightarrow> 'a kernel_scheme \<Rightarrow> 'a kernel_scheme" where
  "exit_reparent me [] s = s"
| "exit_reparent me (i # ks) s =
     (if p_parent (ptable s ! i) = Some me
      then let s1 = upd_proc i (\<lambda>x. x\<lparr>p_parent := initproc s\<rparr>) s
           in exit_reparent me ks
                (if p_state (ptable s1 ! i) = ZOMBIE then wakeup1 (map_option CProc (initproc s1)) s1 else s1)
      else exit_reparent me ks s)"

text \<open>\<open>exit\<close> up to its call of \<open>sched\<close>, from which it does not return.\<close>

definition exit_proc :: "nat \<Rightarrow> 'a fkernel_scheme \<Rightarrow> 'a fkernel_scheme res" where
  "exit_proc me s =
     guard_res (initproc s = Some me) ''init exiting''
       (bind_res (exit_files me [0..<NOFILE] s) (\<lambda>s1.
        bind_res (begin_op s1) (\<lambda>s2.
          case p_cwd (ptable s2 ! me) of
            None \<Rightarrow> Inl (Undefined ''exit'')
          | Some cwd \<Rightarrow>
              bind_res (iput me cwd s2) (\<lambda>s3.
              bind_res (end_op me s3) (\<lambda>s4.
                let s5 = upd_proc me (\<lambda>x. x\<lparr>p_cwd := None\<rparr>) s4;
                    s6 = wakeup1 (map_option CProc (p_parent (ptable s5 ! me))) s5;
                    s7 = exit_reparent me [0..<length (ptable s6)] s6
                in Inr (upd_proc me (\<lambda>x. x\<lparr>p_state := ZOMBIE\<rparr>) s7))))))"

definition forkret :: "nat \<Rightarrow> u8 \<Rightarrow> 'a fkernel_scheme \<Rightarrow> 'a fkernel_scheme res" where
  "forkret me aid s =
     bind_res (release aid (ptable_lock s) s) (\<lambda>(lk, s1).
       let s2 = s1\<lparr>ptable_lock := lk\<rparr>
       in if forkret_first s2
          then bind_res (iinit me ROOTDEV (s2\<lparr>forkret_first := False\<rparr>)) (initlog me ROOTDEV)
          else Inr s2)"

end
