(* ===== verification/Balloc.thy ===== *)
theory Balloc
  imports Inode
begin

text \<open>
  The block allocator refines a set of free block numbers: \<open>balloc\<close> takes the least free block, clears it and
  marks it, \<open>bfree\<close> returns a block, and neither touches any other block.  \<open>in_use s n\<close> is the bit of block \<open>n\<close>.
\<close>

section \<open>Bitmaps\<close>

lemma bmap_bit_iff: "bmap_bit d i \<longleftrightarrow> bit (d ! (i div 8)) (i mod 8)"
  unfolding bmap_bit_def by (rule bit_iff_and_push_bit_not_eq_0 [symmetric])

lemma length_bmap [simp]: "length (bmap_set d i) = length d" "length (bmap_clear d i) = length d"
  by (simp_all add: bmap_set_def bmap_clear_def)

lemma bit_index_eq: "i div 8 = j div 8 \<Longrightarrow> i mod 8 = j mod 8 \<Longrightarrow> i = (j::nat)"
  by (metis div_mult_mod_eq)

lemma bmap_bit_set:
  assumes "i div 8 < length d"
  shows "bmap_bit (bmap_set d i) j \<longleftrightarrow> i = j \<or> bmap_bit d j"
proof (cases "i div 8 = j div 8")
  case True
  then have "i = j \<longleftrightarrow> i mod 8 = j mod 8" using bit_index_eq by metis
  moreover have "j mod 8 < 8" by simp
  ultimately show ?thesis
    using True assms by (auto simp: bmap_bit_iff bmap_set_def bit_simps nth_list_update)
qed (auto simp: bmap_bit_iff bmap_set_def)

lemma bmap_bit_clear:
  assumes "i div 8 < length d"
  shows "bmap_bit (bmap_clear d i) j \<longleftrightarrow> i \<noteq> j \<and> bmap_bit d j"
proof (cases "i div 8 = j div 8")
  case True
  then have "i = j \<longleftrightarrow> i mod 8 = j mod 8" using bit_index_eq by metis
  moreover have "j mod 8 < 8" by simp
  ultimately show ?thesis
    using True assms by (auto simp: bmap_bit_iff bmap_clear_def bit_simps nth_list_update)
qed (auto simp: bmap_bit_iff bmap_clear_def)

section \<open>The set of free blocks\<close>

definition in_use :: "'a ikernel_scheme \<Rightarrow> u32 \<Rightarrow> bool" where
  "in_use s n \<longleftrightarrow> bmap_bit (bview s (BBLOCK n (sblk s))) (unat n mod BPB)"

definition free_blocks :: "'a ikernel_scheme \<Rightarrow> u32 set" where
  "free_blocks s = {n. n < sb_size (sblk s) \<and> \<not> in_use s n}"

text \<open>The bitmap is on the disk, within the file system, and its blocks are marked as used.\<close>

definition bitmap_ok :: "'a ikernel_scheme \<Rightarrow> bool" where
  "bitmap_ok s \<longleftrightarrow> sb_size (sblk s) \<le> disksize s \<and>
     (\<forall>n < sb_size (sblk s). BBLOCK n (sblk s) < sb_size (sblk s) \<and> in_use s (BBLOCK n (sblk s)))"

lemma tx_frame_inode:
  assumes "tx_frame s s'"
  shows "inodes s' = inodes s" "sblk s' = sblk s" "icache_lock s' = icache_lock s"
proof -
  have e: "s' = s\<lparr>ptable := ptable s', bufs := bufs s', bc_next := bc_next s', bc_prev := bc_prev s', log := log s'\<rparr>"
    using assms by (simp add: tx_frame_def)
  show "inodes s' = inodes s" "sblk s' = sblk s" "icache_lock s' = icache_lock s" by (subst e; simp)+
qed

lemma in_use_cong: "bview s' = bview s \<Longrightarrow> sblk s' = sblk s \<Longrightarrow> in_use s' = in_use s"
  by (simp add: in_use_def fun_eq_iff)

lemma bitmap_ok_cong:
  "bview s' = bview s \<Longrightarrow> sblk s' = sblk s \<Longrightarrow> disksize s' = disksize s \<Longrightarrow> bitmap_ok s' = bitmap_ok s"
  by (simp add: bitmap_ok_def in_use_def)

lemma BBLOCK_eq_iff: "BBLOCK n sb = BBLOCK m sb \<longleftrightarrow> unat n div BPB = unat m div BPB"
proof -
  have "BBLOCK n sb = BBLOCK m sb \<longleftrightarrow> n div of_nat BPB = m div of_nat BPB" by (simp add: BBLOCK_def)
  also have "\<dots> \<longleftrightarrow> unat (n div of_nat BPB) = unat (m div of_nat BPB)" by (simp only: word_unat_eq_iff)
  finally show ?thesis by (simp add: unat_div)
qed

lemma block_bit_eq: "BBLOCK n sb = BBLOCK m sb \<Longrightarrow> unat n mod BPB = unat m mod BPB \<Longrightarrow> n = m"
  by (metis BBLOCK_eq_iff div_mult_mod_eq word_unat_eq_iff)

lemma bit_in_block: "length d = BSIZE \<Longrightarrow> unat (n :: u32) mod BPB div 8 < length d"
  using mod_less_divisor [of BPB "unat n"] by (simp add: less_mult_imp_div_less)

lemma in_use_set:
  assumes "length (bview s (BBLOCK n (sblk s))) = BSIZE" and "sblk s' = sblk s"
    and "bview s' (BBLOCK m (sblk s)) =
      ((bview s)(BBLOCK n (sblk s) := bmap_set (bview s (BBLOCK n (sblk s))) (unat n mod BPB))) (BBLOCK m (sblk s))"
  shows "in_use s' m \<longleftrightarrow> m = n \<or> in_use s m"
  using assms block_bit_eq [of n "sblk s" m] bmap_bit_set [OF bit_in_block [OF assms(1)]]
  by (cases "BBLOCK m (sblk s) = BBLOCK n (sblk s)") (auto simp: in_use_def)

lemma in_use_clear:
  assumes "length (bview s (BBLOCK n (sblk s))) = BSIZE" and "sblk s' = sblk s"
    and "bview s' (BBLOCK m (sblk s)) =
      ((bview s)(BBLOCK n (sblk s) := bmap_clear (bview s (BBLOCK n (sblk s))) (unat n mod BPB))) (BBLOCK m (sblk s))"
  shows "in_use s' m \<longleftrightarrow> m \<noteq> n \<and> in_use s m"
  using assms block_bit_eq [of n "sblk s" m] bmap_bit_clear [OF bit_in_block [OF assms(1)]]
  by (cases "BBLOCK m (sblk s) = BBLOCK n (sblk s)") (auto simp: in_use_def)

section \<open>One block\<close>

lemma bzero_spec:
  assumes "tx me H (Suc k) s" and "n \<notin> snd ` set H" "n < disksize s" "length H \<le> 2"
  shows "ok_res (bzero me 1 n s) (\<lambda>s'. tx me H k s' \<and> bview s' = (bview s)(n := replicate BSIZE 0) \<and>
     dirty_blocks s' = insert n (dirty_blocks s) \<and> tx_frame s s')"
  unfolding bzero_def
proof (rule ok_res_seq [OF tx_bread [OF assms]], clarify)
  fix b s1
  assume 1: "tx me ((b, n) # H) (Suc k) s1" "bview s1 = bview s" "dirty_blocks s1 = dirty_blocks s" "tx_frame s s1"
  have d: "length (replicate BSIZE 0 :: u8 list) = BSIZE" by simp
  show "ok_res (bind_res (log_write b (upd_buf b (\<lambda>x. x\<lparr>b_data := replicate BSIZE 0\<rparr>) s1)) (brelse me b))
     (\<lambda>s'. tx me H k s' \<and> bview s' = (bview s)(n := replicate BSIZE 0) \<and>
        dirty_blocks s' = insert n (dirty_blocks s) \<and> tx_frame s s')"
    by (rule ok_res_seq [OF tx_log_write [OF 1(1) d]], elim conjE, rule ok_res_mono [OF tx_brelse])
      (auto simp: 1 intro: tx_frame_trans [OF 1(4)] tx_frame_trans)
qed

lemma bfree_spec:
  assumes t: "tx me H (Suc k) s" and n: "BBLOCK n (sblk s) \<notin> snd ` set H" "BBLOCK n (sblk s) < disksize s"
    and H: "length H \<le> 2" and u: "in_use s n"
  shows "ok_res (bfree me 1 n s) (\<lambda>s'. tx me H k s' \<and>
     bview s' = (bview s)(BBLOCK n (sblk s) := bmap_clear (bview s (BBLOCK n (sblk s))) (unat n mod BPB)) \<and>
     dirty_blocks s' = insert (BBLOCK n (sblk s)) (dirty_blocks s) \<and> tx_frame s s')"
  unfolding bfree_def
proof (rule ok_res_seq [OF tx_bread [OF t n H]], clarify)
  fix b s1
  assume 1: "tx me ((b, BBLOCK n (sblk s)) # H) (Suc k) s1" "bview s1 = bview s" "dirty_blocks s1 = dirty_blocks s"
    "tx_frame s s1"
  let ?d = "bview s (BBLOCK n (sblk s))"
  have d: "b_data (bufs s1 ! b) = ?d" using tx_data [OF 1(1), of b] 1(2) by simp
  have l: "length (bmap_clear ?d (unat n mod BPB)) = BSIZE" using tx_bview_length [OF t] by simp
  have "ok_res (bind_res (log_write b (upd_buf b (\<lambda>x. x\<lparr>b_data := bmap_clear ?d (unat n mod BPB)\<rparr>) s1)) (brelse me b))
     (\<lambda>s'. tx me H k s' \<and> bview s' = (bview s)(BBLOCK n (sblk s) := bmap_clear ?d (unat n mod BPB)) \<and>
        dirty_blocks s' = insert (BBLOCK n (sblk s)) (dirty_blocks s) \<and> tx_frame s s')"
    by (rule ok_res_seq [OF tx_log_write [OF 1(1) l]], elim conjE, rule ok_res_mono [OF tx_brelse])
      (auto simp: 1 intro: tx_frame_trans [OF 1(4)] tx_frame_trans)
  then show "ok_res (let d = b_data (bufs s1 ! b); bi = unat n mod BPB
      in guard_res (\<not> bmap_bit d bi) ''freeing free block''
           (bind_res (log_write b (upd_buf b (\<lambda>x. x\<lparr>b_data := bmap_clear d bi\<rparr>) s1)) (brelse me b)))
     (\<lambda>s'. tx me H k s' \<and> bview s' = (bview s)(BBLOCK n (sblk s) := bmap_clear ?d (unat n mod BPB)) \<and>
        dirty_blocks s' = insert (BBLOCK n (sblk s)) (dirty_blocks s) \<and> tx_frame s s')"
    using u by (simp add: d in_use_def Let_def)
qed

section \<open>Allocation\<close>

text \<open>What \<open>balloc\<close> promises of the block \<open>n\<close> that it returns.\<close>

definition allocated :: "u32 \<Rightarrow> 'a ikernel_scheme \<Rightarrow> 'a ikernel_scheme \<Rightarrow> bool" where
  "allocated n s s' \<longleftrightarrow> n < sb_size (sblk s) \<and> \<not> in_use s n \<and> (\<forall>m < n. in_use s m) \<and>
     bview s' = (bview s)(BBLOCK n (sblk s) := bmap_set (bview s (BBLOCK n (sblk s))) (unat n mod BPB),
                          n := replicate BSIZE 0) \<and>
     dirty_blocks s' = {n, BBLOCK n (sblk s)} \<union> dirty_blocks s \<and> tx_frame s s'"

lemma find_upt_Some:
  "find P [0..<j] = Some i \<Longrightarrow> i < j \<and> P i \<and> (\<forall>k < i. \<not> P k)"
  by (auto simp: find_Some_iff)

lemma find_upt_None: "find P [0..<j] = None \<Longrightarrow> i < j \<Longrightarrow> \<not> P i"
  by (auto simp: find_None_iff)

lemma unat_block: "x < unat (c :: u32) \<Longrightarrow> unat (of_nat x :: u32) = x"
  using less_trans [OF _ unsigned_less [of c], of x] by (simp add: unat_of_nat take_bit_nat_eq_self)

lemma block_of_bit:
  assumes "j * BPB + i < unat (c :: u32)" and "i < BPB"
  defines "n \<equiv> of_nat (j * BPB + i) :: u32"
  shows "unat n = j * BPB + i" "unat n mod BPB = i" "unat n div BPB = j"
    "BBLOCK n sb = BBLOCK (of_nat (j * BPB)) sb"
proof -
  show u: "unat n = j * BPB + i" unfolding n_def by (rule unat_block [OF assms(1)])
  then show "unat n mod BPB = i" "unat n div BPB = j" using assms(2) by simp_all
  moreover have "unat (of_nat (j * BPB) :: u32) = j * BPB" using assms(1) by (intro unat_block [of _ c]) simp
  ultimately show "BBLOCK n sb = BBLOCK (of_nat (j * BPB)) sb" by (simp add: BBLOCK_eq_iff)
qed

text \<open>The buffers that the caller holds are blocks in use and not of the bitmap.\<close>

definition keeps_clear :: "(nat \<times> u32) list \<Rightarrow> 'a ikernel_scheme \<Rightarrow> bool" where
  "keeps_clear H s \<longleftrightarrow> (\<forall>n \<in> snd ` set H. in_use s n \<and> (\<forall>m < sb_size (sblk s). n \<noteq> BBLOCK m (sblk s)))"

lemma take_block:
  assumes t: "tx me ((b, bb) # H) (Suc (Suc k)) s" and n: "n < sb_size (sblk s)" "\<not> in_use s n" "bb = BBLOCK n (sblk s)"
    and ok: "bitmap_ok s" "keeps_clear H s" and H: "length H \<le> 2"
  shows "ok_res (bind_res (log_write b (upd_buf b (\<lambda>x. x\<lparr>b_data := bmap_set (bview s bb) (unat n mod BPB)\<rparr>) s)) (\<lambda>s2.
     bind_res (brelse me b s2) (\<lambda>s3. bind_res (bzero me 1 n s3) (\<lambda>s4. Inr (n, s4)))))
     (\<lambda>(n', s'). n' = n \<and> tx me H k s' \<and>
       bview s' = (bview s)(bb := bmap_set (bview s bb) (unat n mod BPB), n := replicate BSIZE 0) \<and>
       dirty_blocks s' = {n, bb} \<union> dirty_blocks s \<and> tx_frame s s')"
proof -
  have l: "length (bmap_set (bview s bb) (unat n mod BPB)) = BSIZE" using tx_bview_length [OF t] by simp
  have "n < disksize s" "n \<notin> snd ` set H" using n ok by (auto simp: bitmap_ok_def keeps_clear_def)
  then have z: "tx me H (Suc k) s3 \<Longrightarrow> tx_frame s s3 \<Longrightarrow>
      ok_res (bzero me 1 n s3) (\<lambda>s'. tx me H k s' \<and> bview s' = (bview s3)(n := replicate BSIZE 0) \<and>
        dirty_blocks s' = insert n (dirty_blocks s3) \<and> tx_frame s3 s')" for s3
    using bzero_spec [of me H k s3 n] H tx_frameD(2) [of s s3] by simp
  show ?thesis
  proof (rule ok_res_seq [OF tx_log_write [OF t l]], elim conjE, rule ok_res_seq [OF tx_brelse], assumption, elim conjE,
      rule ok_res_seq [OF z], goal_cases)
    case (3 s2 s3 s4)
    then show ?case by (auto intro: tx_frame_trans)
  qed (auto intro: tx_frame_trans)
qed

lemma balloc_from_spec:
  assumes "tx me H (Suc (Suc k)) s" "bitmap_ok s" "keeps_clear H s" "length H \<le> 2" "free_blocks s \<noteq> {}"
    and "\<And>n. n < sb_size (sblk s) \<Longrightarrow> unat n < j * BPB \<Longrightarrow> in_use s n" and "m = (unat (sb_size (sblk s)) + BPB - 1) div BPB"
  shows "ok_res (balloc_from me 1 (map (\<lambda>k. k * BPB) [j..<m]) s) (\<lambda>(n, s'). tx me H k s' \<and> allocated n s s')"
  using assms
proof (induction "m - j" arbitrary: j s)
  case 0
  obtain n where n: "n < sb_size (sblk s)" "\<not> in_use s n" using 0(6) by (auto simp: free_blocks_def)
  have "unat n < m * BPB" using n(1) 0(8) by (simp add: word_less_nat_alt)
  moreover have "m \<le> j" using 0(1) by simp
  ultimately have "unat n < j * BPB" by (meson less_le_trans mult_le_mono1)
  with n 0(7) show ?case by blast
next
  case (Suc x)
  let ?sb = "sblk s" and ?bb = "BBLOCK (of_nat (j * BPB)) (sblk s)"
  note t = Suc.prems(1) and ok = Suc.prems(2,3) and H = Suc.prems(4)
  have jm: "j < m" using Suc.hyps(2) by simp
  then have base: "j * BPB < unat (sb_size ?sb)"
  proof -
    have "Suc j * BPB \<le> m * BPB" using jm by (intro mult_le_mono1) simp
    also have "\<dots> \<le> unat (sb_size ?sb) + BPB - 1" unfolding Suc.prems(7) by (rule div_times_less_eq_dividend)
    finally show ?thesis by simp
  qed
  have u0: "(of_nat (j * BPB) :: u32) < sb_size ?sb" using base unat_block [OF base] by (simp add: word_less_nat_alt)
  have "?bb < sb_size ?sb" "sb_size ?sb \<le> disksize s" using ok(1) u0 by (auto simp: bitmap_ok_def)
  moreover have "?bb \<notin> snd ` set H" using ok(2) u0 unfolding keeps_clear_def by blast
  ultimately have bb: "?bb < disksize s" "?bb \<notin> snd ` set H" by simp_all
  have list: "[j..<m] = j # [Suc j..<m]" using jm by (rule upt_conv_Cons)
  show ?case
    unfolding list list.map balloc_from.simps
  proof (rule ok_res_seq [OF tx_bread [OF t bb(2,1) H]], clarify)
    fix b s1
    assume 1: "tx me ((b, ?bb) # H) (Suc (Suc k)) s1" "bview s1 = bview s" "dirty_blocks s1 = dirty_blocks s" "tx_frame s s1"
    note same = in_use_cong [OF 1(2) tx_frame_inode(2) [OF 1(4)]] tx_frame_inode(2) [OF 1(4)]
      bitmap_ok_cong [OF 1(2) tx_frame_inode(2) [OF 1(4)] tx_frameD(2) [OF 1(4)]]
    have kc: "keeps_clear H s1" using ok(2) by (simp add: keeps_clear_def same)
    have d: "b_data (bufs s1 ! b) = bview s ?bb" using tx_data [OF 1(1), of b] 1(2) by simp
    let ?find = "find (\<lambda>bi. \<not> bmap_bit (bview s ?bb) bi) [0..<min BPB (unat (sb_size ?sb) - j * BPB)]"
    show "ok_res (let d = b_data (bufs s1 ! b)
      in case find (\<lambda>bi. \<not> bmap_bit d bi) [0..<min BPB (unat (sb_size ?sb) - j * BPB)] of
           Some bi \<Rightarrow>
             bind_res (log_write b (upd_buf b (\<lambda>x. x\<lparr>b_data := bmap_set d bi\<rparr>) s1)) (\<lambda>s2.
             bind_res (brelse me b s2) (\<lambda>s3.
             bind_res (bzero me 1 (of_nat (j * BPB + bi)) s3) (\<lambda>s4. Inr (of_nat (j * BPB + bi), s4))))
         | None \<Rightarrow> bind_res (brelse me b s1) (balloc_from me 1 (map (\<lambda>k. k * BPB) [Suc j..<m])))
      (\<lambda>(n, s'). tx me H k s' \<and> allocated n s s')"
    proof (cases ?find)
      case (Some i)
      let ?n = "of_nat (j * BPB + i) :: u32"
      have i: "i < BPB" "j * BPB + i < unat (sb_size ?sb)" "\<not> bmap_bit (bview s ?bb) i" "\<And>k. k < i \<Longrightarrow> bmap_bit (bview s ?bb) k"
        using find_upt_Some [OF Some] base by auto
      note N = block_of_bit [OF i(2,1)]
      have n: "?n < sb_size ?sb" "\<not> in_use s ?n"
        using i(2,3) N by (simp_all add: word_less_nat_alt in_use_def)
      have least: "in_use s x" if "x < ?n" for x
      proof (cases "unat x < j * BPB")
        case True
        then show ?thesis using \<open>x < ?n\<close> n(1) by (intro Suc.prems(6)) simp_all
      next
        case False
        define q where "q = unat x - j * BPB"
        have q: "unat x = j * BPB + q" "q < i" using False \<open>x < ?n\<close> N(1) by (simp_all add: q_def word_less_nat_alt)
        then have x: "x = of_nat (j * BPB + q)" by (metis of_nat_unat ucast_id)
        have "BBLOCK x ?sb = ?bb" "unat x mod BPB = q"
          using block_of_bit(2,4) [of j q "sb_size ?sb"] q i(1,2) unfolding x by auto
        then show ?thesis using i(4) [OF q(2)] by (simp add: in_use_def)
      qed
      have run: "ok_res (bind_res (log_write b (upd_buf b (\<lambda>x. x\<lparr>b_data := bmap_set (bview s1 ?bb) (unat ?n mod BPB)\<rparr>) s1)) (\<lambda>s2.
         bind_res (brelse me b s2) (\<lambda>s3. bind_res (bzero me 1 ?n s3) (\<lambda>s4. Inr (?n, s4)))))
         (\<lambda>(n', s'). n' = ?n \<and> tx me H k s' \<and>
           bview s' = (bview s1)(?bb := bmap_set (bview s1 ?bb) (unat ?n mod BPB), ?n := replicate BSIZE 0) \<and>
           dirty_blocks s' = {?n, ?bb} \<union> dirty_blocks s1 \<and> tx_frame s1 s')"
        using n ok(1) N(4) by (intro take_block [OF 1(1) _ _ _ _ kc H]) (simp_all add: same)
      have post: "allocated ?n s s'" if "bview s' = (bview s1)(?bb := bmap_set (bview s1 ?bb) (unat ?n mod BPB),
          ?n := replicate BSIZE 0)" "dirty_blocks s' = {?n, ?bb} \<union> dirty_blocks s1" "tx_frame s1 s'" for s'
      proof -
        have "BBLOCK ?n ?sb = ?bb" by (rule N(4))
        then show ?thesis
          unfolding allocated_def using n least that(1,2) tx_frame_trans [OF 1(4) that(3)] by (simp only: 1(2,3)) blast
      qed
      have "ok_res (bind_res (log_write b (upd_buf b (\<lambda>x. x\<lparr>b_data := bmap_set (bview s1 ?bb) (unat ?n mod BPB)\<rparr>) s1)) (\<lambda>s2.
         bind_res (brelse me b s2) (\<lambda>s3. bind_res (bzero me 1 ?n s3) (\<lambda>s4. Inr (?n, s4)))))
         (\<lambda>(n, s'). tx me H k s' \<and> allocated n s s')"
        by (rule ok_res_mono [OF run], clarify, intro conjI post)
      then show ?thesis unfolding d Let_def Some option.case N(2) 1(2) .
    next
      case None
      have full: "in_use s x" if "x < sb_size ?sb" "unat x < Suc j * BPB" for x
      proof (cases "unat x < j * BPB")
        case True
        then show ?thesis using that(1) by (intro Suc.prems(6))
      next
        case False
        define q where "q = unat x - j * BPB"
        have q: "unat x = j * BPB + q" "q < BPB" "unat x < unat (sb_size ?sb)"
          using False that by (simp_all add: q_def word_less_nat_alt)
        have x: "x = of_nat (j * BPB + q)" using q(1) by (metis of_nat_unat ucast_id)
        have "BBLOCK x ?sb = ?bb" "unat x mod BPB = q"
          using block_of_bit(2,4) [of j q "sb_size ?sb"] q unfolding x by auto
        moreover have "bmap_bit (bview s ?bb) q" using find_upt_None [OF None, of q] q by auto
        ultimately show ?thesis by (simp add: in_use_def)
      qed
      have "ok_res (bind_res (brelse me b s1) (balloc_from me 1 (map (\<lambda>k. k * BPB) [Suc j..<m])))
          (\<lambda>(n, s'). tx me H k s' \<and> allocated n s s')"
      proof (rule ok_res_seq [OF tx_brelse [OF 1(1)]], elim conjE)
        fix s3
        assume 3: "tx me H (Suc (Suc k)) s3" "bview s3 = bview s1" "dirty_blocks s3 = dirty_blocks s1" "tx_frame s1 s3"
        have f: "tx_frame s s3" by (rule tx_frame_trans [OF 1(4) 3(4)])
        have v: "bview s3 = bview s" using 3(2) 1(2) by simp
        note same3 = in_use_cong [OF v tx_frame_inode(2) [OF f]] tx_frame_inode(2) [OF f]
          bitmap_ok_cong [OF v tx_frame_inode(2) [OF f] tx_frameD(2) [OF f]]
        have "ok_res (balloc_from me 1 (map (\<lambda>k. k * BPB) [Suc j..<m]) s3) (\<lambda>(n, s'). tx me H k s' \<and> allocated n s3 s')"
        proof (rule Suc.hyps(1) [OF _ 3(1)])
          show "x = m - Suc j" using Suc.hyps(2) by simp
          show "keeps_clear H s3" using ok(2) by (simp add: keeps_clear_def same3)
        qed (use ok(1) H full Suc.prems(5,7) same3 in \<open>simp_all add: free_blocks_def\<close>)
        then show "ok_res (balloc_from me 1 (map (\<lambda>k. k * BPB) [Suc j..<m]) s3) (\<lambda>(n, s'). tx me H k s' \<and> allocated n s s')"
          by (rule ok_res_mono)
            (auto simp: allocated_def same3 v 3(3) 1(3) intro: tx_frame_trans [OF f])
      qed
      then show ?thesis unfolding d Let_def None by simp
    qed
  qed
qed

lemma balloc_spec:
  assumes "tx me H (Suc (Suc k)) s" "bitmap_ok s" "keeps_clear H s" "length H \<le> 2" "free_blocks s \<noteq> {}"
  shows "ok_res (balloc me 1 s) (\<lambda>(n, s'). tx me H k s' \<and> allocated n s s')"
proof -
  have "ok_res (balloc_from me 1 (map (\<lambda>k. k * BPB) [0..<(unat (sb_size (sblk s)) + BPB - 1) div BPB]) s)
      (\<lambda>(n, s'). tx me H k s' \<and> allocated n s s')"
    by (rule balloc_from_spec [OF assms, where j = 0]) simp_all
  then show ?thesis unfolding balloc_def .
qed

text \<open>The effect on the set of free blocks, and what stays.\<close>

lemma allocated_effect:
  assumes a: "allocated n s s'" and t: "tx me H k s" and ok: "bitmap_ok s"
  shows "m < sb_size (sblk s) \<Longrightarrow> in_use s' m \<longleftrightarrow> m = n \<or> in_use s m" "free_blocks s' = free_blocks s - {n}"
    "bitmap_ok s'" "n = Min (free_blocks s)"
proof -
  note A = a [unfolded allocated_def]
  have sb: "sblk s' = sblk s" "disksize s' = disksize s" using A tx_frame_inode(2) tx_frameD(2) by blast+
  show u: "in_use s' m \<longleftrightarrow> m = n \<or> in_use s m" if "m < sb_size (sblk s)" for m
  proof (rule in_use_set [OF tx_bview_length [OF t] sb(1)])
    have "BBLOCK m (sblk s) \<noteq> n" using A ok that by (auto simp: bitmap_ok_def)
    then show "bview s' (BBLOCK m (sblk s)) = ((bview s)(BBLOCK n (sblk s) :=
        bmap_set (bview s (BBLOCK n (sblk s))) (unat n mod BPB))) (BBLOCK m (sblk s))"
      using A by simp
  qed
  show "free_blocks s' = free_blocks s - {n}" using u by (auto simp: free_blocks_def sb)
  show "bitmap_ok s'" using ok u by (simp add: bitmap_ok_def sb)
  show "n = Min (free_blocks s)"
    using A by (intro Min_eqI [symmetric]) (auto simp: free_blocks_def not_le [symmetric] dest: leI)
qed

end
