(* ===== verification/Content.thy ===== *)
theory Content
  imports Balloc
begin

text \<open>
  The content of a file.  An inode maps the blocks of the file to blocks of the disk, directly or through the
  indirect block; \<open>blk_at\<close> is that map and \<open>fbyte\<close> a byte of the file.  \<open>bmap\<close> finds or adds one entry of the map.
\<close>

section \<open>Well-formed file systems\<close>

definition meta_blocks :: "'a ikernel_scheme \<Rightarrow> u32 set" where
  "meta_blocks s = {BBLOCK m (sblk s) | m. m < sb_size (sblk s)} \<union> {IBLOCK i (sblk s) | i. i < sb_ninodes (sblk s)}"

text \<open>The boot block and the blocks of the inodes are marked as used; inodes and bitmap do not share a block.\<close>

definition fs_ok :: "'a ikernel_scheme \<Rightarrow> bool" where
  "fs_ok s \<longleftrightarrow> bitmap_ok s \<and> 0 < sb_size (sblk s) \<and> in_use s 0 \<and>
     (\<forall>i < sb_ninodes (sblk s). IBLOCK i (sblk s) < sb_size (sblk s) \<and> in_use s (IBLOCK i (sblk s)) \<and>
        (\<forall>m < sb_size (sblk s). IBLOCK i (sblk s) \<noteq> BBLOCK m (sblk s)))"

definition data_block :: "'a ikernel_scheme \<Rightarrow> u32 \<Rightarrow> bool" where
  "data_block s n \<longleftrightarrow> n < sb_size (sblk s) \<and> in_use s n \<and> n \<notin> meta_blocks s \<and> n \<noteq> 0"

definition blk_at :: "'a ikernel_scheme \<Rightarrow> inode \<Rightarrow> nat \<Rightarrow> u32" where
  "blk_at s x i =
     (if i < NDIRECT then i_addrs x ! i
      else if i_addrs x ! NDIRECT = 0 then 0
      else get32 (bview s (i_addrs x ! NDIRECT)) (4 * (i - NDIRECT)))"

text \<open>The blocks of an inode are data blocks, and no block is used twice.\<close>

definition inode_ok :: "'a ikernel_scheme \<Rightarrow> inode \<Rightarrow> bool" where
  "inode_ok s x \<longleftrightarrow> length (i_addrs x) = NDIRECT + 1 \<and> i_dev x = 1 \<and>
     (i_addrs x ! NDIRECT \<noteq> 0 \<longrightarrow> data_block s (i_addrs x ! NDIRECT)) \<and>
     (\<forall>i < MAXFILE. blk_at s x i \<noteq> 0 \<longrightarrow> data_block s (blk_at s x i) \<and> blk_at s x i \<noteq> i_addrs x ! NDIRECT \<and>
        (\<forall>j < MAXFILE. blk_at s x j = blk_at s x i \<longrightarrow> j = i))"

definition fbyte :: "'a ikernel_scheme \<Rightarrow> inode \<Rightarrow> nat \<Rightarrow> u8" where
  "fbyte s x j = bview s (blk_at s x (j div BSIZE)) ! (j mod BSIZE)"

text \<open>
  \<open>grows X s s'\<close>: blocks are only added to those in use, and of the data blocks in use only those in \<open>X\<close> change.
\<close>

definition grows :: "u32 set \<Rightarrow> 'a ikernel_scheme \<Rightarrow> 'a ikernel_scheme \<Rightarrow> bool" where
  "grows X s s' \<longleftrightarrow> fs_ok s' \<and> sblk s' = sblk s \<and> disksize s' = disksize s \<and>
     (\<forall>n. n < sb_size (sblk s) \<longrightarrow> in_use s n \<longrightarrow> in_use s' n) \<and>
     (\<forall>n. n < sb_size (sblk s) \<longrightarrow> in_use s n \<longrightarrow> n \<notin> X \<longrightarrow> (\<forall>m < sb_size (sblk s). n \<noteq> BBLOCK m (sblk s)) \<longrightarrow>
        bview s' n = bview s n)"

lemma grows_trans: "grows X s s1 \<Longrightarrow> grows Y s1 s2 \<Longrightarrow> grows (X \<union> Y) s s2"
  by (auto simp: grows_def)

lemma grows_mono: "grows X s s' \<Longrightarrow> X \<subseteq> Y \<Longrightarrow> grows Y s s'"
  by (auto simp: grows_def)

lemma fs_ok_cong:
  "bview s' = bview s \<Longrightarrow> sblk s' = sblk s \<Longrightarrow> disksize s' = disksize s \<Longrightarrow> fs_ok s' = fs_ok s"
  using in_use_cong [of s' s] bitmap_ok_cong [of s' s] by (simp add: fs_ok_def)

lemma grows_same: "fs_ok s \<Longrightarrow> bview s' = bview s \<Longrightarrow> sblk s' = sblk s \<Longrightarrow> disksize s' = disksize s \<Longrightarrow> grows X s s'"
  using in_use_cong [of s' s] fs_ok_cong [of s' s] by (simp add: grows_def)

lemma data_block_grows:
  assumes "grows X s s'" and "data_block s n"
  shows "data_block s' n" "n \<notin> X \<Longrightarrow> bview s' n = bview s n"
  using assms by (auto simp: grows_def data_block_def meta_blocks_def)

lemma blk_at_grows:
  assumes "grows X s s'" and "inode_ok s x" and "i_addrs x ! NDIRECT \<notin> X \<or> i_addrs x ! NDIRECT = 0"
  shows "blk_at s' x = blk_at s x"
  using assms data_block_grows(2) [OF assms(1)] by (auto simp: blk_at_def inode_ok_def fun_eq_iff)

lemma inode_ok_grows:
  assumes "grows X s s'" and "inode_ok s x" and "i_addrs x ! NDIRECT \<notin> X \<or> i_addrs x ! NDIRECT = 0"
  shows "inode_ok s' x"
  using assms(2) data_block_grows(1) [OF assms(1)] blk_at_grows [OF assms] by (auto simp: inode_ok_def)

lemma allocated_grows:
  assumes a: "allocated n s s'" and t: "tx me H k s" and ok: "fs_ok s"
  shows "grows {} s s'" "data_block s' n" "\<not> in_use s n" "bview s' n = replicate BSIZE 0"
    "card (free_blocks s) = Suc (card (free_blocks s'))" "inodes s' = inodes s"
proof -
  note A = a [unfolded allocated_def]
  have b: "bitmap_ok s" using ok by (simp add: fs_ok_def)
  note E = allocated_effect [OF a t b]
  have sb: "sblk s' = sblk s" "disksize s' = disksize s" and "inodes s' = inodes s"
    using A tx_frame_inode tx_frameD(2) by blast+
  then show "inodes s' = inodes s" by simp
  have u: "in_use s m \<Longrightarrow> m < sb_size (sblk s) \<Longrightarrow> in_use s' m" for m using E(1) by blast
  have f: "fs_ok s'" using ok E(3) u unfolding fs_ok_def sb by blast
  have other: "bview s' m = bview s m" if "m \<noteq> n" "m \<noteq> BBLOCK n (sblk s)" for m using A that by simp
  show "grows {} s s'"
    unfolding grows_def using f sb u other A by auto
  show "\<not> in_use s n" "bview s' n = replicate BSIZE 0" using A by simp_all
  have "n \<notin> meta_blocks s" "n \<noteq> 0" using A ok by (auto simp: meta_blocks_def fs_ok_def bitmap_ok_def)
  then show "data_block s' n" using A E(1) [of n] by (simp add: data_block_def sb meta_blocks_def)
  have "finite (free_blocks s)" "n \<in> free_blocks s" using A by (auto simp: free_blocks_def)
  then show "card (free_blocks s) = Suc (card (free_blocks s'))" unfolding E(2) by (metis card_Suc_Diff1)
qed

text \<open>The file system functions also change the cached inodes.\<close>

definition fs_frame :: "'a ikernel_scheme \<Rightarrow> 'a ikernel_scheme \<Rightarrow> bool" where
  "fs_frame s s' \<longleftrightarrow> tx_frame s (s'\<lparr>inodes := inodes s\<rparr>)"

lemma tx_frame_inodes: "tx_frame s s' \<Longrightarrow> tx_frame (s\<lparr>inodes := v\<rparr>) (s'\<lparr>inodes := v\<rparr>)"
proof -
  assume a: "tx_frame s s'"
  then have e: "s' = s\<lparr>ptable := ptable s', bufs := bufs s', bc_next := bc_next s', bc_prev := bc_prev s', log := log s'\<rparr>"
    by (simp add: tx_frame_def)
  have "s'\<lparr>inodes := v\<rparr> = s\<lparr>inodes := v, ptable := ptable s', bufs := bufs s', bc_next := bc_next s', bc_prev := bc_prev s', log := log s'\<rparr>"
    by (subst e) simp
  then show ?thesis using a by (simp add: tx_frame_def)
qed

lemma fs_frame_tx: "tx_frame s s' \<Longrightarrow> fs_frame s s'"
  using tx_frame_inodes [of s s' "inodes s"] by (simp add: fs_frame_def)

lemma fs_frame_trans: "fs_frame s1 s2 \<Longrightarrow> fs_frame s2 s3 \<Longrightarrow> fs_frame s1 s3"
  using tx_frame_inodes [of s2 "s3\<lparr>inodes := inodes s2\<rparr>" "inodes s1"] by (auto simp: fs_frame_def intro: tx_frame_trans)

lemma fs_frame_upd [simp]: "fs_frame s (upd_inode ip f s') = fs_frame s s'"
  by (simp add: fs_frame_def upd_inode_def)

lemma fs_frame_refl [simp]: "fs_frame s s"
  by (simp add: fs_frame_def)

section \<open>The block map\<close>

text \<open>What \<open>bmap\<close> leaves: entry \<open>i\<close> of the map is \<open>a\<close>; an entry that was missing is a fresh block of zeros.\<close>

definition mapped :: "nat \<Rightarrow> nat \<Rightarrow> u32 \<Rightarrow> 'a ikernel_scheme \<Rightarrow> 'a ikernel_scheme \<Rightarrow> bool" where
  "mapped ip i a s s' \<longleftrightarrow>
     (\<exists>as. inodes s' = (inodes s)[ip := (inodes s ! ip)\<lparr>i_addrs := as\<rparr>]) \<and>
     inode_ok s' (inodes s' ! ip) \<and> a \<noteq> 0 \<and> blk_at s' (inodes s' ! ip) i = a \<and>
     (\<forall>j < MAXFILE. j \<noteq> i \<longrightarrow> blk_at s' (inodes s' ! ip) j = blk_at s (inodes s ! ip) j) \<and>
     (i_addrs (inodes s' ! ip) ! NDIRECT = i_addrs (inodes s ! ip) ! NDIRECT \<or>
      i_addrs (inodes s ! ip) ! NDIRECT = 0 \<and> \<not> in_use s (i_addrs (inodes s' ! ip) ! NDIRECT)) \<and>
     (if blk_at s (inodes s ! ip) i = 0 then bview s' a = replicate BSIZE 0 \<and> \<not> in_use s a
      else a = blk_at s (inodes s ! ip) i \<and> bview s' = bview s \<and> inodes s' = inodes s \<and> dirty_blocks s' = dirty_blocks s) \<and>
     grows ({i_addrs (inodes s ! ip) ! NDIRECT} - {0}) s s' \<and>
     card (free_blocks s) \<le> card (free_blocks s') + (if i_addrs (inodes s ! ip) ! NDIRECT = 0 then 2 else 1) \<and>
     dirty_blocks s' \<subseteq> dirty_blocks s \<union> {a, i_addrs (inodes s' ! ip) ! NDIRECT} \<union>
       {BBLOCK m (sblk s) | m. m < sb_size (sblk s)} \<and> fs_frame s s'"

text \<open>A new direct block, or a new indirect block: entry \<open>i\<close> of \<open>i_addrs\<close> was 0 and becomes a fresh block.\<close>

lemma inodes_cache [simp]:
  "bview (s\<lparr>inodes := v\<rparr>) = bview s" "bc_inv lru (s\<lparr>inodes := v\<rparr>) = bc_inv lru s" "locked (s\<lparr>inodes := v\<rparr>) = locked s"
  "dirty_blocks (s\<lparr>inodes := v\<rparr>) = dirty_blocks s" "held me b n (s\<lparr>inodes := v\<rparr>) = held me b n s"
  by (auto simp: fun_eq_iff bc_inv_def held_def holdingsleep_def bview_def locked_def dirty_blocks_def split: option.split)

lemma inodes_fs [simp]:
  "in_use (s\<lparr>inodes := v\<rparr>) = in_use s" "free_blocks (s\<lparr>inodes := v\<rparr>) = free_blocks s"
  "fs_ok (s\<lparr>inodes := v\<rparr>) = fs_ok s" "tx me H k (s\<lparr>inodes := v\<rparr>) = tx me H k s"
  "blk_at (s\<lparr>inodes := v\<rparr>) = blk_at s" "data_block (s\<lparr>inodes := v\<rparr>) = data_block s"
proof -
  show u: "in_use (s\<lparr>inodes := v\<rparr>) = in_use s" by (rule in_use_cong) simp_all
  show "fs_ok (s\<lparr>inodes := v\<rparr>) = fs_ok s" by (rule fs_ok_cong) simp_all
  show "free_blocks (s\<lparr>inodes := v\<rparr>) = free_blocks s" by (simp add: free_blocks_def u)
  show "blk_at (s\<lparr>inodes := v\<rparr>) = blk_at s" by (simp add: blk_at_def fun_eq_iff)
  show "data_block (s\<lparr>inodes := v\<rparr>) = data_block s" by (simp add: data_block_def u fun_eq_iff meta_blocks_def)
  show "tx me H k (s\<lparr>inodes := v\<rparr>) = tx me H k s" by (simp add: tx_def logged_def holding_buf_def)
qed

lemma inode_ok_upd [simp]: "inode_ok (s\<lparr>inodes := v\<rparr>) = inode_ok s"
  by (simp add: inode_ok_def fun_eq_iff)

lemma upd_inode_eq: "upd_inode ip f s = s\<lparr>inodes := (inodes s)[ip := f (inodes s ! ip)]\<rparr>"
  by (simp add: upd_inode_def)

lemma blk_at_direct:
  assumes "length (i_addrs x) = NDIRECT + 1" "i < NDIRECT"
  shows "blk_at s (x\<lparr>i_addrs := (i_addrs x)[i := a]\<rparr>) j = (if j = i then a else blk_at s x j)"
  using assms by (auto simp: blk_at_def nth_list_update)

lemma get32_zeros: "4 * j + 4 \<le> BSIZE \<Longrightarrow> get32 (replicate BSIZE 0) (4 * j) = 0"
  by (simp add: get32_def slice_def word32_def)

lemma blk_at_new_ind:
  assumes "length (i_addrs x) = NDIRECT + 1" "i_addrs x ! NDIRECT = 0" "bview s a = replicate BSIZE 0" "j < MAXFILE"
  shows "blk_at s (x\<lparr>i_addrs := (i_addrs x)[NDIRECT := a]\<rparr>) j = blk_at s x j"
  using assms by (auto simp: blk_at_def get32_zeros)

text \<open>The two allocations, each with the entry that it fills.\<close>

lemma bmap_direct:
  assumes a: "allocated a s s1" and t: "tx me H k s" and ok: "fs_ok s" "inode_ok s (inodes s ! ip)" and ip: "ip < length (inodes s)"
    and i: "i < NDIRECT" "i_addrs (inodes s ! ip) ! i = 0"
  shows "mapped ip i a s (upd_inode ip (\<lambda>y. y\<lparr>i_addrs := (i_addrs y)[i := a]\<rparr>) s1)"
proof -
  let ?x = "inodes s ! ip"
  note G = allocated_grows [OF a t ok(1)]
  have len: "length (i_addrs ?x) = NDIRECT + 1" using ok(2) by (simp add: inode_ok_def)
  let ?y = "?x\<lparr>i_addrs := (i_addrs ?x)[i := a]\<rparr>"
  have b1: "blk_at s1 ?x = blk_at s ?x" by (rule blk_at_grows [OF G(1) ok(2)]) simp
  have o1: "inode_ok s1 ?x" by (rule inode_ok_grows [OF G(1) ok(2)]) simp
  have b2: "blk_at s1 ?y j = (if j = i then a else blk_at s ?x j)" for j
    unfolding blk_at_direct [OF len i(1)] b1 ..
  have fresh: "blk_at s ?x j \<noteq> a" "i_addrs ?x ! NDIRECT \<noteq> a" if "j < MAXFILE" for j
    using ok(2) G(2,3) that unfolding inode_ok_def data_block_def by auto
  have ind: "i_addrs ?y ! NDIRECT = i_addrs ?x ! NDIRECT" using i(1) by simp
  have "inode_ok s1 ?y"
    using o1 G(2) fresh len unfolding inode_ok_def b2 b1 ind by auto
  moreover have "blk_at s ?x i = 0" using i by (simp add: blk_at_def)
  moreover have "a \<noteq> 0" using G(2) by (simp add: data_block_def)
  moreover have "fs_frame s (upd_inode ip (\<lambda>y. y\<lparr>i_addrs := (i_addrs y)[i := a]\<rparr>) s1)"
    using a by (simp add: allocated_def fs_frame_tx)
  ultimately show ?thesis
    unfolding mapped_def upd_inode_eq
    using ip i(1) b2 G a [unfolded allocated_def] grows_mono [OF G(1)] by (auto simp: grows_def)
qed

text \<open>New contents for a data block.\<close>

lemma data_write:
  assumes n: "data_block s n" and ok: "fs_ok s"
    and s': "bview s' = (bview s)(n := d)" "sblk s' = sblk s" "disksize s' = disksize s"
  shows "grows {n} s s'" "free_blocks s' = free_blocks s" "\<And>m. m < sb_size (sblk s) \<Longrightarrow> in_use s' m = in_use s m"
proof -
  have u: "in_use s' m = in_use s m" if "m < sb_size (sblk s)" for m
    using n that unfolding in_use_def s' data_block_def meta_blocks_def by auto
  then show "\<And>m. m < sb_size (sblk s) \<Longrightarrow> in_use s' m = in_use s m" .
  show "free_blocks s' = free_blocks s" using u by (auto simp: free_blocks_def s')
  have "fs_ok s'" using ok u unfolding fs_ok_def bitmap_ok_def s' by simp
  then show "grows {n} s s'" using u by (simp add: grows_def s')
qed

lemma allocated_cong:
  assumes "allocated a s1 s2" and "bview s1 = bview s" "dirty_blocks s1 = dirty_blocks s" "tx_frame s s1"
  shows "allocated a s s2"
  using assms(1) tx_frame_trans [OF assms(4)] tx_frame_inode(2) [OF assms(4)]
    in_use_cong [OF assms(2) tx_frame_inode(2) [OF assms(4)]]
  unfolding allocated_def assms(2,3) by auto

lemma bmap_entry:
  assumes a: "allocated a s s3" and t: "tx me H k s" and ok: "fs_ok s" "inode_ok s (inodes s ! ip)"
    and ind: "ind = i_addrs (inodes s ! ip) ! NDIRECT" "ind \<noteq> 0"
    and i: "NDIRECT \<le> i" "i < MAXFILE" "blk_at s (inodes s ! ip) i = 0"
    and s': "bview s' = (bview s3)(ind := put32 (bview s3 ind) (4 * (i - NDIRECT)) a)" "tx_frame s3 s'"
      "dirty_blocks s' = insert ind (dirty_blocks s3)"
  shows "mapped ip i a s s'"
proof -
  let ?x = "inodes s ! ip"
  note G = allocated_grows [OF a t ok(1)]
  note F = tx_frame_inode [OF s'(2)] tx_frameD(2) [OF s'(2)]
  have d: "data_block s ind" using ok(2) ind by (simp add: inode_ok_def)
  have d3: "data_block s3 ind" "bview s3 ind = bview s ind" using data_block_grows [OF G(1) d] by simp_all
  have ok3: "fs_ok s3" "sblk s3 = sblk s" using G(1) by (simp_all add: grows_def)
  note W = data_write [OF d3(1) ok3(1) s'(1) F(2,4)]
  have ino: "inodes s' = inodes s" using F G(6) by simp
  have len: "length (bview s ind) = BSIZE" by (rule tx_bview_length [OF t])
  have old: "blk_at s ?x j = get32 (bview s ind) (4 * (j - NDIRECT))" if "NDIRECT \<le> j" for j
    using that ind by (simp add: blk_at_def)
  have b: "blk_at s' ?x j = (if j = i then a else blk_at s ?x j)" if "j < MAXFILE" for j
  proof (cases "j < NDIRECT")
    case True
    then show ?thesis using i by (auto simp: blk_at_def)
  next
    case False
    then have "blk_at s' ?x j = get32 (put32 (bview s ind) (4 * (i - NDIRECT)) a) (4 * (j - NDIRECT))"
      using ind s'(1) d3(2) by (simp add: blk_at_def)
    also have "\<dots> = (if j = i then a else get32 (bview s ind) (4 * (j - NDIRECT)))"
      using False that i(1,2) len by (auto intro!: get32_put32_other)
    finally show ?thesis using False old by simp
  qed
  have new: "a \<noteq> ind" "a \<noteq> 0" using G(2,3) d by (auto simp: data_block_def)
  have fresh: "blk_at s ?x j \<noteq> a" if "j < MAXFILE" for j
    using ok(2) G(2,3) that unfolding inode_ok_def data_block_def by auto
  have db: "data_block s' m" if "data_block s m \<or> m = a" for m
    using that G(2) data_block_grows(1) [OF G(1)] data_block_grows(1) [OF W(1)] by blast
  have iok: "inode_ok s' ?x"
    unfolding inode_ok_def
  proof (intro conjI allI impI)
    show "length (i_addrs ?x) = NDIRECT + 1" "i_dev ?x = 1" using ok(2) by (simp_all add: inode_ok_def)
    show "data_block s' (i_addrs ?x ! NDIRECT)" using d db ind by simp
    fix j
    assume j: "j < MAXFILE" "blk_at s' ?x j \<noteq> 0"
    show "data_block s' (blk_at s' ?x j)" "blk_at s' ?x j \<noteq> i_addrs ?x ! NDIRECT"
      using j db ok(2) new ind by (auto simp: b inode_ok_def)
    fix m
    assume m: "m < MAXFILE" "blk_at s' ?x m = blk_at s' ?x j"
    then show "m = j" using j fresh [of j] fresh [of m] ok(2) by (auto simp: b inode_ok_def split: if_splits)
  qed
  have g: "grows {ind} s s'" using grows_trans [OF G(1) W(1)] by simp
  have "bview s' a = replicate BSIZE 0" using s'(1) G(4) new by simp
  moreover have "card (free_blocks s) \<le> card (free_blocks s') + 1" using G(5) W(2) by simp
  moreover have "\<exists>as. inodes s' = (inodes s)[ip := ?x\<lparr>i_addrs := as\<rparr>]"
    by (rule exI [of _ "i_addrs ?x"]) (simp add: ino)
  moreover have "dirty_blocks s' \<subseteq> dirty_blocks s \<union> {a, ind} \<union> {BBLOCK m (sblk s) | m. m < sb_size (sblk s)}"
    using s'(3) a by (auto simp: allocated_def)
  moreover have "fs_frame s s'" using a s'(2) by (auto simp: allocated_def intro: fs_frame_tx tx_frame_trans)
  ultimately show ?thesis
    unfolding mapped_def using g b i G(3) iok new ind by (auto simp: ino)
qed

lemma mapped_same:
  assumes "inode_ok s (inodes s ! ip)" "fs_ok s" "a = blk_at s (inodes s ! ip) i" "a \<noteq> 0"
    and "bview s' = bview s" "dirty_blocks s' = dirty_blocks s" "tx_frame s s'"
  shows "mapped ip i a s s'"
proof -
  note F = tx_frame_inode [OF assms(7)] tx_frameD(2) [OF assms(7)]
  have g: "grows {} s s'" by (rule grows_same [OF assms(2,5) F(2,4)])
  have "blk_at s' (inodes s ! ip) = blk_at s (inodes s ! ip)" "inode_ok s' (inodes s ! ip)"
    by (rule blk_at_grows [OF g assms(1)] inode_ok_grows [OF g assms(1)], simp)+
  moreover have "free_blocks s' = free_blocks s"
    using in_use_cong [OF assms(5) F(2)] by (simp add: free_blocks_def F(2))
  moreover have "\<exists>as. inodes s = (inodes s)[ip := (inodes s ! ip)\<lparr>i_addrs := as\<rparr>]"
    by (rule exI [of _ "i_addrs (inodes s ! ip)"]) simp
  ultimately show ?thesis
    unfolding mapped_def using assms F grows_mono [OF g] fs_frame_tx by auto
qed

lemma bmap_ind:
  assumes t: "tx me [] (3 + k) s" and ok: "fs_ok s" "inode_ok s (inodes s ! ip)"
    and ind: "ind = i_addrs (inodes s ! ip) ! NDIRECT" "ind \<noteq> 0" and i: "NDIRECT \<le> i" "i < MAXFILE"
    and free: "blk_at s (inodes s ! ip) i = 0 \<Longrightarrow> free_blocks s \<noteq> {}"
  shows "ok_res (bind_res (bread me 1 ind s) (\<lambda>(bp, s2).
       let j = i - NDIRECT; addr = get32 (b_data (bufs s2 ! bp)) (4 * j)
       in if addr = 0
          then bind_res (balloc me 1 s2) (\<lambda>(a, s3).
               bind_res (log_write bp (upd_buf bp (\<lambda>b. b\<lparr>b_data := put32 (b_data b) (4 * j) a\<rparr>) s3)) (\<lambda>s4.
               bind_res (brelse me bp s4) (\<lambda>s5. Inr (a, s5))))
          else bind_res (brelse me bp s2) (\<lambda>s3. Inr (addr, s3))))
     (\<lambda>(a, s'). tx me [] k s' \<and> mapped ip i a s s')"
proof -
  have d: "data_block s ind" using ok(2) ind by (simp add: inode_ok_def)
  have n: "ind \<notin> snd ` set []" "ind < disksize s" using d ok(1) by (auto simp: data_block_def fs_ok_def bitmap_ok_def)
  show ?thesis
  proof (rule ok_res_seq [OF tx_bread [OF t n]], simp, clarify)
    fix bp s2
    assume 2: "tx me [(bp, ind)] (3 + k) s2" "bview s2 = bview s" "dirty_blocks s2 = dirty_blocks s" "tx_frame s s2"
    have v: "get32 (b_data (bufs s2 ! bp)) (4 * (i - NDIRECT)) = blk_at s (inodes s ! ip) i"
      using tx_data [OF 2(1), of bp] 2(2) i ind by (simp add: blk_at_def)
    show "ok_res (let j = i - NDIRECT; addr = get32 (b_data (bufs s2 ! bp)) (4 * j)
       in if addr = 0
          then bind_res (balloc me 1 s2) (\<lambda>(a, s3).
               bind_res (log_write bp (upd_buf bp (\<lambda>b. b\<lparr>b_data := put32 (b_data b) (4 * j) a\<rparr>) s3)) (\<lambda>s4.
               bind_res (brelse me bp s4) (\<lambda>s5. Inr (a, s5))))
          else bind_res (brelse me bp s2) (\<lambda>s3. Inr (addr, s3)))
       (\<lambda>(a, s'). tx me [] k s' \<and> mapped ip i a s s')"
    proof (cases "blk_at s (inodes s ! ip) i = 0")
      case False
      have "ok_res (bind_res (brelse me bp s2) (\<lambda>s3. Inr (blk_at s (inodes s ! ip) i, s3)))
          (\<lambda>(a, s'). tx me [] k s' \<and> mapped ip i a s s')"
        by (rule ok_res_seq [OF tx_brelse [OF 2(1)]])
          (use False 2 ok in \<open>auto intro!: mapped_same tx_less [of _ _ "3 + k"] intro: tx_frame_trans\<close>)
      then show ?thesis using False by (simp add: v Let_def)
    next
      case True
      have sb: "sblk s2 = sblk s" by (rule tx_frame_inode(2) [OF 2(4)])
      have u: "in_use s2 = in_use s" by (rule in_use_cong [OF 2(2) sb])
      have b: "bitmap_ok s2" "free_blocks s2 \<noteq> {}" "keeps_clear [(bp, ind)] s2" "tx me [(bp, ind)] (Suc (Suc (Suc k))) s2"
        using ok(1) free [OF True] d 2(1) bitmap_ok_cong [OF 2(2) sb tx_frameD(2) [OF 2(4)]]
        by (auto simp: fs_ok_def free_blocks_def u sb keeps_clear_def data_block_def meta_blocks_def eval_nat_numeral)
      have "ok_res (bind_res (balloc me 1 s2) (\<lambda>(a, s3).
               bind_res (log_write bp (upd_buf bp (\<lambda>b. b\<lparr>b_data := put32 (b_data b) (4 * (i - NDIRECT)) a\<rparr>) s3)) (\<lambda>s4.
               bind_res (brelse me bp s4) (\<lambda>s5. Inr (a, s5)))))
          (\<lambda>(a, s'). tx me [] k s' \<and> mapped ip i a s s')"
      proof (rule ok_res_seq [OF balloc_spec [OF b(4,1,3) _ b(2)]], simp, clarify)
        fix a s3
        assume 3: "tx me [(bp, ind)] (Suc k) s3" "allocated a s2 s3"
        have a: "allocated a s s3" by (rule allocated_cong [OF 3(2) 2(2,3,4)])
        have dd: "b_data (bufs s3 ! bp) = bview s3 ind" using tx_data [OF 3(1), of bp] by simp
        have "length (bview s3 ind) = BSIZE" by (rule tx_bview_length [OF 3(1)])
        then have l: "length (put32 (b_data (bufs s3 ! bp)) (4 * (i - NDIRECT)) a) = BSIZE"
          using i by (simp add: dd)
        show "ok_res (bind_res (log_write bp (upd_buf bp (\<lambda>b. b\<lparr>b_data := put32 (b_data b) (4 * (i - NDIRECT)) a\<rparr>) s3)) (\<lambda>s4.
               bind_res (brelse me bp s4) (\<lambda>s5. Inr (a, s5)))) (\<lambda>(a, s'). tx me [] k s' \<and> mapped ip i a s s')"
        proof (rule ok_res_seq [OF tx_log_write [OF 3(1), where d = "\<lambda>b. put32 (b_data b) (4 * (i - NDIRECT)) a", OF l]],
            elim conjE, rule ok_res_seq [OF tx_brelse], assumption, elim conjE)
          fix s4 s5
          assume 4: "tx me [(bp, ind)] k s4" "bview s4 = (bview s3)(ind := put32 (b_data (bufs s3 ! bp)) (4 * (i - NDIRECT)) a)"
            "dirty_blocks s4 = insert ind (dirty_blocks s3)" "tx_frame s3 s4"
          assume 5: "tx me [] k s5" "bview s5 = bview s4" "dirty_blocks s5 = dirty_blocks s4" "tx_frame s4 s5"
          have "mapped ip i a s s5"
            by (rule bmap_entry [OF a t ok ind i True])
              (use 4 5 dd in \<open>auto intro: tx_frame_trans\<close>)
          then show "ok_res (Inr (a, s5)) (\<lambda>(a, s'). tx me [] k s' \<and> mapped ip i a s s')" using 5(1) by simp
        qed
      qed
      then show ?thesis using True by (simp add: v Let_def)
    qed
  qed
qed

text \<open>A new indirect block: the map is the same, and the entry is then added as before.\<close>

lemma bmap_new_ind:
  assumes a: "allocated a s s1" and t: "tx me H k s" and ok: "fs_ok s" "inode_ok s (inodes s ! ip)" and ip: "ip < length (inodes s)"
    and ind: "i_addrs (inodes s ! ip) ! NDIRECT = 0"
  defines "s2 \<equiv> upd_inode ip (\<lambda>y. y\<lparr>i_addrs := (i_addrs y)[NDIRECT := a]\<rparr>) s1"
  shows "fs_ok s2" "inode_ok s2 (inodes s2 ! ip)" "i_addrs (inodes s2 ! ip) ! NDIRECT = a" "a \<noteq> 0"
    "card (free_blocks s) = Suc (card (free_blocks s2))"
    "NDIRECT \<le> i \<Longrightarrow> i < MAXFILE \<Longrightarrow> mapped ip i b s2 s' \<Longrightarrow> mapped ip i b s s'"
proof -
  let ?x = "inodes s ! ip"
  let ?y = "?x\<lparr>i_addrs := (i_addrs ?x)[NDIRECT := a]\<rparr>"
  note G = allocated_grows [OF a t ok(1)]
  have len: "length (i_addrs ?x) = NDIRECT + 1" using ok(2) by (simp add: inode_ok_def)
  have ino: "inodes s2 = (inodes s)[ip := ?y]" by (simp add: s2_def upd_inode_eq G(6))
  then have y: "inodes s2 ! ip = ?y" using ip by simp
  have v: "bview s2 = bview s1" "sblk s2 = sblk s" "in_use s2 = in_use s1" "free_blocks s2 = free_blocks s1"
    "dirty_blocks s2 = dirty_blocks s1"
    using G(1) by (simp_all add: s2_def upd_inode_eq grows_def)
  have ok1: "fs_ok s1" using G(1) by (simp add: grows_def)
  then show "fs_ok s2" by (simp add: s2_def upd_inode_eq)
  show "i_addrs (inodes s2 ! ip) ! NDIRECT = a" using y len by simp
  show "a \<noteq> 0" using G(2) by (simp add: data_block_def)
  show c: "card (free_blocks s) = Suc (card (free_blocks s2))" using G(5) v by simp
  have b1: "blk_at s1 ?x = blk_at s ?x" by (rule blk_at_grows [OF G(1) ok(2)]) simp
  have o1: "inode_ok s1 ?x" by (rule inode_ok_grows [OF G(1) ok(2)]) simp
  have b2: "blk_at s2 ?y j = blk_at s ?x j" if "j < MAXFILE" for j
    using blk_at_new_ind [OF len ind G(4) that] b1 by (simp add: s2_def upd_inode_eq)
  have d2: "data_block s2 = data_block s1" by (simp add: s2_def upd_inode_eq)
  have fresh: "blk_at s ?x j \<noteq> a" if "j < MAXFILE" for j
    using ok(2) G(2,3) that unfolding inode_ok_def data_block_def by auto
  show "inode_ok s2 (inodes s2 ! ip)"
    unfolding inode_ok_def y using o1 G(2) fresh len b1 by (auto simp: b2 d2 inode_ok_def)
  have g: "grows {} s s2" using G(1) v ok1 by (auto simp: grows_def s2_def upd_inode_eq)
  assume i: "NDIRECT \<le> i" "i < MAXFILE" and m: "mapped ip i b s2 s'"
  note M = m [unfolded mapped_def]
  have c': "card (free_blocks s2) \<le> card (free_blocks s') + 1" using M y len \<open>a \<noteq> 0\<close> by simp
  have z: "blk_at s ?x i = 0" using ind i by (simp add: blk_at_def)
  then have "blk_at s2 (inodes s2 ! ip) i = 0" using b2 [OF i(2)] y by simp
  then have nu: "bview s' b = replicate BSIZE 0" "\<not> in_use s2 b" using M by simp_all
  have bs: "b < sb_size (sblk s)"
  proof -
    have "data_block s' b" "sblk s' = sblk s2" using M i(2) unfolding inode_ok_def grows_def by blast+
    then show ?thesis using v(2) by (simp add: data_block_def)
  qed
  have fr: "\<not> in_use s b" using nu(2) g bs unfolding grows_def by blast
  have "\<exists>as. inodes s' = (inodes s)[ip := ?x\<lparr>i_addrs := as\<rparr>]"
    using M ip unfolding ino by auto
  moreover have ia: "i_addrs (inodes s' ! ip) ! NDIRECT = a" using M y len \<open>a \<noteq> 0\<close> by auto
  moreover have "grows ({i_addrs ?x ! NDIRECT} - {0}) s s'"
  proof -
    have "{i_addrs (inodes s2 ! ip) ! NDIRECT} - {0} = {a}" using y len \<open>a \<noteq> 0\<close> by simp
    then have "grows {a} s s'" using grows_trans [OF g, of "{a}" s'] M by simp
    then show ?thesis using G(3) by (auto simp: grows_def)
  qed
  moreover have "dirty_blocks s' \<subseteq> dirty_blocks s \<union> {b, a} \<union> {BBLOCK m (sblk s) | m. m < sb_size (sblk s)}"
  proof -
    have "dirty_blocks s' \<subseteq> dirty_blocks s2 \<union> {b, a} \<union> {BBLOCK m (sblk s) | m. m < sb_size (sblk s)}"
      using M ia v(2) by simp
    moreover have "dirty_blocks s2 \<subseteq> {a} \<union> {BBLOCK m (sblk s) | m. m < sb_size (sblk s)} \<union> dirty_blocks s"
      using a v(5) by (auto simp: allocated_def)
    ultimately show ?thesis by blast
  qed
  moreover have "\<forall>j < MAXFILE. j \<noteq> i \<longrightarrow> blk_at s' (inodes s' ! ip) j = blk_at s (inodes s ! ip) j"
    using M b2 y by simp
  moreover have "fs_frame s s'"
  proof (rule fs_frame_trans)
    show "fs_frame s s2" using a by (simp add: s2_def allocated_def fs_frame_tx)
    show "fs_frame s2 s'" using M by blast
  qed
  ultimately show "mapped ip i b s s'"
    unfolding mapped_def using M z c c' fr nu ind G(3) by simp
qed

text \<open>Within a file's limits \<open>bmap\<close> returns the block, which it allocates when the file has none there.\<close>

lemma bmap_spec:
  assumes t: "tx me [] (5 + k) s" and ok: "fs_ok s" "inode_ok s (inodes s ! ip)" and ip: "ip < length (inodes s)" and i: "i < MAXFILE"
    and free: "blk_at s (inodes s ! ip) i = 0 \<Longrightarrow> 2 \<le> card (free_blocks s)"
  shows "ok_res (bmap me ip (of_nat i) s) (\<lambda>(a, s'). tx me [] k s' \<and> mapped ip i a s s')"
proof -
  let ?x = "inodes s ! ip"
  have dev: "i_dev ?x = 1" using ok(2) by (simp add: inode_ok_def)
  have u: "unat (of_nat i :: u32) = i" using i by (simp add: unat_of_nat take_bit_nat_eq_self)
  have j: "i - NDIRECT < NINDIRECT" using i by simp
  have t2: "tx me [] (Suc (Suc (3 + k))) s" using t by (simp add: eval_nat_numeral)
  have al: "ok_res (balloc me 1 s) (\<lambda>(n, s'). tx me [] (3 + k) s' \<and> allocated n s s')" if "blk_at s ?x i = 0"
    using free [OF that] ok(1) by (intro balloc_spec [OF t2]) (auto simp: fs_ok_def keeps_clear_def)
  consider (D) "i < NDIRECT" "i_addrs ?x ! i \<noteq> 0" | (D0) "i < NDIRECT" "i_addrs ?x ! i = 0"
    | (I) "NDIRECT \<le> i" "i_addrs ?x ! NDIRECT \<noteq> 0" | (I0) "NDIRECT \<le> i" "i_addrs ?x ! NDIRECT = 0"
    by linarith
  then show ?thesis
  proof cases
    case D
    then have "mapped ip i (i_addrs ?x ! i) s s" using ok by (intro mapped_same) (simp_all add: blk_at_def)
    then show ?thesis using D tx_less [OF t] by (simp add: bmap_def u)
  next
    case D0
    have z: "blk_at s ?x i = 0" using D0 by (simp add: blk_at_def)
    have "ok_res (bind_res (balloc me 1 s) (\<lambda>(addr, s1).
        Inr (addr, upd_inode ip (\<lambda>y. y\<lparr>i_addrs := (i_addrs y)[i := addr]\<rparr>) s1))) (\<lambda>(a, s'). tx me [] k s' \<and> mapped ip i a s s')"
      by (rule ok_res_seq [OF al [OF z]])
        (use bmap_direct [OF _ t ok ip D0] in \<open>auto simp: upd_inode_eq intro!: tx_less [of _ _ "3 + k"]\<close>)
    then show ?thesis using D0 by (simp add: bmap_def u dev Let_def)
  next
    case I
    have "2 \<le> card (free_blocks s) \<Longrightarrow> free_blocks s \<noteq> {}" by auto
    with bmap_ind [OF tx_less [OF t, of "3 + k"] ok refl I(2,1) i] free show ?thesis
      unfolding bmap_def Let_def u dev using I i j by simp
  next
    case I0
    have z: "blk_at s ?x i = 0" using I0 by (simp add: blk_at_def)
    have "ok_res (bind_res (bind_res (balloc me 1 s) (\<lambda>(addr, s1).
        Inr (addr, upd_inode ip (\<lambda>y. y\<lparr>i_addrs := (i_addrs y)[NDIRECT := addr]\<rparr>) s1))) (\<lambda>(ind, s1).
       bind_res (bread me 1 ind s1) (\<lambda>(bp, s2).
       let j = i - NDIRECT; addr = get32 (b_data (bufs s2 ! bp)) (4 * j)
       in if addr = 0
          then bind_res (balloc me 1 s2) (\<lambda>(a, s3).
               bind_res (log_write bp (upd_buf bp (\<lambda>b. b\<lparr>b_data := put32 (b_data b) (4 * j) a\<rparr>) s3)) (\<lambda>s4.
               bind_res (brelse me bp s4) (\<lambda>s5. Inr (a, s5))))
          else bind_res (brelse me bp s2) (\<lambda>s3. Inr (addr, s3)))))
       (\<lambda>(a, s'). tx me [] k s' \<and> mapped ip i a s s')"
    proof (rule ok_res_seq [where P = "\<lambda>(a, s2). \<exists>s1. tx me [] (3 + k) s1 \<and> allocated a s s1 \<and>
        s2 = upd_inode ip (\<lambda>y. y\<lparr>i_addrs := (i_addrs y)[NDIRECT := a]\<rparr>) s1"], rule ok_res_seq [OF al [OF z]], force, clarify)
      fix a s1
      assume 1: "tx me [] (3 + k) s1" "allocated a s s1"
      let ?s2 = "upd_inode ip (\<lambda>y. y\<lparr>i_addrs := (i_addrs y)[NDIRECT := a]\<rparr>) s1"
      note N = bmap_new_ind [OF 1(2) t ok ip I0(2)]
      have t1: "tx me [] (3 + k) ?s2" using 1(1) by (simp add: upd_inode_eq)
      have "free_blocks ?s2 \<noteq> {}" using N(5) free [OF z] by auto
      note B = bmap_ind [OF t1 N(1,2) N(3) [symmetric] N(4) I0(1) i this]
      show "ok_res (bind_res (bread me 1 a ?s2) (\<lambda>(bp, s2).
       let j = i - NDIRECT; addr = get32 (b_data (bufs s2 ! bp)) (4 * j)
       in if addr = 0
          then bind_res (balloc me 1 s2) (\<lambda>(a, s3).
               bind_res (log_write bp (upd_buf bp (\<lambda>b. b\<lparr>b_data := put32 (b_data b) (4 * j) a\<rparr>) s3)) (\<lambda>s4.
               bind_res (brelse me bp s4) (\<lambda>s5. Inr (a, s5))))
          else bind_res (brelse me bp s2) (\<lambda>s3. Inr (addr, s3))))
       (\<lambda>(a, s'). tx me [] k s' \<and> mapped ip i a s s')"
        by (rule ok_res_mono [OF B]) (auto intro: N(6) [OF I0(1) i])
    qed
    then show ?thesis unfolding bmap_def Let_def u dev using I0 i j by simp
  qed
qed

end
