(* ===== verification/Rw.thy ===== *)
theory Rw
  imports Fs Content
begin

text \<open>
  Reading and writing files.  \<open>content s ip\<close> is the file of inode \<open>ip\<close> as a list of bytes; \<open>readi\<close> returns a slice
  of it and \<open>writei\<close> replaces one, and the blocks of all other files stay as they are.
\<close>

section \<open>The content of a file\<close>

definition content :: "'a ikernel_scheme \<Rightarrow> nat \<Rightarrow> u8 list" where
  "content s ip = map (fbyte s (inodes s ! ip)) [0..<unat (i_size (inodes s ! ip))]"

text \<open>A regular file or directory in the cache: well-formed, and every byte below its size has a block.\<close>

definition file_ok :: "'a ikernel_scheme \<Rightarrow> nat \<Rightarrow> bool" where
  "file_ok s ip \<longleftrightarrow>
     (let x = inodes s ! ip
      in ip < length (inodes s) \<and> inode_ok s x \<and> i_inum x < sb_ninodes (sblk s) \<and> i_type x \<noteq> T_DEV \<and>
         unat (i_size x) \<le> MAXFILE * BSIZE \<and> (\<forall>j < unat (i_size x). blk_at s x (j div BSIZE) \<noteq> 0))"

lemma inode_okD:
  assumes "inode_ok s x" "i < MAXFILE" "blk_at s x i \<noteq> 0"
  shows "data_block s (blk_at s x i)" "blk_at s x i \<noteq> i_addrs x ! NDIRECT"
    "j < MAXFILE \<Longrightarrow> blk_at s x j = blk_at s x i \<Longrightarrow> j = i"
  using assms by (auto simp: inode_ok_def)

lemma bmap_present:
  assumes t: "tx me [] k s" and ok: "fs_ok s" "inode_ok s (inodes s ! ip)" and i: "i < MAXFILE"
    and a: "blk_at s (inodes s ! ip) i \<noteq> 0"
  shows "ok_res (bmap me ip (of_nat i) s) (\<lambda>(a, s'). a = blk_at s (inodes s ! ip) i \<and> tx me [] k s' \<and> bview s' = bview s \<and>
     dirty_blocks s' = dirty_blocks s \<and> tx_frame s s')"
proof (cases "i < NDIRECT")
  case True
  then show ?thesis using a t by (simp add: bmap_def blk_at_def unat_of_nat take_bit_nat_eq_self)
next
  case False
  let ?x = "inodes s ! ip" and ?ind = "i_addrs (inodes s ! ip) ! NDIRECT"
  have dev: "i_dev ?x = 1" using ok(2) by (simp add: inode_ok_def)
  have u: "unat (of_nat i :: u32) = i" "i - NDIRECT < NINDIRECT" using i by (simp_all add: unat_of_nat take_bit_nat_eq_self)
  have ind: "?ind \<noteq> 0" using a False by (auto simp: blk_at_def)
  then have "data_block s ?ind" using ok(2) by (simp add: inode_ok_def)
  then have n: "?ind \<notin> snd ` set []" "?ind < disksize s" using ok(1) by (auto simp: data_block_def fs_ok_def bitmap_ok_def)
  have run: "ok_res (bind_res (bread me 1 ?ind s) (\<lambda>(bp, s2).
      bind_res (brelse me bp s2) (\<lambda>s3. Inr (get32 (b_data (bufs s2 ! bp)) (4 * (i - NDIRECT)), s3))))
     (\<lambda>(a, s'). a = blk_at s ?x i \<and> tx me [] k s' \<and> bview s' = bview s \<and> dirty_blocks s' = dirty_blocks s \<and> tx_frame s s')"
  proof (rule ok_res_seq [OF tx_bread [OF t n]], simp, clarify)
    fix bp s2
    assume 2: "tx me [(bp, ?ind)] k s2" "bview s2 = bview s" "dirty_blocks s2 = dirty_blocks s" "tx_frame s s2"
    show "ok_res (bind_res (brelse me bp s2) (\<lambda>s3. Inr (get32 (b_data (bufs s2 ! bp)) (4 * (i - NDIRECT)), s3)))
      (\<lambda>(a, s'). a = blk_at s ?x i \<and> tx me [] k s' \<and> bview s' = bview s \<and> dirty_blocks s' = dirty_blocks s \<and> tx_frame s s')"
      by (rule ok_res_seq [OF tx_brelse [OF 2(1)]])
        (use 2 False ind tx_data [OF 2(1), of bp ?ind] in \<open>auto simp: blk_at_def intro: tx_frame_trans\<close>)
  qed
  have v: "get32 (b_data (bufs s2 ! bp)) (4 * (i - NDIRECT)) \<noteq> 0" if "bread me 1 ?ind s = Inr (bp, s2)" for bp s2
    using tx_bread [OF t n] that tx_data [of me "[(bp, ?ind)]" k s2 bp ?ind] a False ind by (simp add: blk_at_def)
  have "bmap me ip (of_nat i) s = bind_res (bread me 1 ?ind s) (\<lambda>(bp, s2).
      bind_res (brelse me bp s2) (\<lambda>s3. Inr (get32 (b_data (bufs s2 ! bp)) (4 * (i - NDIRECT)), s3)))"
    unfolding bmap_def Let_def u dev using False ind u v by (auto simp: bind_res_def split: sum.split)
  with run show ?thesis by simp
qed

section \<open>Reading\<close>

lemma within_block:
  fixes d :: nat
  assumes "off mod d + i < d"
  shows "(off + i) div d = off div d" "(off + i) mod d = off mod d + i"
proof -
  have e: "off + i = (off mod d + i) + off div d * d" by (metis add.assoc add.commute div_mult_mod_eq)
  show "(off + i) div d = off div d" by (subst e, subst div_mult_self1) (use assms in simp_all)
  show "(off + i) mod d = off mod d + i" by (subst e, subst mod_mult_self1) (use assms in simp)
qed

lemma slice_fbyte:
  assumes "length (bview s (blk_at s x (off div BSIZE))) = BSIZE" and "off mod BSIZE + m \<le> BSIZE"
  shows "slice (bview s (blk_at s x (off div BSIZE))) (off mod BSIZE) m = map (fbyte s x) [off..<off + m]"
proof (rule nth_equalityI)
  show "length (slice (bview s (blk_at s x (off div BSIZE))) (off mod BSIZE) m) = length (map (fbyte s x) [off..<off + m])"
    using assms by simp
  fix i
  assume "i < length (slice (bview s (blk_at s x (off div BSIZE))) (off mod BSIZE) m)"
  then have i: "i < m" by simp
  then have "off mod BSIZE + i < BSIZE" using assms(2) by simp
  note within_block [OF this]
  then show "slice (bview s (blk_at s x (off div BSIZE))) (off mod BSIZE) m ! i = map (fbyte s x) [off..<off + m] ! i"
    using i assms by (simp add: fbyte_def)
qed

lemma readi_loop_spec:
  assumes "tx me [] k s" "fs_ok s" "inode_ok s (inodes s ! ip)" "off + n \<le> MAXFILE * BSIZE"
    and "\<And>j. off \<le> j \<Longrightarrow> j < off + n \<Longrightarrow> blk_at s (inodes s ! ip) (j div BSIZE) \<noteq> 0"
  shows "ok_res (readi_loop me ip off n s) (\<lambda>(bs, s'). bs = map (fbyte s (inodes s ! ip)) [off..<off + n] \<and> tx me [] k s' \<and>
     bview s' = bview s \<and> dirty_blocks s' = dirty_blocks s \<and> tx_frame s s')"
  using assms
proof (induction n arbitrary: off s rule: less_induct)
  case (less n)
  show ?case
  proof (cases "n = 0")
    case True
    then show ?thesis using less.prems(1) by (subst readi_loop.simps) simp
  next
    case False
    let ?x = "inodes s ! ip" and ?i = "off div BSIZE"
    define m where "m = min n (BSIZE - off mod BSIZE)"
    have m: "0 < m" "m \<le> n" "off mod BSIZE + m \<le> BSIZE" using False by (simp_all add: m_def)
    have i: "?i < MAXFILE" using less.prems(4) False by (simp add: div_less_iff_less_mult)
    have a: "blk_at s ?x ?i \<noteq> 0" using less.prems(5) [of off] False by simp
    then have d: "data_block s (blk_at s ?x ?i)" using less.prems(3) i by (simp add: inode_ok_def)
    have dev: "i_dev ?x = 1" using less.prems(3) by (simp add: inode_ok_def)
    have len: "length (bview s (blk_at s ?x ?i)) = BSIZE" by (rule tx_bview_length [OF less.prems(1)])
    have split: "map (fbyte s ?x) [off..<off + n] = slice (bview s (blk_at s ?x ?i)) (off mod BSIZE) m @
        map (fbyte s ?x) [off + m..<off + m + (n - m)]"
      unfolding slice_fbyte [OF len m(3)] using m(2) upt_add_eq_append [of off "off + m" "n - m"] by simp
    have "ok_res (bind_res (bmap me ip (of_nat ?i) s) (\<lambda>(a, s1).
           bind_res (bread me 1 a s1) (\<lambda>(bp, s2).
           bind_res (brelse me bp s2) (\<lambda>s3.
           bind_res (readi_loop me ip (off + m) (n - m) s3) (\<lambda>(bs, s4).
           Inr (slice (b_data (bufs s2 ! bp)) (off mod BSIZE) m @ bs, s4))))))
       (\<lambda>(bs, s'). bs = map (fbyte s ?x) [off..<off + n] \<and> tx me [] k s' \<and> bview s' = bview s \<and>
          dirty_blocks s' = dirty_blocks s \<and> tx_frame s s')"
    proof (rule ok_res_seq [OF bmap_present [OF less.prems(1-3) i a]], clarify)
      fix s1
      assume 1: "tx me [] k s1" "bview s1 = bview s" "dirty_blocks s1 = dirty_blocks s" "tx_frame s s1"
      let ?a = "blk_at s ?x ?i"
      have n: "?a \<notin> snd ` set []" "?a < disksize s1"
        using d less.prems(2) tx_frameD(2) [OF 1(4)] by (auto simp: data_block_def fs_ok_def bitmap_ok_def)
      show "ok_res (bind_res (bread me 1 ?a s1) (\<lambda>(bp, s2).
           bind_res (brelse me bp s2) (\<lambda>s3.
           bind_res (readi_loop me ip (off + m) (n - m) s3) (\<lambda>(bs, s4).
           Inr (slice (b_data (bufs s2 ! bp)) (off mod BSIZE) m @ bs, s4)))))
       (\<lambda>(bs, s'). bs = map (fbyte s ?x) [off..<off + n] \<and> tx me [] k s' \<and> bview s' = bview s \<and>
          dirty_blocks s' = dirty_blocks s \<and> tx_frame s s')"
      proof (rule ok_res_seq [OF tx_bread [OF 1(1) n]], simp, clarify, rule ok_res_seq [OF tx_brelse], assumption, elim conjE)
        fix bp s2 s3
        assume 2: "tx me [(bp, ?a)] k s2" "bview s2 = bview s1" "dirty_blocks s2 = dirty_blocks s1" "tx_frame s1 s2"
        assume 3: "tx me [] k s3" "bview s3 = bview s2" "dirty_blocks s3 = dirty_blocks s2" "tx_frame s2 s3"
        have f: "tx_frame s s3" using 1(4) 2(4) 3(4) tx_frame_trans by blast
        have v: "bview s3 = bview s" "dirty_blocks s3 = dirty_blocks s" using 1 2 3 by simp_all
        note F = tx_frame_inode [OF f] tx_frameD(2) [OF f]
        have g: "grows {} s s3" by (rule grows_same [OF less.prems(2) v(1) F(2,4)])
        have x: "blk_at s3 ?x = blk_at s ?x" "inode_ok s3 ?x"
          by (rule blk_at_grows [OF g less.prems(3)] inode_ok_grows [OF g less.prems(3)], simp)+
        have fb: "fbyte s3 ?x = fbyte s ?x" by (simp add: fun_eq_iff fbyte_def x v)
        have rec: "ok_res (readi_loop me ip (off + m) (n - m) s3) (\<lambda>(bs, s'). bs = map (fbyte s3 (inodes s3 ! ip)) [off + m..<off + m + (n - m)] \<and>
            tx me [] k s' \<and> bview s' = bview s3 \<and> dirty_blocks s' = dirty_blocks s3 \<and> tx_frame s3 s')"
          using less.prems(4,5) m g False by (intro less.IH 3(1)) (auto simp: F x grows_def)
        have dd: "b_data (bufs s2 ! bp) = bview s ?a" using tx_data [OF 2(1), of bp] 1(2) 2(2) by simp
        show "ok_res (bind_res (readi_loop me ip (off + m) (n - m) s3) (\<lambda>(bs, s4).
             Inr (slice (b_data (bufs s2 ! bp)) (off mod BSIZE) m @ bs, s4)))
           (\<lambda>(bs, s'). bs = map (fbyte s ?x) [off..<off + n] \<and> tx me [] k s' \<and> bview s' = bview s \<and>
              dirty_blocks s' = dirty_blocks s \<and> tx_frame s s')"
          by (rule ok_res_seq [OF rec]) (auto simp: split dd F fb v intro: tx_frame_trans [OF f])
      qed
    qed
    then show ?thesis using False by (subst readi_loop.simps) (simp add: dev Let_def m_def)
  qed
qed

section \<open>Writing\<close>

definition file_blocks :: "'a ikernel_scheme \<Rightarrow> inode \<Rightarrow> u32 set" where
  "file_blocks s x = {n. n \<noteq> 0 \<and> (n = i_addrs x ! NDIRECT \<or> (\<exists>i < MAXFILE. blk_at s x i = n))}"

text \<open>
  The bytes \<open>bs\<close> are in the file from \<open>off\<close> on.  Blocks are only added to the file, fresh ones, and the blocks of
  other files are as before.
\<close>

definition file_wrote :: "nat \<Rightarrow> nat \<Rightarrow> u8 list \<Rightarrow> 'a ikernel_scheme \<Rightarrow> 'a ikernel_scheme \<Rightarrow> bool" where
  "file_wrote ip off bs s s' \<longleftrightarrow>
     (let x = inodes s ! ip; x' = inodes s' ! ip
      in (\<exists>as. inodes s' = (inodes s)[ip := x\<lparr>i_addrs := as\<rparr>]) \<and> inode_ok s' x' \<and>
         (\<forall>i < MAXFILE. blk_at s x i \<noteq> 0 \<longrightarrow> blk_at s' x' i = blk_at s x i) \<and>
         (\<forall>j. off \<le> j \<and> j < off + length bs \<longrightarrow> blk_at s' x' (j div BSIZE) \<noteq> 0 \<and> fbyte s' x' j = bs ! (j - off)) \<and>
         (\<forall>j < MAXFILE * BSIZE. blk_at s x (j div BSIZE) \<noteq> 0 \<longrightarrow> \<not> (off \<le> j \<and> j < off + length bs) \<longrightarrow>
            fbyte s' x' j = fbyte s x j) \<and>
         file_blocks s' x' \<subseteq> file_blocks s x \<union> {n. \<not> in_use s n} \<and> grows (file_blocks s x) s s' \<and> fs_frame s s' \<and>
         ((\<forall>j. off \<le> j \<and> j < off + length bs \<longrightarrow> blk_at s x (j div BSIZE) \<noteq> 0) \<longrightarrow> inodes s' = inodes s))"

lemma file_wrote_nil:
  assumes "inode_ok s (inodes s ! ip)" "fs_ok s"
  shows "file_wrote ip off [] s s"
proof -
  have "\<exists>as. inodes s = (inodes s)[ip := (inodes s ! ip)\<lparr>i_addrs := as\<rparr>]"
    by (rule exI [of _ "i_addrs (inodes s ! ip)"]) simp
  then show ?thesis using assms grows_same [of s s] by (auto simp: file_wrote_def Let_def)
qed

lemma grows_fresh: "grows X s s' \<Longrightarrow> X \<subseteq> Y \<union> {n. \<not> in_use s n} \<Longrightarrow> grows Y s s'"
  unfolding grows_def by blast

lemma file_wrote_append:
  assumes w1: "file_wrote ip off bs s s1" and w2: "file_wrote ip (off + length bs) cs s1 s2" and ip: "ip < length (inodes s)"
    and m: "off + length bs + length cs \<le> MAXFILE * BSIZE"
  shows "file_wrote ip off (bs @ cs) s s2"
proof -
  let ?x = "inodes s ! ip" and ?x1 = "inodes s1 ! ip" and ?x2 = "inodes s2 ! ip"
  note A = w1 [unfolded file_wrote_def Let_def] and B = w2 [unfolded file_wrote_def Let_def]
  have i: "j div BSIZE < MAXFILE" if "j < off + length bs + length cs" for j using that m by (simp add: div_less_iff_less_mult)
  have gr: "n < sb_size (sblk s) \<Longrightarrow> in_use s n \<Longrightarrow> in_use s1 n" for n using A unfolding grows_def by blast
  have sb: "sblk s1 = sblk s" using A by (simp add: grows_def)
  have small: "n < sb_size (sblk s)" if "n \<in> file_blocks s2 ?x2" for n
  proof -
    have "sblk s2 = sblk s" using B sb by (simp add: grows_def)
    moreover have "data_block s2 n" using B that by (auto simp: inode_ok_def file_blocks_def)
    ultimately show ?thesis by (simp add: data_block_def)
  qed
  have "\<exists>as. inodes s2 = (inodes s)[ip := ?x\<lparr>i_addrs := as\<rparr>]" using A B ip by auto
  moreover have "\<forall>i < MAXFILE. blk_at s ?x i \<noteq> 0 \<longrightarrow> blk_at s2 ?x2 i = blk_at s ?x i" using A B by simp
  moreover have "blk_at s2 ?x2 (j div BSIZE) \<noteq> 0 \<and> fbyte s2 ?x2 j = (bs @ cs) ! (j - off)"
    if j: "off \<le> j" "j < off + length (bs @ cs)" for j
  proof (cases "j < off + length bs")
    case True
    have "blk_at s1 ?x1 (j div BSIZE) \<noteq> 0" "fbyte s1 ?x1 j = bs ! (j - off)" using A True j(1) by blast+
    moreover have "j < MAXFILE * BSIZE" "j div BSIZE < MAXFILE" using j(2) m i [of j] by simp_all
    moreover have "\<not> (off + length bs \<le> j \<and> j < off + length bs + length cs)" "j - off < length bs" using True j(1) by auto
    ultimately show ?thesis using B by (simp add: nth_append)
  next
    case False
    then have "off + length bs \<le> j \<and> j < off + length bs + length cs" using j by simp
    moreover have "(bs @ cs) ! (j - off) = cs ! (j - (off + length bs))" using False j(1) by (simp add: nth_append_right)
    ultimately show ?thesis using B by simp
  qed
  moreover have "fbyte s2 ?x2 j = fbyte s ?x j"
    if "j < MAXFILE * BSIZE" "blk_at s ?x (j div BSIZE) \<noteq> 0" "\<not> (off \<le> j \<and> j < off + length (bs @ cs))" for j
  proof -
    have "j div BSIZE < MAXFILE" using that(1) by (simp add: div_less_iff_less_mult)
    then have "blk_at s1 ?x1 (j div BSIZE) \<noteq> 0" using A that(2) by simp
    moreover have "\<not> (off + length bs \<le> j \<and> j < off + length bs + length cs)" "\<not> (off \<le> j \<and> j < off + length bs)"
      using that(3) by auto
    ultimately show ?thesis using A B that by simp
  qed
  moreover have "file_blocks s2 ?x2 \<subseteq> file_blocks s ?x \<union> {n. \<not> in_use s n}"
  proof
    fix n
    assume n: "n \<in> file_blocks s2 ?x2"
    then have "n \<in> file_blocks s1 ?x1 \<or> \<not> in_use s1 n" using B by blast
    then show "n \<in> file_blocks s ?x \<union> {n. \<not> in_use s n}" using A gr [OF small [OF n]] by blast
  qed
  moreover have "grows (file_blocks s ?x) s s2"
  proof -
    have "grows (file_blocks s ?x \<union> file_blocks s1 ?x1) s s2"
      by (rule grows_trans [of _ _ s1]) (use A B in simp_all)
    then show ?thesis by (rule grows_fresh) (use A in blast)
  qed
  moreover have "fs_frame s s2" by (rule fs_frame_trans [of _ s1]) (use A B in simp_all)
  moreover have "inodes s2 = inodes s" if all: "\<And>j. off \<le> j \<Longrightarrow> j < off + length (bs @ cs) \<Longrightarrow> blk_at s ?x (j div BSIZE) \<noteq> 0"
  proof -
    have "\<forall>j. off \<le> j \<and> j < off + length bs \<longrightarrow> blk_at s ?x (j div BSIZE) \<noteq> 0" using all by simp
    moreover have "\<forall>j. off + length bs \<le> j \<and> j < off + length bs + length cs \<longrightarrow> blk_at s1 ?x1 (j div BSIZE) \<noteq> 0"
    proof (intro allI impI)
      fix j
      assume j: "off + length bs \<le> j \<and> j < off + length bs + length cs"
      then have "blk_at s ?x (j div BSIZE) \<noteq> 0" "j div BSIZE < MAXFILE" using all [of j] i [of j] by simp_all
      then show "blk_at s1 ?x1 (j div BSIZE) \<noteq> 0" using A by auto
    qed
    ultimately show ?thesis using A B by simp
  qed
  ultimately show ?thesis unfolding file_wrote_def Let_def using B by blast
qed

lemma file_wrote_block:
  assumes m: "mapped ip i a s s1" and ip: "ip < length (inodes s)" and ok: "fs_ok s" and io: "inode_ok s (inodes s ! ip)"
    and i: "i = off div BSIZE" "i < MAXFILE" and bs: "off mod BSIZE + length bs \<le> BSIZE" "bs \<noteq> []"
    and len: "length (bview s1 a) = BSIZE"
    and s2: "bview s2 = (bview s1)(a := splice (bview s1 a) (off mod BSIZE) bs)" "tx_frame s1 s2"
  shows "file_wrote ip off bs s s2" "free_blocks s2 = free_blocks s1"
proof -
  let ?x = "inodes s ! ip" and ?x1 = "inodes s1 ! ip"
  note M = m [unfolded mapped_def] and F = tx_frame_inode [OF s2(2)] tx_frameD(2) [OF s2(2)]
  have a: "a \<noteq> 0" "blk_at s1 ?x1 i = a" and io1: "inode_ok s1 ?x1" and ok1: "fs_ok s1" using M by (simp_all add: grows_def)
  have d: "data_block s1 a" "a \<noteq> i_addrs ?x1 ! NDIRECT" using inode_okD(1,2) [OF io1 i(2)] a by auto
  note W = data_write [OF d(1) ok1 s2(1) F(2,4)]
  then show "free_blocks s2 = free_blocks s1" by simp
  have b: "blk_at s2 ?x1 = blk_at s1 ?x1" "inode_ok s2 ?x1"
    by (rule blk_at_grows [OF W(1) io1] inode_ok_grows [OF W(1) io1], use d(2) in simp)+
  have inj: "blk_at s1 ?x1 j = a \<Longrightarrow> j < MAXFILE \<Longrightarrow> j = i" for j using inode_okD(3) [OF io1 i(2)] a by auto
  have old: "blk_at s1 ?x1 j = blk_at s ?x j" if "blk_at s ?x j \<noteq> 0" "j < MAXFILE" for j using M that by (cases "j = i") auto
  have fb: "fbyte s2 ?x1 j = (if j div BSIZE = i then splice (bview s1 a) (off mod BSIZE) bs ! (j mod BSIZE) else fbyte s1 ?x1 j)"
    if "j div BSIZE < MAXFILE" for j
  proof (cases "j div BSIZE = i")
    case False
    then have "blk_at s1 ?x1 (j div BSIZE) \<noteq> a" using inj [OF _ that] by blast
    then show ?thesis using False by (simp add: fbyte_def b s2(1))
  qed (use a(2) in \<open>simp add: fbyte_def b s2(1)\<close>)
  have sp: "splice (bview s1 a) (off mod BSIZE) bs ! (j mod BSIZE) =
      (if off mod BSIZE \<le> j mod BSIZE \<and> j mod BSIZE < off mod BSIZE + length bs then bs ! (j mod BSIZE - off mod BSIZE)
       else bview s1 a ! (j mod BSIZE))" for j
    by (rule nth_splice) (use bs(1) len in simp_all)
  have new: "blk_at s2 ?x1 (j div BSIZE) \<noteq> 0 \<and> fbyte s2 ?x1 j = bs ! (j - off)" if j: "off \<le> j" "j < off + length bs" for j
  proof -
    obtain q where q: "j = off + q" "q < length bs" using j by (auto simp: le_iff_add)
    have "off mod BSIZE + q < BSIZE" using q(2) bs(1) by simp
    note Q = within_block [OF this]
    have "j div BSIZE = i" using Q(1) q(1) i(1) by simp
    moreover have "splice (bview s1 a) (off mod BSIZE) bs ! (j mod BSIZE) = bs ! (j - off)"
      using sp [of j] q(2) unfolding q(1) Q(2) by simp
    ultimately show ?thesis using fb [of j] i(2) a by (simp add: b)
  qed
  have keep: "fbyte s2 ?x1 j = fbyte s ?x j"
    if j: "j < MAXFILE * BSIZE" "blk_at s ?x (j div BSIZE) \<noteq> 0" "\<not> (off \<le> j \<and> j < off + length bs)" for j
  proof -
    have jm: "j div BSIZE < MAXFILE" using j(1) by (simp add: div_less_iff_less_mult)
    have o: "blk_at s1 ?x1 (j div BSIZE) = blk_at s ?x (j div BSIZE)" by (rule old [OF j(2) jm])
    have db: "data_block s (blk_at s ?x (j div BSIZE))" "blk_at s ?x (j div BSIZE) \<noteq> i_addrs ?x ! NDIRECT"
      by (rule inode_okD [OF io jm j(2)])+
    have "bview s1 (blk_at s ?x (j div BSIZE)) = bview s (blk_at s ?x (j div BSIZE))"
      using data_block_grows(2) [OF _ db(1)] M db(2) by blast
    then have f1: "fbyte s1 ?x1 j = fbyte s ?x j" by (simp add: fbyte_def o)
    show ?thesis
    proof (cases "j div BSIZE = i")
      case True
      have "j = i * BSIZE + j mod BSIZE" "off = i * BSIZE + off mod BSIZE" using True i(1) by (metis div_mult_mod_eq)+
      then have "\<not> (off mod BSIZE \<le> j mod BSIZE \<and> j mod BSIZE < off mod BSIZE + length bs)" using j(3) by linarith
      then have "splice (bview s1 a) (off mod BSIZE) bs ! (j mod BSIZE) = bview s1 a ! (j mod BSIZE)"
        unfolding sp by (rule if_not_P)
      then show ?thesis using fb [OF jm] True f1 a(2) by (simp add: fbyte_def)
    qed (use fb [OF jm] f1 in simp)
  qed
  have blocks: "file_blocks s2 ?x1 \<subseteq> file_blocks s ?x \<union> {n. \<not> in_use s n}"
  proof
    fix n
    assume "n \<in> file_blocks s2 ?x1"
    then consider "n = i_addrs ?x1 ! NDIRECT" "n \<noteq> 0" | j where "j < MAXFILE" "n = blk_at s1 ?x1 j" "n \<noteq> 0"
      by (auto simp: file_blocks_def b)
    then show "n \<in> file_blocks s ?x \<union> {n. \<not> in_use s n}"
    proof cases
      case 1
      then show ?thesis using M by (auto simp: file_blocks_def)
    next
      case (2 j)
      then show ?thesis using M a(2) by (cases "j = i"; cases "blk_at s ?x j = 0") (auto simp: file_blocks_def)
    qed
  qed
  have g: "grows (file_blocks s ?x) s s2"
  proof (rule grows_fresh)
    show "grows (({i_addrs ?x ! NDIRECT} - {0}) \<union> {a}) s s2" by (rule grows_trans [OF _ W(1)]) (use M in simp)
    show "({i_addrs ?x ! NDIRECT} - {0}) \<union> {a} \<subseteq> file_blocks s ?x \<union> {n. \<not> in_use s n}"
      using M a i(2) by (cases "blk_at s ?x i = 0") (auto simp: file_blocks_def)
  qed
  have "inodes s1 = inodes s" if "\<forall>j. off \<le> j \<and> j < off + length bs \<longrightarrow> blk_at s ?x (j div BSIZE) \<noteq> 0"
    using M that [rule_format, of off] bs(2) i(1) by simp
  moreover have fr: "fs_frame s s2" by (rule fs_frame_trans [OF _ fs_frame_tx [OF s2(2)]]) (use M in simp)
  ultimately show "file_wrote ip off bs s s2"
    unfolding file_wrote_def Let_def F(1)
    using M b(2) old new keep blocks g fr b(1) by auto
qed

lemma load_src_ok:
  "(\<And>j. i \<le> j \<Longrightarrow> j < i + k \<Longrightarrow> src j = Inr (f j)) \<Longrightarrow> load_src src i k = Inr (map f [i..<i + k])"
proof (induction k arbitrary: i)
  case (Suc k)
  have "[i..<i + Suc k] = i # [Suc i..<Suc i + k]" by (simp add: upt_conv_Cons)
  then show ?case using Suc.IH [of "Suc i"] Suc.prems by simp
qed simp

text \<open>One round of the loop: the part of the write that falls into one block.\<close>

lemma writei_round:
  assumes t: "tx me [] (6 + k) s" and ok: "fs_ok s" "inode_ok s (inodes s ! ip)" and ip: "ip < length (inodes s)"
    and i: "off div BSIZE < MAXFILE" and free: "2 \<le> card (free_blocks s)" and bs: "off mod BSIZE + length bs \<le> BSIZE" "bs \<noteq> []"
  shows "ok_res (bind_res (bmap me ip (of_nat (off div BSIZE)) s) (\<lambda>(a, s1). bind_res (bread me 1 a s1) (\<lambda>(bp, s2).
       bind_res (log_write bp (upd_buf bp (\<lambda>b. b\<lparr>b_data := splice (b_data b) (off mod BSIZE) bs\<rparr>) s2)) (\<lambda>s3.
       brelse me bp s3))))
     (\<lambda>s'. tx me [] k s' \<and> file_wrote ip off bs s s' \<and> card (free_blocks s) \<le> card (free_blocks s') + 2)"
proof -
  have t6: "tx me [] (5 + Suc k) s" using t by (simp add: eval_nat_numeral)
  show ?thesis
  proof (rule ok_res_seq [OF bmap_spec [OF t6 ok ip i free]], clarify)
    fix a s1
    assume 1: "tx me [] (Suc k) s1" and m: "mapped ip (off div BSIZE) a s s1"
    note M = m [unfolded mapped_def]
    have "data_block s1 a" "fs_ok s1"
      using M inode_okD(1) [of s1 "inodes s1 ! ip" "off div BSIZE"] i by (auto simp: grows_def)
    then have n: "a \<notin> snd ` set []" "a < disksize s1" by (auto simp: data_block_def fs_ok_def bitmap_ok_def)
    show "ok_res (bind_res (bread me 1 a s1) (\<lambda>(bp, s2).
       bind_res (log_write bp (upd_buf bp (\<lambda>b. b\<lparr>b_data := splice (b_data b) (off mod BSIZE) bs\<rparr>) s2)) (\<lambda>s3.
       brelse me bp s3)))
     (\<lambda>s'. tx me [] k s' \<and> file_wrote ip off bs s s' \<and> card (free_blocks s) \<le> card (free_blocks s') + 2)"
    proof (rule ok_res_seq [OF tx_bread [OF 1 n]], simp, clarify)
      fix bp s2
      assume 2: "tx me [(bp, a)] (Suc k) s2" "bview s2 = bview s1" "dirty_blocks s2 = dirty_blocks s1" "tx_frame s1 s2"
      have dd: "b_data (bufs s2 ! bp) = bview s1 a" using tx_data [OF 2(1), of bp] 2(2) by simp
      have len: "length (bview s1 a) = BSIZE" by (rule tx_bview_length [OF 1])
      have l: "length (splice (b_data (bufs s2 ! bp)) (off mod BSIZE) bs) = BSIZE" using dd len bs(1) by simp
      have post: "file_wrote ip off bs s s' \<and> card (free_blocks s) \<le> card (free_blocks s') + 2"
        if "bview s' = (bview s1)(a := splice (bview s1 a) (off mod BSIZE) bs)" "tx_frame s1 s'" for s'
      proof -
        note W = file_wrote_block [OF m ip ok refl i bs len that]
        then show ?thesis using M by (auto split: if_splits)
      qed
      show "ok_res (bind_res (log_write bp (upd_buf bp (\<lambda>b. b\<lparr>b_data := splice (b_data b) (off mod BSIZE) bs\<rparr>) s2)) (\<lambda>s3.
           brelse me bp s3))
         (\<lambda>s'. tx me [] k s' \<and> file_wrote ip off bs s s' \<and> card (free_blocks s) \<le> card (free_blocks s') + 2)"
      proof (rule ok_res_seq [OF tx_log_write [OF 2(1), where d = "\<lambda>b. splice (b_data b) (off mod BSIZE) bs", OF l]],
          elim conjE, rule ok_res_mono [OF tx_brelse], assumption, elim conjE, intro conjI post [THEN conjunct1] post [THEN conjunct2])
        fix s3 s4
        assume "tx_frame s2 s3" "tx_frame s3 s4"
        then show "tx_frame s1 s4" "tx_frame s1 s4" using 2(4) tx_frame_trans by blast+
      qed (use 2(2) dd in simp_all)
    qed
  qed
qed

lemma bind_res_assoc: "bind_res (bind_res r f) g = bind_res r (\<lambda>x. bind_res (f x) g)"
  by (cases r) simp_all

lemma writei_loop_spec:
  assumes "tx me [] (6 * q + k) s" "fs_ok s" "inode_ok s (inodes s ! ip)" "ip < length (inodes s)"
    and "off + n \<le> MAXFILE * BSIZE" "n = 0 \<or> off mod BSIZE + n \<le> q * BSIZE" "2 * q \<le> card (free_blocks s)"
    and "\<And>j. i \<le> j \<Longrightarrow> j < i + n \<Longrightarrow> src j = Inr (f j)"
  shows "ok_res (writei_loop me ip src i off n s) (\<lambda>s'. tx me [] k s' \<and> file_wrote ip off (map f [i..<i + n]) s s')"
  using assms
proof (induction n arbitrary: q off i s rule: less_induct)
  case (less n)
  show ?case
  proof (cases "n = 0")
    case True
    then show ?thesis using less.prems(1-3) by (subst writei_loop.simps) (simp add: file_wrote_nil tx_less [of _ _ "6 * q + k"])
  next
    case False
    let ?x = "inodes s ! ip"
    define m where "m = min n (BSIZE - off mod BSIZE)"
    have m: "0 < m" "m \<le> n" "off mod BSIZE + m \<le> BSIZE" using False by (simp_all add: m_def)
    obtain p where q: "q = Suc p" using less.prems(6) False by (cases q) simp_all
    have t: "tx me [] (6 + (6 * p + k)) s" using less.prems(1) by (simp add: q add.assoc)
    have i: "off div BSIZE < MAXFILE" using less.prems(5) False by (simp add: div_less_iff_less_mult)
    have bs: "off mod BSIZE + length (map f [i..<i + m]) \<le> BSIZE" "map f [i..<i + m] \<noteq> []" using m(1,3) by simp_all
    have ld: "load_src src i m = Inr (map f [i..<i + m])" using less.prems(8) m(2) by (intro load_src_ok) simp
    have dev: "i_dev ?x = 1" using less.prems(3) by (simp add: inode_ok_def)
    have more: "off mod BSIZE + m = BSIZE" "(off + m) mod BSIZE = 0" if "n - m \<noteq> 0"
    proof -
      show e: "off mod BSIZE + m = BSIZE" using that by (auto simp: m_def min_def split: if_splits)
      have "(off + m) mod BSIZE = (off mod BSIZE + m) mod BSIZE" by (simp add: mod_simps)
      then show "(off + m) mod BSIZE = 0" unfolding e by simp
    qed
    have "ok_res (bind_res (bind_res (bmap me ip (of_nat (off div BSIZE)) s) (\<lambda>(a, s1). bind_res (bread me 1 a s1) (\<lambda>(bp, s2).
         bind_res (log_write bp (upd_buf bp (\<lambda>b. b\<lparr>b_data := splice (b_data b) (off mod BSIZE) (map f [i..<i + m])\<rparr>) s2)) (\<lambda>s3.
         brelse me bp s3)))) (writei_loop me ip src (i + m) (off + m) (n - m)))
       (\<lambda>s'. tx me [] k s' \<and> file_wrote ip off (map f [i..<i + n]) s s')"
    proof (rule ok_res_seq [OF writei_round [OF t less.prems(2-4) i _ bs]])
      show "2 \<le> card (free_blocks s)" using less.prems(7) q by simp
      fix s1
      assume 1: "tx me [] (6 * p + k) s1 \<and> file_wrote ip off (map f [i..<i + m]) s s1 \<and> card (free_blocks s) \<le> card (free_blocks s1) + 2"
      note W = 1 [THEN conjunct2, THEN conjunct1, unfolded file_wrote_def Let_def]
      have rec: "ok_res (writei_loop me ip src (i + m) (off + m) (n - m) s1)
          (\<lambda>s'. tx me [] k s' \<and> file_wrote ip (off + m) (map f [i + m..<i + m + (n - m)]) s1 s')"
      proof (rule less.IH [where q = p])
        show "n - m < n" using m False by simp
        show "n - m = 0 \<or> (off + m) mod BSIZE + (n - m) \<le> p * BSIZE"
        proof (cases "n - m = 0")
          case no: False
          then show ?thesis using more [OF no] less.prems(6) m(2) False unfolding q by simp
        qed simp
        show "fs_ok s1" "ip < length (inodes s1)" using W less.prems(4) by (auto simp: grows_def)
      qed (use 1 W less.prems m q in auto)
      have sp: "map f [i..<i + n] = map f [i..<i + m] @ map f [i + m..<i + m + (n - m)]"
        using m(2) upt_add_eq_append [of i "i + m" "n - m"] by simp
      show "ok_res (writei_loop me ip src (i + m) (off + m) (n - m) s1) (\<lambda>s'. tx me [] k s' \<and> file_wrote ip off (map f [i..<i + n]) s s')"
        unfolding sp
        by (rule ok_res_mono [OF rec], elim conjE, intro conjI file_wrote_append [OF 1 [THEN conjunct2, THEN conjunct1] _ less.prems(4)])
          (use less.prems(5) m(2) in simp_all)
    qed
    then show ?thesis using False
      by (subst writei_loop.simps) (simp add: dev Let_def ld bind_res_assoc case_prod_unfold flip: m_def)
  qed
qed

end
