(* ===== verification/Refs.thy ===== *)
theory Refs
  imports ProcLife Rw
begin

text \<open>
  What the file system leaves alone: the file table, the descriptors of the processes and, of the cached inodes, their
  identity and reference count.  \<open>on_ret r Q\<close> says that \<open>Q\<close> holds of the result when the run \<open>r\<close> returns; the rules
  below carry a frame through a run step by step.
\<close>

named_theorems frames

section \<open>Partial correctness of runs\<close>

definition on_ret :: "'a res \<Rightarrow> ('a \<Rightarrow> bool) \<Rightarrow> bool" where
  "on_ret r Q \<longleftrightarrow> (\<forall>x. r = Inr x \<longrightarrow> Q x)"

lemma on_ret_simps [simp]: "on_ret (Inr x) Q = Q x" "on_ret (Inl e) Q"
  by (simp_all add: on_ret_def)

lemma on_retI: "(\<And>x. r = Inr x \<Longrightarrow> Q x) \<Longrightarrow> on_ret r Q"
  by (simp add: on_ret_def)

lemma on_retD: "on_ret r Q \<Longrightarrow> r = Inr x \<Longrightarrow> Q x"
  by (simp add: on_ret_def)

lemma on_ret_mono: "on_ret r P \<Longrightarrow> (\<And>x. P x \<Longrightarrow> Q x) \<Longrightarrow> on_ret r Q"
  by (simp add: on_ret_def)

lemma on_ret_bind: "on_ret r P \<Longrightarrow> (\<And>x. P x \<Longrightarrow> on_ret (f x) Q) \<Longrightarrow> on_ret (bind_res r f) Q"
  by (cases r) (simp_all add: on_ret_def)

lemma on_ret_guard: "(\<not> b \<Longrightarrow> on_ret r Q) \<Longrightarrow> on_ret (guard_res b msg r) Q"
  by (simp add: guard_res_def)

section \<open>The frame\<close>

definition inode_id :: "inode \<Rightarrow> u32 \<times> u32 \<times> int" where
  "inode_id x = (i_dev x, i_inum x, i_ref x)"

definition proc_files :: "proc \<Rightarrow> bool \<times> nat option list" where
  "proc_files p = (p_state p \<in> {UNUSED, ZOMBIE}, p_ofile p)"

definition ikeep :: "'a ikernel_scheme \<Rightarrow> 'a ikernel_scheme \<Rightarrow> bool" where
  "ikeep s s' \<longleftrightarrow> ikernel.more s' = ikernel.more s \<and> map proc_files (ptable s') = map proc_files (ptable s) \<and>
     map inode_id (inodes s') = map inode_id (inodes s)"

lemma ikeep_refl [simp, frames]: "ikeep s s"
  by (simp add: ikeep_def)

lemma ikeep_trans: "ikeep s1 s2 \<Longrightarrow> ikeep s2 s3 \<Longrightarrow> ikeep s1 s3"
  by (simp add: ikeep_def)

lemma woken_files: "woken ps qs \<Longrightarrow> map proc_files qs = map proc_files ps"
  unfolding woken_def by (induction ps qs rule: list_all2_induct) (auto simp: proc_files_def)

lemma dk_frame_keep: "dk_frame s s' \<Longrightarrow> ikeep s s'"
proof -
  assume "dk_frame s s'"
  then have e: "s' = s\<lparr>ptable := ptable s', disk := disk s', dwrites := dwrites s', bufs := bufs s',
      bc_next := bc_next s', bc_prev := bc_prev s'\<rparr>" and w: "woken (ptable s) (ptable s')"
    by (simp_all add: dk_frame_def)
  have "ikernel.more s' = ikernel.more s" "inodes s' = inodes s" by (subst e; simp)+
  then show ?thesis using woken_files [OF w] by (simp add: ikeep_def)
qed

lemma dk_frame_wakeup: "dk_frame s (wakeup c s)"
  by (simp add: dk_frame_def) (simp add: wakeup_def wakeup1_def)

lemma ikeep_upd [simp, frames]: "ikeep s s1 \<Longrightarrow> ikeep s (upd_log f s1)" "ikeep s s1 \<Longrightarrow> ikeep s (upd_buf b g s1)"
  by (auto simp: ikeep_def upd_log_def upd_buf_def)

lemma ikeep_wakeup [simp, frames]: "ikeep s s1 \<Longrightarrow> ikeep s (wakeup c s1)"
  by (erule ikeep_trans) (rule dk_frame_keep [OF dk_frame_wakeup])

lemma ikeep_upd_inode [simp, frames]: "ikeep s s1 \<Longrightarrow> (\<And>x. inode_id (f x) = inode_id x) \<Longrightarrow> ikeep s (upd_inode ip f s1)"
proof -
  assume a: "ikeep s s1" "\<And>x. inode_id (f x) = inode_id x"
  have "map inode_id ((inodes s1)[ip := f (inodes s1 ! ip)]) = map inode_id (inodes s1)"
    by (rule nth_equalityI) (simp_all add: nth_list_update a(2), metis a(2) nth_list_update_eq nth_list_update_neq)
  then show ?thesis using a(1) by (simp add: ikeep_def upd_inode_def)
qed

text \<open>A run keeps the frame \<open>R\<close> from \<open>s\<close> on; the second form is for runs that also return a value.\<close>

definition keeps :: "('s \<Rightarrow> 's \<Rightarrow> bool) \<Rightarrow> 's \<Rightarrow> 's res \<Rightarrow> bool" where
  "keeps R s r \<longleftrightarrow> on_ret r (R s)"

definition keepsp :: "('s \<Rightarrow> 's \<Rightarrow> bool) \<Rightarrow> 's \<Rightarrow> ('b \<times> 's) res \<Rightarrow> bool" where
  "keepsp R s r \<longleftrightarrow> on_ret r (\<lambda>(x, s'). R s s')"

lemma keeps_bind [frames]:
  "keeps R s r \<Longrightarrow> (\<And>s1. R s s1 \<Longrightarrow> keeps R s (f s1)) \<Longrightarrow> keeps R s (bind_res r f)"
  "keepsp R s p \<Longrightarrow> (\<And>x s1. R s s1 \<Longrightarrow> keeps R s (g (x, s1))) \<Longrightarrow> keeps R s (bind_res p g)"
  "keeps R s r \<Longrightarrow> (\<And>s1. R s s1 \<Longrightarrow> keepsp R s (h s1)) \<Longrightarrow> keepsp R s (bind_res r h)"
  "keepsp R s p \<Longrightarrow> (\<And>x s1. R s s1 \<Longrightarrow> keepsp R s (k (x, s1))) \<Longrightarrow> keepsp R s (bind_res p k)"
  unfolding keeps_def keepsp_def by (erule on_ret_bind, auto)+

lemma keeps_ret [simp, frames]: "R s s1 \<Longrightarrow> keeps R s (Inr s1)" "R s s1 \<Longrightarrow> keepsp R s (Inr (x, s1))"
  "keeps R s (Inl e)" "keepsp R s (Inl e)"
  by (simp_all add: keeps_def keepsp_def)

lemma keeps_prod [frames]: "keeps R s (f x y) \<Longrightarrow> keeps R s (case (x, y) of (a, b) \<Rightarrow> f a b)"
  "keepsp R s (g x y) \<Longrightarrow> keepsp R s (case (x, y) of (a, b) \<Rightarrow> g a b)"
  by simp_all

lemma keeps_if [frames]:
  "(b \<Longrightarrow> keeps R s r) \<Longrightarrow> (\<not> b \<Longrightarrow> keeps R s t) \<Longrightarrow> keeps R s (if b then r else t)"
  "(b \<Longrightarrow> keepsp R s p) \<Longrightarrow> (\<not> b \<Longrightarrow> keepsp R s q) \<Longrightarrow> keepsp R s (if b then p else q)"
  "(\<not> b \<Longrightarrow> keeps R s r) \<Longrightarrow> keeps R s (guard_res b msg r)" "(\<not> b \<Longrightarrow> keepsp R s p) \<Longrightarrow> keepsp R s (guard_res b msg p)"
  by (simp_all add: guard_res_def)

lemma keeps_case [frames]:
  "(v = None \<Longrightarrow> keeps R s r) \<Longrightarrow> (\<And>x. v = Some x \<Longrightarrow> keeps R s (f x)) \<Longrightarrow> keeps R s (case v of None \<Rightarrow> r | Some x \<Rightarrow> f x)"
  "(v = None \<Longrightarrow> keepsp R s p) \<Longrightarrow> (\<And>x. v = Some x \<Longrightarrow> keepsp R s (g x)) \<Longrightarrow> keepsp R s (case v of None \<Rightarrow> p | Some x \<Rightarrow> g x)"
  by (simp_all split: option.split)

lemma keepsD: "keeps R s r \<Longrightarrow> r = Inr s' \<Longrightarrow> R s s'" "keepsp R s p \<Longrightarrow> p = Inr (x, s') \<Longrightarrow> R s s'"
  by (auto simp: keeps_def keepsp_def dest: on_retD)

lemma keepsI:
  "ikeep s s0 \<Longrightarrow> (\<And>s1. r = Inr s1 \<Longrightarrow> dk_frame s0 s1) \<Longrightarrow> keeps ikeep s r"
  "ikeep s s0 \<Longrightarrow> (\<And>x s1. p = Inr (x, s1) \<Longrightarrow> dk_frame s0 s1) \<Longrightarrow> keepsp ikeep s p"
  unfolding keeps_def keepsp_def using ikeep_trans [OF _ dk_frame_keep] by (blast intro: on_retI)+

section \<open>Blocks and the log\<close>

lemma block_keeps [frames]:
  "ikeep s s0 \<Longrightarrow> keepsp ikeep s (bread me dev n s0)" "ikeep s s0 \<Longrightarrow> keeps ikeep s (brelse me b s0)" "ikeep s s0 \<Longrightarrow> keeps ikeep s (bwrite me b s0)"
  by (rule keepsI, assumption, erule bread_frame brelse_frame bwrite_frame)+

lemma log_write_keeps [frames]: "ikeep s s0 \<Longrightarrow> keeps ikeep s (log_write b s0)"
  unfolding log_write_def Let_def by (intro frames)

lemma begin_op_keeps [frames]: "ikeep s s0 \<Longrightarrow> keeps ikeep s (begin_op s0)"
  unfolding begin_op_def by (intro frames)

lemma install_keeps: "ikeep s s0 \<Longrightarrow> keeps ikeep s (install_from me ks s0)"
proof (induction ks arbitrary: s0)
  case (Cons k ks)
  have "ikeep s s0 \<Longrightarrow> keeps ikeep s (install_block me k s0)" for s0
    unfolding install_block_def by (intro frames)
  then show ?case using Cons by (auto intro!: keeps_bind)
qed simp

lemma write_log_keeps: "ikeep s s0 \<Longrightarrow> keeps ikeep s (write_log_from me ks s0)"
proof (induction ks arbitrary: s0)
  case (Cons k ks)
  have "ikeep s s0 \<Longrightarrow> keeps ikeep s (write_log_block me k s0)" for s0
    unfolding write_log_block_def by (intro frames)
  then show ?case using Cons by (auto intro!: keeps_bind)
qed simp

lemma write_head_keeps [frames]: "ikeep s s0 \<Longrightarrow> keeps ikeep s (write_head me s0)"
  unfolding write_head_def by (intro frames)

lemma commit_keeps [frames]: "ikeep s s0 \<Longrightarrow> keeps ikeep s (commit me s0)"
  unfolding commit_def write_log_def install_trans_def by (intro frames write_log_keeps install_keeps)

lemma end_op_keeps [frames]: "ikeep s s0 \<Longrightarrow> keeps ikeep s (end_op me s0)"
  unfolding end_op_def Let_def by (intro frames)

section \<open>Inodes\<close>

lemma bfree_keeps [frames]: "ikeep s s0 \<Longrightarrow> keeps ikeep s (bfree me dev n s0)"
  unfolding bfree_def Let_def by (intro frames)

lemma iupdate_keeps [frames]: "ikeep s s0 \<Longrightarrow> keeps ikeep s (iupdate me ip s0)"
  unfolding iupdate_def Let_def by (intro frames)

lemma itrunc_direct_keeps [frames]: "ikeep s s0 \<Longrightarrow> keeps ikeep s (itrunc_direct me ip ks s0)"
proof (induction ks arbitrary: s0)
  case (Cons k ks)
  then show ?case by (auto simp: Let_def inode_id_def intro!: frames)
qed simp

lemma itrunc_indirect_keeps [frames]: "ikeep s s0 \<Longrightarrow> keeps ikeep s (itrunc_indirect me dev as s0)"
  by (induction as arbitrary: s0) (auto intro!: frames)

lemma itrunc_keeps [frames]: "ikeep s s0 \<Longrightarrow> keeps ikeep s (itrunc me ip s0)"
  unfolding itrunc_def Let_def by (intro frames) (simp_all add: inode_id_def)

lemma inode_acquire_keeps [frames]: "ikeep s s0 \<Longrightarrow> keeps ikeep s (inode_acquire me ip s0)"
  by (auto simp: inode_acquire_def acquiresleep_def inode_id_def intro!: frames)

lemma inode_release_keeps [frames]: "ikeep s s0 \<Longrightarrow> ikeep s (inode_release ip s0)"
  by (auto simp: inode_release_def releasesleep_def inode_id_def intro!: frames)

lemma ilock_keeps [frames]: "ikeep s s0 \<Longrightarrow> keeps ikeep s (ilock me ip s0)"
  unfolding ilock_def Let_def by (intro frames) (simp_all add: inode_id_def load_dinode_def)

lemma iunlock_keeps [frames]: "ikeep s s0 \<Longrightarrow> keeps ikeep s (iunlock me ip s0)"
  unfolding iunlock_def by (intro frames)

text \<open>\<open>iput\<close> drops one reference; so far the inode may also have been freed.\<close>

definition drop_ref :: "inode \<Rightarrow> inode" where
  "drop_ref x = x\<lparr>i_ref := i_ref x - 1\<rparr>"

lemma ikeep_upd_cong:
  assumes "ikeep s s1" and "\<And>x y. inode_id x = inode_id y \<Longrightarrow> inode_id (f x) = inode_id (f y)"
  shows "ikeep (upd_inode ip f s) (upd_inode ip f s1)"
proof -
  have m: "map inode_id (inodes s1) = map inode_id (inodes s)" using assms(1) by (simp add: ikeep_def)
  then have l: "length (inodes s1) = length (inodes s)" by (metis length_map)
  have n: "inode_id (inodes s1 ! j) = inode_id (inodes s ! j)" if "j < length (inodes s)" for j
    using m l that by (metis nth_map)
  have "map inode_id ((inodes s1)[ip := f (inodes s1 ! ip)]) = map inode_id ((inodes s)[ip := f (inodes s ! ip)])"
  proof (rule nth_equalityI)
    fix j
    assume "j < length (map inode_id ((inodes s1)[ip := f (inodes s1 ! ip)]))"
    then have j: "j < length (inodes s)" using l by simp
    show "map inode_id ((inodes s1)[ip := f (inodes s1 ! ip)]) ! j = map inode_id ((inodes s)[ip := f (inodes s ! ip)]) ! j"
      using n [OF j] j l assms(2) [OF n [OF j]] by (cases "j = ip") simp_all
  qed (simp add: l)
  then show ?thesis using assms(1) by (simp add: ikeep_def upd_inode_def)
qed

lemma iput_keeps: "keeps ikeep (upd_inode ip drop_ref s) (iput me ip s)"
proof -
  have "keeps ikeep s (bind_res (inode_acquire me ip s) (\<lambda>s1.
     let x = inodes s1 ! ip
               in if i_valid x \<and> i_nlink x = 0 \<and> i_ref x = 1
                  then bind_res (itrunc me ip s1) (\<lambda>s2.
                       bind_res (iupdate me ip (upd_inode ip (\<lambda>y. y\<lparr>i_type := 0\<rparr>) s2)) (\<lambda>s3.
                       Inr (upd_inode ip (\<lambda>y. y\<lparr>i_valid := False\<rparr>) s3)))
                  else Inr s1))" (is "keeps ikeep s ?r")
    unfolding Let_def by (intro frames) (simp_all add: inode_id_def)
  moreover have "iput me ip s = bind_res ?r (\<lambda>s4. Inr (upd_inode ip (\<lambda>y. y\<lparr>i_ref := i_ref y - 1\<rparr>) (inode_release ip s4)))"
    by (simp add: iput_def bind_res_assoc Let_def)
  moreover have "(\<lambda>y. y\<lparr>i_ref := i_ref y - 1\<rparr>) = drop_ref" by (simp add: fun_eq_iff drop_ref_def)
  moreover have "ikeep (upd_inode ip drop_ref s) (upd_inode ip drop_ref (inode_release ip s4))" if "ikeep s s4" for s4
    by (rule ikeep_upd_cong [OF inode_release_keeps [OF that]]) (simp add: drop_ref_def inode_id_def)
  ultimately show ?thesis
    unfolding keeps_def by (simp only:) (erule on_ret_bind, simp)
qed

section \<open>Files and directories\<close>

text \<open>These functions also take and drop references to inodes and use the console.\<close>

definition fkeep :: "'a ckernel_scheme \<Rightarrow> 'a ckernel_scheme \<Rightarrow> bool" where
  "fkeep s s' \<longleftrightarrow> ckernel.more s' = ckernel.more s \<and> map proc_files (ptable s') = map proc_files (ptable s)"

definition keepst :: "('s \<Rightarrow> 's \<Rightarrow> bool) \<Rightarrow> 's \<Rightarrow> ('b \<times> 'c \<times> 's) res \<Rightarrow> bool" where
  "keepst R s r \<longleftrightarrow> on_ret r (\<lambda>(x, y, s'). R s s')"

lemma keepst_bind [frames]:
  "keeps R s r \<Longrightarrow> (\<And>s1. R s s1 \<Longrightarrow> keepst R s (f s1)) \<Longrightarrow> keepst R s (bind_res r f)"
  "keepsp R s p \<Longrightarrow> (\<And>x s1. R s s1 \<Longrightarrow> keepst R s (g (x, s1))) \<Longrightarrow> keepst R s (bind_res p g)"
  "keepst R s t \<Longrightarrow> (\<And>x y s1. R s s1 \<Longrightarrow> keepsp R s (h (x, y, s1))) \<Longrightarrow> keepsp R s (bind_res t h)"
  unfolding keeps_def keepsp_def keepst_def by (erule on_ret_bind, auto)+

lemma keepst_intros [frames]:
  "R s s1 \<Longrightarrow> keepst R s (Inr (x, y, s1))" "keepst R s (Inl e)"
  "(b \<Longrightarrow> keepst R s r) \<Longrightarrow> (\<not> b \<Longrightarrow> keepst R s t) \<Longrightarrow> keepst R s (if b then r else t)"
  "(v = None \<Longrightarrow> keepst R s r) \<Longrightarrow> (\<And>x. v = Some x \<Longrightarrow> keepst R s (f x)) \<Longrightarrow> keepst R s (case v of None \<Rightarrow> r | Some x \<Rightarrow> f x)"
  "keepst R s (g a b) \<Longrightarrow> keepst R s (case (a, b) of (a, b) \<Rightarrow> g a b)"
  by (simp_all add: keepst_def split: option.split)

lemma fkeep_refl [simp, frames]: "fkeep s s"
  by (simp add: fkeep_def)

lemma fkeep_trans: "fkeep s1 s2 \<Longrightarrow> fkeep s2 s3 \<Longrightarrow> fkeep s1 s3"
  by (simp add: fkeep_def)

lemma ikeep_fkeep: "ikeep s s' \<Longrightarrow> fkeep s s'"
  by (cases s, cases s') (simp add: ikeep_def fkeep_def)

lemma keeps_weaken:
  "fkeep s s0 \<Longrightarrow> keeps ikeep s0 r \<Longrightarrow> keeps fkeep s r" "fkeep s s0 \<Longrightarrow> keepsp ikeep s0 p \<Longrightarrow> keepsp fkeep s p"
  unfolding keeps_def keepsp_def by (auto elim!: on_ret_mono intro: fkeep_trans ikeep_fkeep)

lemma fkeep_upd_inode [simp, frames]: "fkeep s s0 \<Longrightarrow> fkeep s (upd_inode ip f s0)"
  by (simp add: fkeep_def upd_inode_def)

lemma fkeep_simps [simp, frames]:
  "fkeep s s0 \<Longrightarrow> fkeep s (upd_buf b g s0)" "fkeep s s0 \<Longrightarrow> fkeep s (wakeup c s0)"
  using fkeep_trans [OF _ ikeep_fkeep] by (blast intro: ikeep_upd ikeep_wakeup ikeep_refl)+

lemma blocks_fkeep [frames]:
  assumes "fkeep s s0"
  shows "keepsp fkeep s (bread me dev n s0)" "keeps fkeep s (brelse me b s0)" "keeps fkeep s (log_write b s0)"
    "keeps fkeep s (begin_op s0)" "keeps fkeep s (end_op me s0)" "keeps fkeep s (iupdate me ip s0)" "keeps fkeep s (ilock me ip s0)"
    "keeps fkeep s (iunlock me ip s0)"
  by (rule keeps_weaken [OF assms], rule frames, rule ikeep_refl)+

lemma iput_fkeep [frames]: "fkeep s s0 \<Longrightarrow> keeps fkeep s (iput me ip s0)"
  by (rule keeps_weaken(1) [OF _ iput_keeps]) simp

lemma iunlockput_fkeep [frames]: "fkeep s s0 \<Longrightarrow> keeps fkeep s (iunlockput me ip s0)"
  unfolding iunlockput_def by (intro frames)

lemma iget_fkeep [frames]: "fkeep s s0 \<Longrightarrow> keepsp fkeep s (iget dev i s0)"
  unfolding iget_def by (intro frames)

lemma ialloc_fkeep [frames]: "fkeep s s0 \<Longrightarrow> keepsp fkeep s (ialloc me dev type s0)"
proof -
  have "fkeep s s0 \<Longrightarrow> keepsp fkeep s (ialloc_from me dev type ns s0)" for ns s0
    by (induction ns arbitrary: s0) (auto simp: Let_def intro!: frames)
  then show "fkeep s s0 \<Longrightarrow> keepsp fkeep s (ialloc me dev type s0)" by (simp add: ialloc_def)
qed

lemma bzero_fkeep [frames]: "fkeep s s0 \<Longrightarrow> keeps fkeep s (bzero me dev n s0)"
  unfolding bzero_def by (intro frames)

lemma balloc_fkeep [frames]: "fkeep s s0 \<Longrightarrow> keepsp fkeep s (balloc me dev s0)"
proof -
  have "fkeep s s0 \<Longrightarrow> keepsp fkeep s (balloc_from me dev ns s0)" for ns s0
    by (induction ns arbitrary: s0) (auto simp: Let_def intro!: frames)
  then show "fkeep s s0 \<Longrightarrow> keepsp fkeep s (balloc me dev s0)" by (simp add: balloc_def)
qed

lemma bmap_fkeep [frames]: "fkeep s s0 \<Longrightarrow> keepsp fkeep s (bmap me ip n s0)"
  unfolding bmap_def Let_def by (intro frames)

lemma fkeep_console [frames]:
  assumes "fkeep s s0"
  shows "fkeep s (s0\<lparr>input := i\<rparr>)" "fkeep s (uartputc c s0)" "keeps fkeep s (cgaputc c s0)"
proof -
  show "fkeep s (s0\<lparr>input := i\<rparr>)" "fkeep s (uartputc c s0)"
    using assms by (simp_all add: fkeep_def uartputc_def)
  show "keeps fkeep s (cgaputc c s0)"
    unfolding keeps_def cgaputc_def Let_def
    by (intro on_ret_bind [where P = "\<lambda>_. True"] on_ret_guard)
      (auto simp: on_ret_def bind_res_eq_Inr_iff split: if_splits, use assms in \<open>simp_all add: fkeep_def\<close>)
qed

lemma consputc_fkeep [frames]: "fkeep s s0 \<Longrightarrow> keeps fkeep s (consputc c s0)"
  unfolding consputc_def by (auto intro!: frames)

lemma consoleread_from_input:
  "consoleread_from k t me s = (r, s') \<Longrightarrow> (\<exists>bs. r = CR_sleeps bs) \<or> (\<exists>i. s' = s\<lparr>input := i\<rparr>)"
proof (induction k arbitrary: s r s')
  case 0
  then have "s' = s\<lparr>input := input s\<rparr>" by simp
  then show ?case by blast
next
  case (Suc k)
  let ?i = "input s"
  let ?s1 = "s\<lparr>input := ?i\<lparr>in_r := in_r ?i + 1\<rparr>\<rparr>"
  have id: "s = s\<lparr>input := ?i\<rparr>" by simp
  obtain r1 s2 where r1: "consoleread_from k t me ?s1 = (r1, s2)" by fastforce
  from Suc.IH [OF this] have "(\<exists>bs. cr_cons c r1 = CR_sleeps bs) \<or> (\<exists>i. s2 = s\<lparr>input := i\<rparr>)" for c by auto
  then show ?case
    using Suc.prems id unfolding consoleread_from.simps Let_def r1 by (auto split: if_split_asm) (metis id)+
qed

lemma consoleread_fkeep [frames]: "fkeep s s0 \<Longrightarrow> keepsp fkeep s (consoleread me ip n s0)"
  unfolding consoleread_def
proof (intro frames)
  fix s1
  assume 1: "fkeep s s1"
  obtain r s2 where r: "consoleread_from (nat n) (nat n) me s1 = (r, s2)" by fastforce
  have "fkeep s s2" if "\<And>bs. r \<noteq> CR_sleeps bs"
    using consoleread_from_input [OF r] that fkeep_console(1) [OF 1] by auto
  then show "keepsp fkeep s (case consoleread_from (nat n) (nat n) me s1 of
         (CR_done bs, s2) \<Rightarrow> bind_res (ilock me ip s2) (\<lambda>s3. Inr ((int (length bs), bs), s3))
       | (CR_killed, s2) \<Rightarrow> bind_res (ilock me ip s2) (\<lambda>s3. Inr ((-1, []), s3))
       | (CR_sleeps bs, s2) \<Rightarrow> Inl (Waits CInput))"
    unfolding r by (cases r) (auto intro!: frames)
qed

lemma consolewrite_fkeep [frames]: "fkeep s s0 \<Longrightarrow> keepsp fkeep s (consolewrite me ip src n s0)"
proof -
  have "fkeep s s0 \<Longrightarrow> keeps fkeep s (consolewrite_from src k i s0)" for k i s0
  proof (induction k arbitrary: i s0)
    case (Suc k)
    then show ?case by (cases "src i") (auto intro!: frames)
  qed simp
  then show "fkeep s s0 \<Longrightarrow> keepsp fkeep s (consolewrite me ip src n s0)"
    unfolding consolewrite_def by (intro frames) auto
qed

lemma keeps_pure [frames]:
  fixes l :: "'x list res" and v :: "'y option res"
  shows "(\<And>x. keeps R s (f x)) \<Longrightarrow> keeps R s (bind_res l f)" "(\<And>x. keepsp R s (g x)) \<Longrightarrow> keepsp R s (bind_res l g)"
    "(\<And>y. keeps R s (h y)) \<Longrightarrow> keeps R s (bind_res v h)" "(\<And>y. keepsp R s (k y)) \<Longrightarrow> keepsp R s (bind_res v k)"
  by (cases l; cases v; simp)+

lemma readi_loop_fkeep [frames]: "fkeep s s0 \<Longrightarrow> keepsp fkeep s (readi_loop me ip off n s0)"
proof (induction n arbitrary: off s0 rule: less_induct)
  case (less n)
  show ?case
  proof (cases "n = 0")
    case False
    then have "n - min n (BSIZE - off mod BSIZE) < n" by simp
    note IH = less.IH [OF this]
    show ?thesis by (subst readi_loop.simps) (use less.prems IH in \<open>auto simp: Let_def intro!: frames\<close>)
  qed (use less.prems in \<open>subst readi_loop.simps, simp\<close>)
qed

lemma writei_loop_fkeep [frames]: "fkeep s s0 \<Longrightarrow> keeps fkeep s (writei_loop me ip src i off n s0)"
proof (induction n arbitrary: i off s0 rule: less_induct)
  case (less n)
  show ?case
  proof (cases "n = 0")
    case False
    then have "n - min n (BSIZE - off mod BSIZE) < n" by simp
    note IH = less.IH [OF this]
    show ?thesis by (subst writei_loop.simps) (use less.prems IH in \<open>auto simp: Let_def intro!: frames\<close>)
  qed (use less.prems in \<open>subst writei_loop.simps, simp\<close>)
qed

lemma readi_fkeep [frames]: "fkeep s s0 \<Longrightarrow> keepsp fkeep s (readi me ip off n s0)"
  unfolding readi_def Let_def by (auto intro!: frames split: option.split dev_read.split)

lemma writei_fkeep [frames]: "fkeep s s0 \<Longrightarrow> keepsp fkeep s (writei me ip src off n s0)"
  unfolding writei_def Let_def by (auto intro!: frames split: option.split dev_write.split)

lemma read_dirent_fkeep [frames]: "fkeep s s0 \<Longrightarrow> keepsp fkeep s (read_dirent me dp msg off s0)"
  unfolding read_dirent_def by (auto intro!: frames)

lemma dirlookup_fkeep [frames]: "fkeep s s0 \<Longrightarrow> keepsp fkeep s (dirlookup me dp name s0)"
proof -
  have "fkeep s s0 \<Longrightarrow> keepsp fkeep s (dirlookup_from me dp name offs s0)" for offs s0
    by (induction offs arbitrary: s0) (auto intro!: frames)
  then show "fkeep s s0 \<Longrightarrow> keepsp fkeep s (dirlookup me dp name s0)" unfolding dirlookup_def by (intro frames)
qed

lemma dirlink_fkeep [frames]: "fkeep s s0 \<Longrightarrow> keepsp fkeep s (dirlink me dp name i s0)"
proof -
  have "fkeep s s0 \<Longrightarrow> keepsp fkeep s (dirlink_slot me dp offs past s0)" for offs past s0
    by (induction offs arbitrary: s0) (auto intro!: frames)
  then show "fkeep s s0 \<Longrightarrow> keepsp fkeep s (dirlink me dp name i s0)"
    unfolding dirlink_def Let_def by (auto intro!: frames)
qed

lemma idup_fkeep [frames]: "fkeep s s0 \<Longrightarrow> fkeep s (snd (idup ip s0))"
  by (simp add: idup_def)

lemma namex_loop_fkeep [frames]: "fkeep s s0 \<Longrightarrow> keepst fkeep s (namex_loop me parent path name ip s0)"
proof (induction path arbitrary: name ip s0 rule: length_induct)
  case (1 path)
  show ?case
  proof (cases "skipelem path")
    case None
    then show ?thesis by (subst namex_loop.simps) (use 1 in \<open>auto intro!: frames\<close>)
  next
    case (Some er)
    obtain e r where er: "er = (e, r)" by fastforce
    have "length r < length path" using skipelem_shorter Some er by simp
    then have IH: "fkeep s s0 \<Longrightarrow> keepst fkeep s (namex_loop me parent r name ip s0)" for name ip s0 using 1 by blast
    show ?thesis
      by (subst namex_loop.simps) (use 1 Some er IH in \<open>auto intro!: frames\<close>)
  qed
qed

lemma namex_fkeep [frames]: "fkeep s s0 \<Longrightarrow> keepst fkeep s (namex me path parent s0)"
  unfolding namex_def by (auto simp: idup_def intro!: frames)

lemma namei_fkeep [frames]: "fkeep s s0 \<Longrightarrow> keepsp fkeep s (namei me path s0)"
  "fkeep s s0 \<Longrightarrow> keepst fkeep s (nameiparent me path s0)"
  unfolding namei_def nameiparent_def by (auto intro!: frames)

end
