(* ===== verification/Exec.thy ===== *)
theory Exec
  imports ProcLife
begin

text \<open>
  kernel/exec.c, kernel/elf.h and \<open>loaduvm\<close> of kernel/vm.c.  The path and the argument strings are given by their
  bytes: they are strings of the image of the caller, which \<open>exec\<close> leaves alone until it commits.
\<close>

abbreviation MAXARG :: nat where "MAXARG \<equiv> 32"
abbreviation ELF_MAGIC :: u32 where "ELF_MAGIC \<equiv> 0x464C457F"
abbreviation ELF_PROG_LOAD :: u32 where "ELF_PROG_LOAD \<equiv> 1"

record elfhdr =
  e_magic :: u32
  e_entry :: u32
  e_phoff :: u32
  e_phnum :: u16

record proghdr =
  ph_type :: u32
  ph_off :: u32
  ph_vaddr :: u32
  ph_filesz :: u32
  ph_memsz :: u32

definition elfhdr_of :: "u8 list \<Rightarrow> elfhdr" where
  "elfhdr_of bs = \<lparr>e_magic = get32 bs 0, e_entry = get32 bs 24, e_phoff = get32 bs 28, e_phnum = get16 bs 44\<rparr>"

definition proghdr_of :: "u8 list \<Rightarrow> proghdr" where
  "proghdr_of bs =
     \<lparr>ph_type = get32 bs 0, ph_off = get32 bs 4, ph_vaddr = get32 bs 8, ph_filesz = get32 bs 16, ph_memsz = get32 bs 20\<rparr>"

text \<open>\<open>loaduvm\<close>; the sizes that \<open>exec\<close> passes are below \<open>KERNBASE\<close>, so that its counter does not wrap.\<close>

primrec loaduvm_from ::
  "nat \<Rightarrow> u32 \<Rightarrow> u32 \<Rightarrow> nat \<Rightarrow> u32 \<Rightarrow> u32 \<Rightarrow> nat list \<Rightarrow> 'a ckernel_scheme \<Rightarrow> (int \<times> 'a ckernel_scheme) res" where
  "loaduvm_from me pgdir addr ip offset sz [] s = Inr (0, s)"
| "loaduvm_from me pgdir addr ip offset sz (k # ks) s =
     (let i = of_nat k; pte = fst (walkpgdir pgdir (addr + i) False s); pa = PTE_ADDR (rd32 (ram s) pte);
          n = (if sz - i < PGSIZE then sz - i else PGSIZE)
      in guard_res (pte = 0) ''loaduvm: address should exist''
           (bind_res (readi me ip (offset + i) n s) (\<lambda>((r, bs), s1).
              let s2 = s1\<lparr>ram := put_bytes (ram s1) (P2V pa) bs\<rparr>
              in if r \<noteq> uint n then Inr (-1, s2) else loaduvm_from me pgdir addr ip offset sz ks s2)))"

definition loaduvm ::
  "nat \<Rightarrow> u32 \<Rightarrow> u32 \<Rightarrow> nat \<Rightarrow> u32 \<Rightarrow> u32 \<Rightarrow> 'a ckernel_scheme \<Rightarrow> (int \<times> 'a ckernel_scheme) res" where
  "loaduvm me pgdir addr ip offset sz s =
     guard_res (addr mod PGSIZE \<noteq> 0) ''loaduvm: addr must be page aligned''
       (loaduvm_from me pgdir addr ip offset sz (map (\<lambda>k. k * 4096) [0..<(unat sz + 4095) div 4096]) s)"

text \<open>
  The label \<open>bad\<close>: \<open>pgdir\<close> is 0 when there is none yet, \<open>ip\<close> is \<open>None\<close> once the file has been closed.
\<close>

definition exec_bad :: "nat \<Rightarrow> u32 \<Rightarrow> nat option \<Rightarrow> 'a ckernel_scheme \<Rightarrow> (int \<times> 'a ckernel_scheme) res" where
  "exec_bad me pgdir ip s =
     bind_res (if pgdir \<noteq> 0 then freevm pgdir s else Inr s) (\<lambda>s1.
     bind_res (case ip of None \<Rightarrow> Inr s1 | Some i \<Rightarrow> bind_res (iunlockput me i s1) (end_op me)) (\<lambda>s2.
     Inr (-1, s2)))"

text \<open>The loop over the program headers: the size of the image, or \<open>None\<close> for \<open>goto bad\<close>.\<close>

primrec exec_load ::
  "nat \<Rightarrow> u32 \<Rightarrow> nat \<Rightarrow> u32 \<Rightarrow> nat list \<Rightarrow> u32 \<Rightarrow> 'a ckernel_scheme \<Rightarrow> (u32 option \<times> 'a ckernel_scheme) res" where
  "exec_load me pgdir ip phoff [] sz s = Inr (Some sz, s)"
| "exec_load me pgdir ip phoff (i # ks) sz s =
     bind_res (readi me ip (phoff + of_nat (32 * i)) 32 s) (\<lambda>((r, bs), s1).
       if r \<noteq> 32 then Inr (None, s1)
       else let ph = proghdr_of bs; top = ph_vaddr ph + ph_memsz ph
            in if ph_type ph \<noteq> ELF_PROG_LOAD then exec_load me pgdir ip phoff ks sz s1
               else if ph_memsz ph < ph_filesz ph then Inr (None, s1)
               else if top < ph_vaddr ph then Inr (None, s1)
               else bind_res (allocuvm pgdir sz top s1) (\<lambda>(sz', s2).
                      if sz' = 0 then Inr (None, s2)
                      else if ph_vaddr ph mod PGSIZE \<noteq> 0 then Inr (None, s2)
                      else bind_res (loaduvm me pgdir (ph_vaddr ph) ip (ph_off ph) (ph_filesz ph) s2) (\<lambda>(q, s3).
                             if q < 0 then Inr (None, s3) else exec_load me pgdir ip phoff ks sz' s3)))"

text \<open>
  The loop that pushes the argument strings: the final stack pointer and the addresses of the strings, or \<open>None\<close>
  for \<open>goto bad\<close>.
\<close>

primrec exec_args ::
  "u32 \<Rightarrow> u8 list list \<Rightarrow> nat \<Rightarrow> u32 \<Rightarrow> u32 list \<Rightarrow> 'a vm_state_scheme \<Rightarrow>
     ((u32 \<times> u32 list) option \<times> 'a vm_state_scheme) res" where
  "exec_args pgdir [] argc sp us s = Inr (Some (sp, us), s)"
| "exec_args pgdir (a # as) argc sp us s =
     (if argc \<ge> MAXARG then Inr (None, s)
      else let sp' = (sp - (of_nat (length a) + 1)) AND NOT 3
           in bind_res (copyout pgdir sp' (a @ [0]) s) (\<lambda>(r, s1).
                if r < 0 then Inr (None, s1) else exec_args pgdir as (Suc argc) sp' (us @ [sp']) s1))"

definition last_elem :: "u8 list \<Rightarrow> u8 list" where
  "last_elem path = rev (takeWhile (\<lambda>c. c \<noteq> SLASH) (rev path))"

text \<open>\<open>exec\<close> after the file has been loaded and closed.\<close>

definition exec_image ::
  "nat \<Rightarrow> nat \<Rightarrow> u8 list \<Rightarrow> u8 list list \<Rightarrow> u32 \<Rightarrow> u32 \<Rightarrow> u32 \<Rightarrow> 'a ckernel_scheme \<Rightarrow> (int \<times> 'a ckernel_scheme) res" where
  "exec_image c me path argv pgdir entry sz0 s =
     (let base = PGROUNDUP sz0
      in bind_res (allocuvm pgdir base (base + 2 * PGSIZE) s) (\<lambda>(sz, s1).
           if sz = 0 then exec_bad me pgdir None s1
           else bind_res (clearpteu pgdir (sz - 2 * PGSIZE) s1) (\<lambda>s2.
                bind_res (exec_args pgdir argv 0 sz [] s2) (\<lambda>(args, s3).
                  case args of
                    None \<Rightarrow> exec_bad me pgdir None s3
                  | Some (sp, us) \<Rightarrow>
                      let argc = of_nat (length us);
                          ustack = [0xffffffff, argc, sp - (argc + 1) * 4] @ us @ [0];
                          sp' = sp - (3 + argc + 1) * 4
                      in bind_res (copyout pgdir sp' (concat (map bytes32 ustack)) s3) (\<lambda>(r, s4).
                           if r < 0 then exec_bad me pgdir None s4
                           else let old = p_pgdir (ptable s4 ! me); tf = p_tf (ptable s4 ! me);
                                    s5 = upd_proc me (\<lambda>x. x\<lparr>p_name := copy_name (name_view (last_elem path)) (p_name x),
                                                            p_pgdir := pgdir, p_sz := sz\<rparr>) s4;
                                    s6 = s5\<lparr>ram := wr32 (wr32 (ram s5) (tf + 56) entry) (tf + 68) sp'\<rparr>
                                in bind_res (switchuvm c (Some me) s6) (\<lambda>s7.
                                   bind_res (freevm old s7) (\<lambda>s8. Inr (0, s8))))))))"

definition exec :: "nat \<Rightarrow> nat \<Rightarrow> u8 list \<Rightarrow> u8 list list \<Rightarrow> 'a ckernel_scheme \<Rightarrow> (int \<times> 'a ckernel_scheme) res" where
  "exec c me path argv s =
     bind_res (begin_op s) (\<lambda>s1.
     bind_res (namei me path s1) (\<lambda>(found, s2).
       case found of
         None \<Rightarrow>
           bind_res (end_op me s2) (\<lambda>s3.
           bind_res (cprintf (Some (chars ''exec: fail'' @ [10])) [] s3) (\<lambda>s4. Inr (-1, s4)))
       | Some ip \<Rightarrow>
           bind_res (ilock me ip s2) (\<lambda>s3.
           bind_res (readi me ip 0 52 s3) (\<lambda>((r, bs), s4).
             let elf = elfhdr_of bs
             in if r \<noteq> 52 \<or> e_magic elf \<noteq> ELF_MAGIC then exec_bad me 0 (Some ip) s4
                else bind_res (setupkvm s4) (\<lambda>(pgdir, s5).
                       if pgdir = 0 then exec_bad me 0 (Some ip) s5
                       else bind_res (exec_load me pgdir ip (e_phoff elf) [0..<unat (e_phnum elf)] 0 s5) (\<lambda>(loaded, s6).
                              case loaded of
                                None \<Rightarrow> exec_bad me pgdir (Some ip) s6
                              | Some sz \<Rightarrow>
                                  bind_res (iunlockput me ip s6) (\<lambda>s7.
                                  bind_res (end_op me s7) (exec_image c me path argv pgdir (e_entry elf) sz))))))))"

end
