(* ===== verification/Syscall.thy ===== *)
theory Syscall
  imports Exec
begin

text \<open>
  The argument fetching of kernel/syscall.c.  A fetch is \<open>None\<close> where the source returns -1; the loads go through the
  page table of the process and could fault.  A string argument is its address and its bytes.
\<close>

definition uload32 :: "u32 \<Rightarrow> u32 \<Rightarrow> 'a vm_state_scheme \<Rightarrow> u32 res" where
  "uload32 pgdir va s =
     bind_res (uload8 pgdir va s) (\<lambda>b0.
     bind_res (uload8 pgdir (va + 1) s) (\<lambda>b1.
     bind_res (uload8 pgdir (va + 2) s) (\<lambda>b2.
     bind_res (uload8 pgdir (va + 3) s) (\<lambda>b3. Inr (word32 [b0, b1, b2, b3])))))"

definition fetchint :: "nat \<Rightarrow> u32 \<Rightarrow> 'a kernel_scheme \<Rightarrow> u32 option res" where
  "fetchint me addr s =
     (let p = ptable s ! me
      in if addr \<ge> p_sz p \<or> addr + 4 > p_sz p then Inr None
         else bind_res (uload32 (p_pgdir p) addr s) (\<lambda>v. Inr (Some v)))"

text \<open>The loop of \<open>fetchstr\<close> with \<open>k\<close> bytes left below the end of the process.\<close>

primrec fetchstr_from :: "nat \<Rightarrow> u32 \<Rightarrow> u32 \<Rightarrow> 'a vm_state_scheme \<Rightarrow> u8 list option res" where
  "fetchstr_from 0 pgdir a s = Inr None"
| "fetchstr_from (Suc k) pgdir a s =
     bind_res (uload8 pgdir a s) (\<lambda>b.
       if b = 0 then Inr (Some [])
       else bind_res (fetchstr_from k pgdir (a + 1) s) (\<lambda>r. Inr (map_option (Cons b) r)))"

definition fetchstr :: "nat \<Rightarrow> u32 \<Rightarrow> 'a kernel_scheme \<Rightarrow> (u32 \<times> u8 list) option res" where
  "fetchstr me addr s =
     (let p = ptable s ! me
      in if addr \<ge> p_sz p then Inr None
         else bind_res (fetchstr_from (unat (p_sz p) - unat addr) (p_pgdir p) addr s)
                (\<lambda>r. Inr (map_option (\<lambda>bs. (addr, bs)) r)))"

definition argint :: "nat \<Rightarrow> nat \<Rightarrow> 'a kernel_scheme \<Rightarrow> u32 option res" where
  "argint me n s = fetchint me (rd32 (ram s) (p_tf (ptable s ! me) + 68) + 4 + 4 * of_nat n) s"

definition argptr :: "nat \<Rightarrow> nat \<Rightarrow> int \<Rightarrow> 'a kernel_scheme \<Rightarrow> u32 option res" where
  "argptr me n sz s =
     bind_res (argint me n s) (\<lambda>r.
       case r of
         None \<Rightarrow> Inr None
       | Some i \<Rightarrow>
           let psz = p_sz (ptable s ! me)
           in if sz < 0 \<or> i \<ge> psz \<or> i + of_int sz > psz then Inr None else Inr (Some i))"

definition argstr :: "nat \<Rightarrow> nat \<Rightarrow> 'a kernel_scheme \<Rightarrow> (u32 \<times> u8 list) option res" where
  "argstr me n s =
     bind_res (argint me n s) (\<lambda>r. case r of None \<Rightarrow> Inr None | Some addr \<Rightarrow> fetchstr me addr s)"

end
