(* ===== verification/Sysfile.thy ===== *)
theory Sysfile
  imports Syscall
begin

text \<open>
  kernel/sysfile.c.  A system call returns a value for \<open>%eax\<close>, or leaves the process asleep with the number of bytes
  moved so far, or ends the process.
\<close>

datatype sys_result = Ret int | Sleeps nat | Exited

section \<open>Descriptors\<close>

definition argfd :: "nat \<Rightarrow> nat \<Rightarrow> 'a fkernel_scheme \<Rightarrow> (nat \<times> nat) option res" where
  "argfd me n s =
     bind_res (argint me n s) (\<lambda>r.
       case r of
         None \<Rightarrow> Inr None
       | Some v \<Rightarrow>
           let fd = sint v
           in if fd < 0 \<or> fd \<ge> int NOFILE then Inr None
              else Inr (map_option (\<lambda>f. (nat fd, f)) (p_ofile (ptable s ! me) ! nat fd)))"

definition fdalloc :: "nat \<Rightarrow> nat \<Rightarrow> 'a kernel_scheme \<Rightarrow> nat option \<times> 'a kernel_scheme" where
  "fdalloc me f s =
     (case find_index (\<lambda>x. x = None) (p_ofile (ptable s ! me)) of
        None \<Rightarrow> (None, s)
      | Some fd \<Rightarrow> (Some fd, upd_proc me (\<lambda>x. x\<lparr>p_ofile := (p_ofile x)[fd := Some f]\<rparr>) s))"

definition sys_dup :: "nat \<Rightarrow> 'a fkernel_scheme \<Rightarrow> (sys_result \<times> 'a fkernel_scheme) res" where
  "sys_dup me s =
     bind_res (argfd me 0 s) (\<lambda>r.
       case r of
         None \<Rightarrow> Inr (Ret (-1), s)
       | Some (_, f) \<Rightarrow>
           (case fdalloc me f s of
              (None, s1) \<Rightarrow> Inr (Ret (-1), s1)
            | (Some fd, s1) \<Rightarrow> bind_res (filedup f s1) (\<lambda>(_, s2). Inr (Ret (int fd), s2))))"

text \<open>The arguments of \<open>read\<close> and \<open>write\<close>.\<close>

definition rw_args :: "nat \<Rightarrow> 'a fkernel_scheme \<Rightarrow> (nat \<times> u32 \<times> int) option res" where
  "rw_args me s =
     bind_res (argfd me 0 s) (\<lambda>r.
       case r of
         None \<Rightarrow> Inr None
       | Some (_, f) \<Rightarrow>
           bind_res (argint me 2 s) (\<lambda>n.
             case n of
               None \<Rightarrow> Inr None
             | Some n \<Rightarrow> bind_res (argptr me 1 (sint n) s) (\<lambda>p. Inr (map_option (\<lambda>a. (f, a, sint n)) p))))"

definition io_result :: "io_outcome \<Rightarrow> sys_result" where
  "io_result r = (case r of IO_returns n \<Rightarrow> Ret n | IO_blocks k \<Rightarrow> Sleeps k)"

definition sys_read :: "nat \<Rightarrow> 'a fkernel_scheme \<Rightarrow> (sys_result \<times> 'a fkernel_scheme) res" where
  "sys_read me s =
     bind_res (rw_args me s) (\<lambda>r.
       case r of
         None \<Rightarrow> Inr (Ret (-1), s)
       | Some (f, p, n) \<Rightarrow> bind_res (fileread me f p n s) (\<lambda>(o1, s1). Inr (io_result o1, s1)))"

definition sys_write :: "nat \<Rightarrow> 'a fkernel_scheme \<Rightarrow> (sys_result \<times> 'a fkernel_scheme) res" where
  "sys_write me s =
     bind_res (rw_args me s) (\<lambda>r.
       case r of
         None \<Rightarrow> Inr (Ret (-1), s)
       | Some (f, p, n) \<Rightarrow> bind_res (filewrite me f p n 0 s) (\<lambda>(o1, s1). Inr (io_result o1, s1)))"

definition sys_close :: "nat \<Rightarrow> 'a fkernel_scheme \<Rightarrow> (sys_result \<times> 'a fkernel_scheme) res" where
  "sys_close me s =
     bind_res (argfd me 0 s) (\<lambda>r.
       case r of
         None \<Rightarrow> Inr (Ret (-1), s)
       | Some (fd, f) \<Rightarrow>
           bind_res (fileclose me f (upd_proc me (\<lambda>x. x\<lparr>p_ofile := (p_ofile x)[fd := None]\<rparr>) s)) (\<lambda>s1.
             Inr (Ret 0, s1)))"

text \<open>The layout of \<open>struct stat\<close>: the two bytes of padding at 2 and at 14 are not stored.\<close>

definition store_stat :: "u32 \<Rightarrow> u32 \<Rightarrow> stat \<Rightarrow> 'a vm_state_scheme \<Rightarrow> 'a vm_state_scheme res" where
  "store_stat pgdir a st s =
     bind_res (ustore32 pgdir (a + 4) (st_dev st) s) (\<lambda>s1.
     bind_res (ustore32 pgdir (a + 8) (st_ino st) s1) (\<lambda>s2.
     bind_res (ustore_bytes pgdir a (bytes16 (st_type st)) s2) (\<lambda>s3.
     bind_res (ustore_bytes pgdir (a + 12) (bytes16 (st_nlink st)) s3) (\<lambda>s4.
     ustore32 pgdir (a + 16) (st_size st) s4))))"

definition sys_fstat :: "nat \<Rightarrow> 'a fkernel_scheme \<Rightarrow> (sys_result \<times> 'a fkernel_scheme) res" where
  "sys_fstat me s =
     bind_res (argfd me 0 s) (\<lambda>r.
       case r of
         None \<Rightarrow> Inr (Ret (-1), s)
       | Some (_, f) \<Rightarrow>
           bind_res (argptr me 1 20 s) (\<lambda>p.
             case p of
               None \<Rightarrow> Inr (Ret (-1), s)
             | Some a \<Rightarrow>
                 bind_res (filestat me f s) (\<lambda>(st, s1).
                   case st of
                     None \<Rightarrow> Inr (Ret (-1), s1)
                   | Some st \<Rightarrow> bind_res (store_stat (p_pgdir (ptable s1 ! me)) a st s1) (\<lambda>s2. Inr (Ret 0, s2)))))"

section \<open>Links\<close>

definition ends_op :: "nat \<Rightarrow> int \<Rightarrow> 'a fkernel_scheme \<Rightarrow> (sys_result \<times> 'a fkernel_scheme) res" where
  "ends_op me v s = bind_res (end_op me s) (\<lambda>s1. Inr (Ret v, s1))"

definition link_bad :: "nat \<Rightarrow> nat \<Rightarrow> 'a fkernel_scheme \<Rightarrow> (sys_result \<times> 'a fkernel_scheme) res" where
  "link_bad me ip s =
     bind_res (ilock me ip s) (\<lambda>s1.
     bind_res (iupdate me ip (upd_inode ip (\<lambda>x. x\<lparr>i_nlink := i_nlink x - 1\<rparr>) s1)) (\<lambda>s2.
     bind_res (iunlockput me ip s2) (ends_op me (-1))))"

definition sys_link :: "nat \<Rightarrow> 'a fkernel_scheme \<Rightarrow> (sys_result \<times> 'a fkernel_scheme) res" where
  "sys_link me s =
     bind_res (argstr me 0 s) (\<lambda>a0.
     bind_res (case a0 of None \<Rightarrow> Inr None | Some _ \<Rightarrow> argstr me 1 s) (\<lambda>a1.
       case (a0, a1) of
         (Some (_, old), Some (_, new)) \<Rightarrow>
           bind_res (begin_op s) (\<lambda>s1.
           bind_res (namei me old s1) (\<lambda>(found, s2).
             case found of
               None \<Rightarrow> ends_op me (-1) s2
             | Some ip \<Rightarrow>
                 bind_res (ilock me ip s2) (\<lambda>s3.
                   if i_type (inodes s3 ! ip) = T_DIR
                   then bind_res (iunlockput me ip s3) (ends_op me (-1))
                   else bind_res (iupdate me ip (upd_inode ip (\<lambda>x. x\<lparr>i_nlink := i_nlink x + 1\<rparr>) s3)) (\<lambda>s4.
                        bind_res (iunlock me ip s4) (\<lambda>s5.
                        bind_res (nameiparent me new s5) (\<lambda>(parent, name, s6).
                          case parent of
                            None \<Rightarrow> link_bad me ip s6
                          | Some dp \<Rightarrow>
                              bind_res (ilock me dp s6) (\<lambda>s7.
                              bind_res (if i_dev (inodes s7 ! dp) \<noteq> i_dev (inodes s7 ! ip) then Inr (-1, s7)
                                        else dirlink me dp name (i_inum (inodes s7 ! ip)) s7) (\<lambda>(r, s8).
                              bind_res (iunlockput me dp s8) (\<lambda>s9.
                                if r < 0 then link_bad me ip s9
                                else bind_res (iput me ip s9) (ends_op me 0))))))))))
       | _ \<Rightarrow> Inr (Ret (-1), s)))"

primrec isdirempty_from :: "nat \<Rightarrow> nat \<Rightarrow> nat list \<Rightarrow> 'a ckernel_scheme \<Rightarrow> (bool \<times> 'a ckernel_scheme) res" where
  "isdirempty_from me dp [] s = Inr (True, s)"
| "isdirempty_from me dp (off # offs) s =
     bind_res (read_dirent me dp ''isdirempty: readi'' off s) (\<lambda>(de, s1).
       if de_inum de \<noteq> 0 then Inr (False, s1) else isdirempty_from me dp offs s1)"

definition isdirempty :: "nat \<Rightarrow> nat \<Rightarrow> 'a ckernel_scheme \<Rightarrow> (bool \<times> 'a ckernel_scheme) res" where
  "isdirempty me dp s = isdirempty_from me dp (drop 2 (entry_offs (i_size (inodes s ! dp)))) s"

definition unlink_bad :: "nat \<Rightarrow> nat \<Rightarrow> 'a fkernel_scheme \<Rightarrow> (sys_result \<times> 'a fkernel_scheme) res" where
  "unlink_bad me dp s = bind_res (iunlockput me dp s) (ends_op me (-1))"

text \<open>\<open>sys_unlink\<close> from the point where the entry at \<open>off\<close> of \<open>dp\<close> is to go; both inodes are locked.\<close>

definition unlink_entry :: "nat \<Rightarrow> nat \<Rightarrow> nat \<Rightarrow> nat \<Rightarrow> 'a fkernel_scheme \<Rightarrow> (sys_result \<times> 'a fkernel_scheme) res" where
  "unlink_entry me dp ip off s =
     bind_res (writei me dp (bytes_src (replicate DIRENT_SIZE 0)) (of_nat off) (of_nat DIRENT_SIZE) s) (\<lambda>(r, s1).
       guard_res (r \<noteq> int DIRENT_SIZE) ''unlink: writei''
         (bind_res (if i_type (inodes s1 ! ip) = T_DIR
                    then iupdate me dp (upd_inode dp (\<lambda>x. x\<lparr>i_nlink := i_nlink x - 1\<rparr>) s1)
                    else Inr s1) (\<lambda>s2.
          bind_res (iunlockput me dp s2) (\<lambda>s3.
          bind_res (iupdate me ip (upd_inode ip (\<lambda>x. x\<lparr>i_nlink := i_nlink x - 1\<rparr>) s3)) (\<lambda>s4.
          bind_res (iunlockput me ip s4) (ends_op me 0))))))"

definition sys_unlink :: "nat \<Rightarrow> 'a fkernel_scheme \<Rightarrow> (sys_result \<times> 'a fkernel_scheme) res" where
  "sys_unlink me s =
     bind_res (argstr me 0 s) (\<lambda>a.
       case a of
         None \<Rightarrow> Inr (Ret (-1), s)
       | Some (_, path) \<Rightarrow>
           bind_res (begin_op s) (\<lambda>s1.
           bind_res (nameiparent me path s1) (\<lambda>(parent, name, s2).
             case parent of
               None \<Rightarrow> ends_op me (-1) s2
             | Some dp \<Rightarrow>
                 bind_res (ilock me dp s2) (\<lambda>s3.
                   if namecmp name [46] = 0 \<or> namecmp name [46, 46] = 0 then unlink_bad me dp s3
                   else bind_res (dirlookup me dp name s3) (\<lambda>(found, s4).
                     case found of
                       None \<Rightarrow> unlink_bad me dp s4
                     | Some (ip, off) \<Rightarrow>
                         bind_res (ilock me ip s4) (\<lambda>s5.
                           guard_res (sint (i_nlink (inodes s5 ! ip)) < 1) ''unlink: nlink < 1''
                             (bind_res (if i_type (inodes s5 ! ip) = T_DIR then isdirempty me ip s5 else Inr (True, s5))
                               (\<lambda>(vacant, s6).
                                 if \<not> vacant then bind_res (iunlockput me ip s6) (unlink_bad me dp)
                                 else unlink_entry me dp ip off s6))))))))"

section \<open>Creating and opening\<close>

text \<open>The part of \<open>create\<close> for a new directory: the link count of the parent and the dot entries.\<close>

definition create_dots :: "nat \<Rightarrow> nat \<Rightarrow> nat \<Rightarrow> 'a ckernel_scheme \<Rightarrow> 'a ckernel_scheme res" where
  "create_dots me dp ip s =
     bind_res (iupdate me dp (upd_inode dp (\<lambda>x. x\<lparr>i_nlink := i_nlink x + 1\<rparr>) s)) (\<lambda>s1.
     bind_res (dirlink me ip [46] (i_inum (inodes s1 ! ip)) s1) (\<lambda>(r1, s2).
       guard_res (r1 < 0) ''create dots''
         (bind_res (dirlink me ip [46, 46] (i_inum (inodes s2 ! dp)) s2) (\<lambda>(r2, s3).
            guard_res (r2 < 0) ''create dots'' (Inr s3)))))"

text \<open>The part of \<open>create\<close> after the lookup has found no entry; the parent is locked.\<close>

definition create_new ::
  "nat \<Rightarrow> nat \<Rightarrow> u8 list \<Rightarrow> u16 \<Rightarrow> u16 \<Rightarrow> u16 \<Rightarrow> 'a ckernel_scheme \<Rightarrow> (nat option \<times> 'a ckernel_scheme) res" where
  "create_new me dp name type major minor s =
     bind_res (ialloc me (i_dev (inodes s ! dp)) type s) (\<lambda>(ip, s1).
     bind_res (ilock me ip s1) (\<lambda>s2.
     bind_res (iupdate me ip (upd_inode ip (\<lambda>x. x\<lparr>i_major := major, i_minor := minor, i_nlink := 1\<rparr>) s2)) (\<lambda>s3.
     bind_res (if type = T_DIR then create_dots me dp ip s3 else Inr s3) (\<lambda>s4.
     bind_res (dirlink me dp name (i_inum (inodes s4 ! ip)) s4) (\<lambda>(r, s5).
       guard_res (r < 0) ''create: dirlink''
         (bind_res (iunlockput me dp s5) (\<lambda>s6. Inr (Some ip, s6))))))))"

definition create ::
  "nat \<Rightarrow> u8 list \<Rightarrow> u16 \<Rightarrow> u16 \<Rightarrow> u16 \<Rightarrow> 'a ckernel_scheme \<Rightarrow> (nat option \<times> 'a ckernel_scheme) res" where
  "create me path type major minor s =
     bind_res (nameiparent me path s) (\<lambda>(parent, name, s1).
       case parent of
         None \<Rightarrow> Inr (None, s1)
       | Some dp \<Rightarrow>
           bind_res (ilock me dp s1) (\<lambda>s2.
           bind_res (dirlookup me dp name s2) (\<lambda>(found, s3).
             case found of
               Some (ip, _) \<Rightarrow>
                 bind_res (iunlockput me dp s3) (\<lambda>s4.
                 bind_res (ilock me ip s4) (\<lambda>s5.
                   if type = T_FILE \<and> i_type (inodes s5 ! ip) = T_FILE then Inr (Some ip, s5)
                   else bind_res (iunlockput me ip s5) (\<lambda>s6. Inr (None, s6))))
             | None \<Rightarrow> create_new me dp name type major minor s3)))"

text \<open>The inode that \<open>open\<close> works on, locked, or \<open>None\<close> when the call fails.\<close>

definition open_inode :: "nat \<Rightarrow> u8 list \<Rightarrow> u32 \<Rightarrow> 'a ckernel_scheme \<Rightarrow> (nat option \<times> 'a ckernel_scheme) res" where
  "open_inode me path omode s =
     (if omode AND 0x200 \<noteq> 0 then create me path T_FILE 0 0 s
      else bind_res (namei me path s) (\<lambda>(found, s1).
             case found of
               None \<Rightarrow> Inr (None, s1)
             | Some ip \<Rightarrow>
                 bind_res (ilock me ip s1) (\<lambda>s2.
                   if i_type (inodes s2 ! ip) = T_DIR \<and> omode \<noteq> 0
                   then bind_res (iunlockput me ip s2) (\<lambda>s3. Inr (None, s3))
                   else Inr (Some ip, s2))))"

definition sys_open :: "nat \<Rightarrow> 'a fkernel_scheme \<Rightarrow> (sys_result \<times> 'a fkernel_scheme) res" where
  "sys_open me s =
     bind_res (argstr me 0 s) (\<lambda>a0.
     bind_res (case a0 of None \<Rightarrow> Inr None | Some _ \<Rightarrow> argint me 1 s) (\<lambda>a1.
       case (a0, a1) of
         (Some (_, path), Some omode) \<Rightarrow>
           bind_res (begin_op s) (\<lambda>s1.
           bind_res (open_inode me path omode s1) (\<lambda>(found, s2).
             case found of
               None \<Rightarrow> ends_op me (-1) s2
             | Some ip \<Rightarrow>
                 (case filealloc s2 of
                    (None, s3) \<Rightarrow> bind_res (iunlockput me ip s3) (ends_op me (-1))
                  | (Some f, s3) \<Rightarrow>
                      (case fdalloc me f s3 of
                         (None, s4) \<Rightarrow>
                           bind_res (fileclose me f s4) (\<lambda>s5. bind_res (iunlockput me ip s5) (ends_op me (-1)))
                       | (Some fd, s4) \<Rightarrow>
                           bind_res (iunlock me ip s4) (\<lambda>s5.
                           bind_res (end_op me s5) (\<lambda>s6.
                             Inr (Ret (int fd),
                                  upd_file f (\<lambda>x. x\<lparr>f_type := FD_INODE, f_ip := ip, f_off := 0,
                                                    f_readable := (omode AND 1 = 0),
                                                    f_writable := (omode AND 1 \<noteq> 0 \<or> omode AND 2 \<noteq> 0)\<rparr>) s6)))))))
       | _ \<Rightarrow> Inr (Ret (-1), s)))"

definition sys_mkdir :: "nat \<Rightarrow> 'a fkernel_scheme \<Rightarrow> (sys_result \<times> 'a fkernel_scheme) res" where
  "sys_mkdir me s =
     bind_res (begin_op s) (\<lambda>s1.
     bind_res (argstr me 0 s1) (\<lambda>a.
     bind_res (case a of None \<Rightarrow> Inr (None, s1) | Some (_, path) \<Rightarrow> create me path T_DIR 0 0 s1) (\<lambda>(found, s2).
       case found of
         None \<Rightarrow> ends_op me (-1) s2
       | Some ip \<Rightarrow> bind_res (iunlockput me ip s2) (ends_op me 0))))"

definition sys_mknod :: "nat \<Rightarrow> 'a fkernel_scheme \<Rightarrow> (sys_result \<times> 'a fkernel_scheme) res" where
  "sys_mknod me s =
     bind_res (begin_op s) (\<lambda>s1.
     bind_res (argstr me 0 s1) (\<lambda>a.
     bind_res (case a of None \<Rightarrow> Inr None | Some _ \<Rightarrow> argint me 1 s1) (\<lambda>major.
     bind_res (case major of None \<Rightarrow> Inr None | Some _ \<Rightarrow> argint me 2 s1) (\<lambda>minor.
     bind_res (case (a, major, minor) of
                 (Some (_, path), Some ma, Some mi) \<Rightarrow> create me path T_DEV (ucast ma) (ucast mi) s1
               | _ \<Rightarrow> Inr (None, s1)) (\<lambda>(found, s2).
       case found of
         None \<Rightarrow> ends_op me (-1) s2
       | Some ip \<Rightarrow> bind_res (iunlockput me ip s2) (ends_op me 0))))))"

definition sys_chdir :: "nat \<Rightarrow> 'a fkernel_scheme \<Rightarrow> (sys_result \<times> 'a fkernel_scheme) res" where
  "sys_chdir me s =
     bind_res (begin_op s) (\<lambda>s1.
     bind_res (argstr me 0 s1) (\<lambda>a.
     bind_res (case a of None \<Rightarrow> Inr (None, s1) | Some (_, path) \<Rightarrow> namei me path s1) (\<lambda>(found, s2).
       case found of
         None \<Rightarrow> ends_op me (-1) s2
       | Some ip \<Rightarrow>
           bind_res (ilock me ip s2) (\<lambda>s3.
             if i_type (inodes s3 ! ip) \<noteq> T_DIR then bind_res (iunlockput me ip s3) (ends_op me (-1))
             else bind_res (iunlock me ip s3) (\<lambda>s4.
                    case p_cwd (ptable s4 ! me) of
                      None \<Rightarrow> Inl (Undefined ''chdir'')
                    | Some cwd \<Rightarrow>
                        bind_res (iput me cwd s4) (\<lambda>s5.
                        bind_res (end_op me s5) (\<lambda>s6.
                        Inr (Ret 0, upd_proc me (\<lambda>x. x\<lparr>p_cwd := Some ip\<rparr>) s6))))))))"

text \<open>The loop of \<open>sys_exec\<close> that collects the argument strings; \<open>k\<close> slots of \<open>argv\<close> are left.\<close>

primrec exec_argv :: "nat \<Rightarrow> nat \<Rightarrow> u32 \<Rightarrow> 'a kernel_scheme \<Rightarrow> u8 list list option res" where
  "exec_argv 0 me uargv s = Inr None"
| "exec_argv (Suc k) me uargv s =
     bind_res (fetchint me uargv s) (\<lambda>r.
       case r of
         None \<Rightarrow> Inr None
       | Some uarg \<Rightarrow>
           if uarg = 0 then Inr (Some [])
           else bind_res (fetchstr me uarg s) (\<lambda>t.
                  case t of
                    None \<Rightarrow> Inr None
                  | Some (_, bs) \<Rightarrow> bind_res (exec_argv k me (uargv + 4) s) (\<lambda>q. Inr (map_option (Cons bs) q))))"

definition sys_exec :: "nat \<Rightarrow> nat \<Rightarrow> 'a fkernel_scheme \<Rightarrow> (sys_result \<times> 'a fkernel_scheme) res" where
  "sys_exec c me s =
     bind_res (argstr me 0 s) (\<lambda>a0.
     bind_res (case a0 of None \<Rightarrow> Inr None | Some _ \<Rightarrow> argint me 1 s) (\<lambda>a1.
       case (a0, a1) of
         (Some (_, path), Some uargv) \<Rightarrow>
           bind_res (exec_argv MAXARG me uargv s) (\<lambda>argv.
             case argv of
               None \<Rightarrow> Inr (Ret (-1), s)
             | Some as \<Rightarrow> bind_res (exec c me path as s) (\<lambda>(r, s1). Inr (Ret r, s1)))
       | _ \<Rightarrow> Inr (Ret (-1), s)))"

definition sys_pipe :: "nat \<Rightarrow> 'a fkernel_scheme \<Rightarrow> (sys_result \<times> 'a fkernel_scheme) res" where
  "sys_pipe me s =
     bind_res (argptr me 0 8 s) (\<lambda>p.
       case p of
         None \<Rightarrow> Inr (Ret (-1), s)
       | Some fd \<Rightarrow>
           bind_res (pipealloc me s) (\<lambda>(pair, s1).
             case pair of
               None \<Rightarrow> Inr (Ret (-1), s1)
             | Some (rfile, wfile) \<Rightarrow>
                 let close_both = (\<lambda>s'. bind_res (fileclose me rfile s') (\<lambda>t. bind_res (fileclose me wfile t) (\<lambda>u. Inr (Ret (-1), u))))
                 in (case fdalloc me rfile s1 of
                       (None, s2) \<Rightarrow> close_both s2
                     | (Some fd0, s2) \<Rightarrow>
                         (case fdalloc me wfile s2 of
                            (None, s3) \<Rightarrow> close_both (upd_proc me (\<lambda>x. x\<lparr>p_ofile := (p_ofile x)[fd0 := None]\<rparr>) s3)
                          | (Some fd1, s3) \<Rightarrow>
                              bind_res (ustore32 (p_pgdir (ptable s3 ! me)) fd (of_nat fd0) s3) (\<lambda>s4.
                              bind_res (ustore32 (p_pgdir (ptable s4 ! me)) (fd + 4) (of_nat fd1) s4) (\<lambda>s5.
                              Inr (Ret 0, s5)))))))"

end
