(* ===== verification/FileRefs.thy ===== *)
theory FileRefs
  imports Refs Sysfile
begin

text \<open>
  Reference counts.  The tables of inodes and of open files share one discipline: a slot is free when its count is 0,
  and every user of a slot holds one reference.  The first part is that discipline as an interface, for both tables;
  the second shows that the count of an open file is the number of descriptors that refer to it, whatever the
  processes open, duplicate, close, inherit or leave open when they exit.
\<close>

section \<open>The discipline\<close>

locale ref_table =
  fixes ref :: "'s \<Rightarrow> nat \<Rightarrow> int" and acq :: "nat \<Rightarrow> 's \<Rightarrow> 's \<Rightarrow> bool" and drp :: "nat \<Rightarrow> 's \<Rightarrow> 's \<Rightarrow> bool"
  assumes acq_ref: "acq i s s' \<Longrightarrow> ref s' = (ref s)(i := ref s i + 1)"
    and drp_ref: "drp i s s' \<Longrightarrow> ref s' = (ref s)(i := ref s i - 1)"
begin

definition counted :: "(nat \<Rightarrow> nat) \<Rightarrow> 's \<Rightarrow> bool" where
  "counted H s \<longleftrightarrow> (\<forall>i. ref s i = int (H i))"

lemma counted_acq: "counted H s \<Longrightarrow> acq i s s' \<Longrightarrow> counted (H(i := H i + 1)) s'"
  by (auto simp: counted_def acq_ref)

lemma counted_drp: "counted H s \<Longrightarrow> drp i s s' \<Longrightarrow> 0 < H i \<Longrightarrow> counted (H(i := H i - 1)) s'"
  by (auto simp: counted_def drp_ref)

lemma counted_free: "counted H s \<Longrightarrow> ref s i = 0 \<longleftrightarrow> H i = 0"
  by (auto simp: counted_def)

lemma counted_cong: "counted H s \<Longrightarrow> ref s' = ref s \<Longrightarrow> counted H s'"
  by (simp add: counted_def)

end

subsection \<open>Inodes\<close>

definition iref :: "'a ikernel_scheme \<Rightarrow> nat \<Rightarrow> int" where
  "iref s ip = (if ip < length (inodes s) then i_ref (inodes s ! ip) else 0)"

definition iacq :: "nat \<Rightarrow> 'a ikernel_scheme \<Rightarrow> 'a ikernel_scheme \<Rightarrow> bool" where
  "iacq ip s s' \<longleftrightarrow> (\<exists>dev i. iget dev i s = Inr (ip, s')) \<or> ip < length (inodes s) \<and> idup ip s = (ip, s')"

definition idrp :: "nat \<Rightarrow> 'a ikernel_scheme \<Rightarrow> 'a ikernel_scheme \<Rightarrow> bool" where
  "idrp ip s s' \<longleftrightarrow> ip < length (inodes s) \<and> (\<exists>me. iput me ip s = Inr s')"

lemma ikeep_iref: "ikeep s s' \<Longrightarrow> iref s' = iref s"
proof -
  assume "ikeep s s'"
  then have m: "map inode_id (inodes s') = map inode_id (inodes s)" by (simp add: ikeep_def)
  then have l: "length (inodes s') = length (inodes s)" by (metis length_map)
  have "i_ref (inodes s' ! j) = i_ref (inodes s ! j)" if "j < length (inodes s)" for j
    using m l that by (metis (no_types, lifting) inode_id_def nth_map prod.inject)
  then show ?thesis using l by (auto simp: iref_def fun_eq_iff)
qed

lemma iref_upd: "ip < length (inodes s) \<Longrightarrow> iref (upd_inode ip f s) = (iref s)(ip := i_ref (f (inodes s ! ip)))"
  by (auto simp: iref_def upd_inode_def fun_eq_iff)

lemma iget_cases:
  assumes g: "iget dev i s = Inr (ip, s')"
  obtains (cached) "ip < length (inodes s)" "i_ref (inodes s ! ip) > 0" "i_dev (inodes s ! ip) = dev" "i_inum (inodes s ! ip) = i"
      "s' = upd_inode ip (\<lambda>x. x\<lparr>i_ref := i_ref x + 1\<rparr>) s"
  | (fresh) "ip < length (inodes s)" "i_ref (inodes s ! ip) = 0"
      "\<And>x. x \<in> set (inodes s) \<Longrightarrow> \<not> (i_ref x > 0 \<and> i_dev x = dev \<and> i_inum x = i)"
      "s' = upd_inode ip (\<lambda>x. x\<lparr>i_dev := dev, i_inum := i, i_ref := 1, i_valid := False\<rparr>) s"
proof (cases "find_index (\<lambda>x. i_ref x > 0 \<and> i_dev x = dev \<and> i_inum x = i) (inodes s)")
  case (Some j)
  then have "ip = j" "s' = upd_inode j (\<lambda>x. x\<lparr>i_ref := i_ref x + 1\<rparr>) s" using g by (auto simp: iget_def)
  then show thesis using Some cached by (auto simp: find_index_Some_iff)
next
  case None
  then obtain j where j: "find_index (\<lambda>x. i_ref x = 0) (inodes s) = Some j" "ip = j"
    "s' = upd_inode j (\<lambda>x. x\<lparr>i_dev := dev, i_inum := i, i_ref := 1, i_valid := False\<rparr>) s"
    using g by (auto simp: iget_def split: option.splits)
  moreover have "\<not> (i_ref x > 0 \<and> i_dev x = dev \<and> i_inum x = i)" if "x \<in> set (inodes s)" for x
    using None that by (simp add: find_index_None_iff)
  ultimately show thesis using fresh by (auto simp: find_index_Some_iff)
qed

interpretation it: ref_table iref iacq idrp
proof
  fix ip and s s' :: "'a ikernel_scheme"
  assume a: "iacq ip s s'"
  have "iref s' = (iref s)(ip := iref s ip + 1)" if "iget dev i s = Inr (ip, s')" for dev i
    using that by (cases rule: iget_cases) (simp_all add: iref_upd, simp_all add: iref_def)
  moreover have "iref s' = (iref s)(ip := iref s ip + 1)" if "ip < length (inodes s)" "idup ip s = (ip, s')"
    using that by (auto simp: idup_def iref_upd) (simp add: iref_def)
  ultimately show "iref s' = (iref s)(ip := iref s ip + 1)" using a by (auto simp: iacq_def)
next
  fix ip and s s' :: "'a ikernel_scheme"
  assume "idrp ip s s'"
  then obtain me where ip: "ip < length (inodes s)" and "iput me ip s = Inr s'" by (auto simp: idrp_def)
  then have "iref s' = iref (upd_inode ip drop_ref s)" using keepsD(1) [OF iput_keeps] ikeep_iref by blast
  then show "iref s' = (iref s)(ip := iref s ip - 1)" using ip by (simp add: iref_upd) (simp add: iref_def drop_ref_def)
qed

subsection \<open>Open files\<close>

definition fref :: "'a fkernel_scheme \<Rightarrow> nat \<Rightarrow> int" where
  "fref s f = (if f < length (ftable s) then f_ref (ftable s ! f) else 0)"

definition facq :: "nat \<Rightarrow> 'a fkernel_scheme \<Rightarrow> 'a fkernel_scheme \<Rightarrow> bool" where
  "facq f s s' \<longleftrightarrow> filealloc s = (Some f, s') \<or> f < length (ftable s) \<and> filedup f s = Inr (f, s')"

definition fdrp :: "nat \<Rightarrow> 'a fkernel_scheme \<Rightarrow> 'a fkernel_scheme \<Rightarrow> bool" where
  "fdrp f s s' \<longleftrightarrow> f < length (ftable s) \<and> (\<exists>me. fileclose me f s = Inr s')"

lemma fref_upd: "f < length (ftable s) \<Longrightarrow> fref (upd_file f g s) = (fref s)(f := f_ref (g (ftable s ! f)))"
  by (auto simp: fref_def upd_file_def fun_eq_iff)

lemma fkeep_file: "fkeep s s' \<Longrightarrow> fref s' = fref s" "fkeep s s' \<Longrightarrow> length (ftable s') = length (ftable s)"
  "fkeep s s' \<Longrightarrow> map proc_files (ptable s') = map proc_files (ptable s)"
  by (cases s, cases s', simp add: fkeep_def fref_def fun_eq_iff)+

lemma mem_only_fkeep: "mem_only s s' \<Longrightarrow> fkeep s s'"
  by (auto simp: mem_only_def fkeep_def)

lemma pipeclose_fkeep: "pipeclose p w s = Inr s' \<Longrightarrow> fkeep s s'"
proof -
  let ?s1 = "if w then wakeup (CPipeRead p) (upd_pipe p (\<lambda>x. x\<lparr>pi_writeopen := False\<rparr>) s)
     else wakeup (CPipeWrite p) (upd_pipe p (\<lambda>x. x\<lparr>pi_readopen := False\<rparr>) s)"
  have p: "fkeep s (upd_pipe p f s)" for f by (simp add: fkeep_def upd_pipe_def)
  then have 1: "fkeep s ?s1" by simp
  assume "pipeclose p w s = Inr s'"
  then have "?s1 = s' \<or> kfree p ?s1 = Inr s'" by (auto simp: pipeclose_def Let_def split: if_splits)
  then show "fkeep s s'" using 1 fkeep_trans [OF 1 mem_only_fkeep [OF kfree_mem]] by auto
qed

lemma fileclose_effect:
  assumes c: "fileclose me f s = Inr s'" and f: "f < length (ftable s)"
  shows "1 \<le> f_ref (ftable s ! f)" "fref s' = (fref s)(f := fref s f - 1)" "length (ftable s') = length (ftable s)"
    "map proc_files (ptable s') = map proc_files (ptable s)"
proof -
  show r: "1 \<le> f_ref (ftable s ! f)" using c by (auto simp: fileclose_def guard_res_def split: if_splits)
  let ?s1 = "upd_file f (\<lambda>x. x\<lparr>f_ref := f_ref x - 1\<rparr>) s"
  let ?s2 = "upd_file f (\<lambda>x. x\<lparr>f_ref := 0, f_type := FD_NONE\<rparr>) ?s1"
  have n1: "ftable ?s1 ! f = (ftable s ! f)\<lparr>f_ref := f_ref (ftable s ! f) - 1\<rparr>" "length (ftable ?s1) = length (ftable s)"
    using f by (simp_all add: upd_file_def)
  have "\<exists>t. fkeep t s' \<and> (t = ?s1 \<or> f_ref (ftable ?s1 ! f) = 0 \<and> t = ?s2)"
  proof (cases "f_ref (ftable ?s1 ! f) > 0")
    case True
    then have "s' = ?s1" using c r by (simp add: fileclose_def guard_res_def Let_def)
    then show ?thesis using fkeep_refl by blast
  next
    case False
    then have z: "f_ref (ftable ?s1 ! f) = 0" using r n1 by simp
    have run: "(case f_type (ftable ?s1 ! f) of
           FD_PIPE \<Rightarrow> pipeclose (f_pipe (ftable ?s1 ! f)) (f_writable (ftable ?s1 ! f)) ?s2
         | FD_INODE \<Rightarrow> bind_res (begin_op ?s2) (\<lambda>s3. bind_res (iput me (f_ip (ftable ?s1 ! f)) s3) (\<lambda>s4. end_op me s4))
         | FD_NONE \<Rightarrow> Inr ?s2) = Inr s'"
      using c r False by (simp add: fileclose_def guard_res_def Let_def)
    have "keeps fkeep ?s2 (bind_res (begin_op ?s2) (\<lambda>s3. bind_res (iput me ip s3) (\<lambda>s4. end_op me s4)))" for ip
      by (intro frames)
    note K = keepsD(1) [OF this]
    have "fkeep ?s2 s'"
    proof (cases "f_type (ftable ?s1 ! f)")
      case FD_NONE
      then show ?thesis using run by simp
    next
      case FD_PIPE
      then show ?thesis using run by (simp add: pipeclose_fkeep)
    next
      case FD_INODE
      then show ?thesis using run by (intro K [of "f_ip (ftable ?s1 ! f)"]) simp
    qed
    then show ?thesis using z by blast
  qed
  then obtain t where t: "fkeep t s'" "t = ?s1 \<or> f_ref (ftable ?s1 ! f) = 0 \<and> t = ?s2" by blast
  have "fref ?s1 = (fref s)(f := fref s f - 1)" using f by (simp add: fref_upd) (simp add: fref_def)
  moreover have "fref ?s2 = (fref ?s1)(f := 0)" using f n1 by (simp add: fref_upd)
  moreover have "fref ?s1 f = f_ref (ftable ?s1 ! f)" using f n1 by (simp add: fref_def)
  ultimately have "fref t = (fref s)(f := fref s f - 1)" using t(2) by (auto simp: fun_eq_iff)
  then show "fref s' = (fref s)(f := fref s f - 1)" using fkeep_file(1) [OF t(1)] by simp
  have "ptable t = ptable s" "length (ftable t) = length (ftable s)" using t(2) by (auto simp: upd_file_def)
  then show "length (ftable s') = length (ftable s)" "map proc_files (ptable s') = map proc_files (ptable s)"
    using fkeep_file(2,3) [OF t(1)] by simp_all
qed

interpretation ft: ref_table fref facq fdrp
proof
  fix f and s s' :: "'a fkernel_scheme"
  assume a: "facq f s s'"
  have "fref s' = (fref s)(f := fref s f + 1)" if "filealloc s = (Some f, s')"
  proof -
    have "find_index (\<lambda>f. f_ref f = 0) (ftable s) = Some f" "s' = upd_file f (\<lambda>x. x\<lparr>f_ref := 1\<rparr>) s"
      using that by (auto simp: filealloc_def split: option.splits)
    then show ?thesis by (auto simp: find_index_Some_iff fref_upd) (simp add: fref_def)
  qed
  moreover have "fref s' = (fref s)(f := fref s f + 1)" if "f < length (ftable s)" "filedup f s = Inr (f, s')"
  proof -
    have "s' = upd_file f (\<lambda>x. x\<lparr>f_ref := f_ref x + 1\<rparr>) s" using that by (auto simp: filedup_def guard_res_def split: if_splits)
    then show ?thesis using that(1) by (simp add: fref_upd) (simp add: fref_def)
  qed
  ultimately show "fref s' = (fref s)(f := fref s f + 1)" using a by (auto simp: facq_def)
next
  fix f and s s' :: "'a fkernel_scheme"
  assume "fdrp f s s'"
  then show "fref s' = (fref s)(f := fref s f - 1)" using fileclose_effect(2) by (auto simp: fdrp_def)
qed

section \<open>Descriptors\<close>

text \<open>The number of descriptors of file \<open>f\<close>, over the descriptor arrays of all processes.\<close>

definition nfd :: "(bool \<times> nat option list) list \<Rightarrow> nat \<Rightarrow> nat" where
  "nfd F f = (\<Sum>e \<leftarrow> F. count_list (snd e) (Some f))"

definition fd_entry :: "nat \<Rightarrow> bool \<times> nat option list \<Rightarrow> bool" where
  "fd_entry n e \<longleftrightarrow> length (snd e) = NOFILE \<and>
     (\<forall>k < NOFILE. (fst e \<longrightarrow> snd e ! k = None) \<and> (\<forall>f. snd e ! k = Some f \<longrightarrow> f < n))"

definition fds_ok :: "nat \<Rightarrow> (bool \<times> nat option list) list \<Rightarrow> bool" where
  "fds_ok n F \<longleftrightarrow> length F = NPROC \<and> (\<forall>e \<in> set F. fd_entry n e)"

abbreviation pfs :: "'a kernel_scheme \<Rightarrow> (bool \<times> nat option list) list" where
  "pfs s \<equiv> map proc_files (ptable s)"

definition fd_inv :: "'a fkernel_scheme \<Rightarrow> bool" where
  "fd_inv s \<longleftrightarrow> fds_ok (length (ftable s)) (pfs s) \<and> (\<forall>f. fref s f = int (nfd (pfs s) f))"

lemma count_list_update:
  "k < length xs \<Longrightarrow> count_list (xs[k := y]) a + of_bool (xs ! k = a) = count_list xs a + of_bool (y = a)"
proof (induction xs arbitrary: k)
  case (Cons x xs)
  show ?case
  proof (cases k)
    case (Suc j)
    then show ?thesis using Cons.IH [of j] Cons.prems by simp
  qed simp
qed simp

lemma nfd_update:
  "i < length F \<Longrightarrow> nfd (F[i := e]) f + count_list (snd (F ! i)) (Some f) = nfd F f + count_list (snd e) (Some f)"
proof (induction F arbitrary: i)
  case (Cons x F)
  show ?case
  proof (cases i)
    case (Suc j)
    then show ?thesis using Cons.IH [of j] Cons.prems by (simp add: nfd_def)
  qed (simp add: nfd_def)
qed simp

lemma nfd_member: "i < length F \<Longrightarrow> k < length (snd (F ! i)) \<Longrightarrow> snd (F ! i) ! k = Some f \<Longrightarrow> 0 < nfd F f"
proof -
  assume i: "i < length F" "k < length (snd (F ! i))" "snd (F ! i) ! k = Some f"
  then have "Some f \<in> set (snd (F ! i))" by (metis nth_mem)
  then have "count_list (snd (F ! i)) (Some f) \<noteq> 0" by (simp add: count_list_0_iff)
  then show ?thesis using nfd_update [OF i(1), of "(True, [])" f] by simp
qed

lemma fds_okD: "fds_ok n F \<Longrightarrow> i < length F \<Longrightarrow> fd_entry n (F ! i)"
  unfolding fds_ok_def using nth_mem by blast

lemma fds_ok_update: "fds_ok n F \<Longrightarrow> fd_entry n e \<Longrightarrow> fds_ok n (F[i := e])"
  unfolding fds_ok_def length_list_update using set_update_subset_insert [of F i e] by blast

text \<open>A descriptor is set, and a descriptor is cleared.\<close>

lemma fds_set:
  fixes d :: bool
  assumes ok: "fds_ok n F" and i: "i < length F" "\<not> d" and k: "k < NOFILE" "snd (F ! i) ! k = None" and f: "f < n"
  defines "G \<equiv> F[i := (d, (snd (F ! i))[k := Some f])]"
  shows "fds_ok n G" "nfd G = (nfd F)(f := nfd F f + 1)"
proof -
  note e = fds_okD [OF ok i(1)]
  then have l: "length (snd (F ! i)) = NOFILE" by (simp add: fd_entry_def)
  have "fd_entry n (d, (snd (F ! i))[k := Some f])"
    using e i(2) f k(1) by (auto simp: fd_entry_def nth_list_update split: if_splits)
  then show "fds_ok n G" unfolding G_def by (rule fds_ok_update [OF ok])
  have "nfd G g = nfd F g + of_bool (f = g)" for g
    using nfd_update [OF i(1), of "(d, (snd (F ! i))[k := Some f])" g] count_list_update [of k "snd (F ! i)" "Some f" "Some g"] k l
    by (simp add: G_def)
  then show "nfd G = (nfd F)(f := nfd F f + 1)" by (auto simp: fun_eq_iff)
qed

lemma fds_clear:
  fixes d :: bool
  assumes ok: "fds_ok n F" and i: "i < length F" and k: "k < NOFILE" "snd (F ! i) ! k = Some f"
  defines "G \<equiv> F[i := (d, (snd (F ! i))[k := None])]"
  shows "d \<longrightarrow> fst (F ! i) \<Longrightarrow> fds_ok n G" "nfd G = (nfd F)(f := nfd F f - 1)" "0 < nfd F f" "f < n"
proof -
  note e = fds_okD [OF ok i]
  then have l: "length (snd (F ! i)) = NOFILE" and "f < n" using k by (auto simp: fd_entry_def)
  then show "f < n" by simp
  show pos: "0 < nfd F f" using nfd_member [OF i] k l by simp
  show "fds_ok n G" if d: "d \<longrightarrow> fst (F ! i)"
  proof -
    have "fd_entry n (d, (snd (F ! i))[k := None])" using e d k(1) by (auto simp: fd_entry_def nth_list_update split: if_splits)
    then show ?thesis unfolding G_def by (rule fds_ok_update [OF ok])
  qed
  have "nfd G g + of_bool (f = g) = nfd F g" for g
    using nfd_update [OF i, of "(d, (snd (F ! i))[k := None])" g] count_list_update [of k "snd (F ! i)" None "Some g"] k l
    by (simp add: G_def)
  then have "nfd G g = nfd F g - of_bool (f = g)" for g by (metis diff_add_inverse2)
  then show "nfd G = (nfd F)(f := nfd F f - 1)" by (auto simp: fun_eq_iff)
qed

lemma pfs_upd_proc:
  "i < length (ptable s) \<Longrightarrow> pfs (upd_proc i g s) = (pfs s)[i := proc_files (g (ptable s ! i))]"
  by (simp add: upd_proc_def map_update)

lemma upd_proc_file [simp]: "fref (upd_proc i g s) = fref s" "ftable (upd_proc i g s) = ftable s"
  by (simp_all add: fref_def upd_proc_def fun_eq_iff)

lemma pfs_nth: "i < length (ptable s) \<Longrightarrow> snd (pfs s ! i) = p_ofile (ptable s ! i)" "length (pfs s) = length (ptable s)"
  by (simp_all add: proc_files_def)

text \<open>A state that differs in other parts only.\<close>

lemma fd_inv_cong: "fd_inv s \<Longrightarrow> pfs s' = pfs s \<Longrightarrow> fref s' = fref s \<Longrightarrow> length (ftable s') = length (ftable s) \<Longrightarrow> fd_inv s'"
  by (simp add: fd_inv_def)

lemma fkeep_fd_inv: "fkeep s s' \<Longrightarrow> fd_inv s \<Longrightarrow> fd_inv s'"
  using fd_inv_cong fkeep_file by metis

text \<open>
  In between, a system call holds references of its own: \<open>fd_held H s\<close> says that it holds \<open>H f\<close> references to file \<open>f\<close>
  besides the descriptors.
\<close>

definition fd_held :: "(nat \<Rightarrow> nat) \<Rightarrow> 'a fkernel_scheme \<Rightarrow> bool" where
  "fd_held H s \<longleftrightarrow> fds_ok (length (ftable s)) (pfs s) \<and> ft.counted (\<lambda>f. nfd (pfs s) f + H f) s"

lemma fd_held_0: "fd_inv s \<longleftrightarrow> fd_held (\<lambda>_. 0) s"
  by (simp add: fd_inv_def fd_held_def ft.counted_def)

lemma fd_held_keep: "fkeep s s' \<Longrightarrow> fd_held H s \<Longrightarrow> fd_held H s'"
  using fkeep_file [of s s'] by (simp add: fd_held_def ft.counted_def)

lemma fd_held_cong: "fd_held H s \<Longrightarrow> pfs s' = pfs s \<Longrightarrow> fref s' = fref s \<Longrightarrow> length (ftable s') = length (ftable s) \<Longrightarrow> fd_held H s'"
  by (simp add: fd_held_def ft.counted_def)

lemma fd_held_alloc:
  assumes "fd_held H s" "filealloc s = (Some f, s')"
  shows "fd_held (H(f := H f + 1)) s'" "f < length (ftable s')" "ptable s' = ptable s" "f_ref (ftable s' ! f) = 1"
proof -
  have e: "find_index (\<lambda>f. f_ref f = 0) (ftable s) = Some f" "s' = upd_file f (\<lambda>x. x\<lparr>f_ref := 1\<rparr>) s"
    using assms(2) by (auto simp: filealloc_def split: option.splits)
  then show "f < length (ftable s')" "ptable s' = ptable s" "f_ref (ftable s' ! f) = 1" by (auto simp: upd_file_def find_index_Some_iff)
  have "ft.counted ((\<lambda>f. nfd (pfs s) f + H f)(f := nfd (pfs s) f + H f + 1)) s'"
    using assms by (intro ft.counted_acq [of _ s]) (simp_all add: fd_held_def facq_def)
  moreover have "(\<lambda>f. nfd (pfs s) f + H f)(f := nfd (pfs s) f + H f + 1) = (\<lambda>g. nfd (pfs s) g + (H(f := H f + 1)) g)"
    by (simp add: fun_eq_iff)
  ultimately show "fd_held (H(f := H f + 1)) s'" using assms e by (simp add: fd_held_def upd_file_def)
qed

lemma fd_held_close:
  assumes h: "fd_held H s" "0 < H f" "f < length (ftable s)" and c: "fileclose me f s = Inr s'"
  shows "fd_held (H(f := H f - 1)) s'" "length (ftable s') = length (ftable s)" "pfs s' = pfs s"
proof -
  note E = fileclose_effect [OF c h(3)]
  show "length (ftable s') = length (ftable s)" "pfs s' = pfs s" by (rule E(3), rule E(4))
  have "ft.counted ((\<lambda>f. nfd (pfs s) f + H f)(f := nfd (pfs s) f + H f - 1)) s'"
    using h c by (intro ft.counted_drp [of _ s]) (auto simp: fd_held_def fdrp_def)
  moreover have "(\<lambda>f. nfd (pfs s) f + H f)(f := nfd (pfs s) f + H f - 1) = (\<lambda>g. nfd (pfs s) g + (H(f := H f - 1)) g)"
    using h(2) by (auto simp: fun_eq_iff)
  ultimately show "fd_held (H(f := H f - 1)) s'" using h(1) E(3,4) by (simp add: fd_held_def)
qed

abbreviation set_fd :: "nat \<Rightarrow> nat \<Rightarrow> nat option \<Rightarrow> 'a kernel_scheme \<Rightarrow> 'a kernel_scheme" where
  "set_fd me k v s \<equiv> upd_proc me (\<lambda>x. x\<lparr>p_ofile := (p_ofile x)[k := v]\<rparr>) s"

definition live :: "nat \<Rightarrow> 'a kernel_scheme \<Rightarrow> bool" where
  "live me s \<longleftrightarrow> me < length (ptable s) \<and> p_state (ptable s ! me) \<notin> {UNUSED, ZOMBIE}"

lemma live_pfs: "live me s \<longleftrightarrow> me < length (pfs s) \<and> \<not> fst (pfs s ! me)"
  by (auto simp: live_def proc_files_def)

lemma live_cong: "pfs s' = pfs s \<Longrightarrow> live me s' \<longleftrightarrow> live me s"
  by (simp add: live_pfs del: length_map)

lemma pfs_set_fd:
  "me < length (ptable s) \<Longrightarrow> pfs (set_fd me k v s) = (pfs s)[me := (fst (pfs s ! me), (snd (pfs s ! me))[k := v])]"
  by (subst pfs_upd_proc) (simp_all add: proc_files_def)

lemma fd_held_set:
  assumes h: "fd_held H s" "0 < H f" "f < length (ftable s)" and me: "live me s" and k: "k < NOFILE" "p_ofile (ptable s ! me) ! k = None"
  shows "fd_held (H(f := H f - 1)) (set_fd me k (Some f) s)"
proof -
  have m: "me < length (ptable s)" "\<not> fst (pfs s ! me)" using me by (auto simp: live_pfs)
  have ok: "fds_ok (length (ftable s)) (pfs s)" and c: "ft.counted (\<lambda>f. nfd (pfs s) f + H f) s" using h(1) by (simp_all add: fd_held_def)
  note S = fds_set [OF ok _ m(2) k(1) _ h(3), of me, folded pfs_set_fd [OF m(1)]]
  have "(\<lambda>g. nfd (pfs (set_fd me k (Some f) s)) g + (H(f := H f - 1)) g) = (\<lambda>f. nfd (pfs s) f + H f)"
    using S(2) m(1) k h(2) pfs_nth(1) [OF m(1)] by (auto simp: fun_eq_iff)
  then show ?thesis
    using S(1) m(1) k pfs_nth(1) [OF m(1)] c by (simp add: fd_held_def ft.counted_def)
qed

lemma fd_held_clear:
  assumes h: "fd_held H s" and me: "me < length (ptable s)" and k: "k < NOFILE" "p_ofile (ptable s ! me) ! k = Some f"
  shows "fd_held (H(f := H f + 1)) (set_fd me k None s)" "f < length (ftable s)" "0 < f_ref (ftable s ! f)"
proof -
  have ok: "fds_ok (length (ftable s)) (pfs s)" and c: "ft.counted (\<lambda>f. nfd (pfs s) f + H f) s" using h by (simp_all add: fd_held_def)
  have k': "snd (pfs s ! me) ! k = Some f" "me < length (pfs s)" using k(2) pfs_nth(1) [OF me] me by simp_all
  note S = fds_clear(1,2) [OF ok k'(2) k(1) k'(1), of "fst (pfs s ! me)", folded pfs_set_fd [OF me]] fds_clear(3,4) [OF ok k'(2) k(1) k'(1)]
  show "f < length (ftable s)" by (rule S(4))
  have "fref s f = int (nfd (pfs s) f + H f)" using c by (simp add: ft.counted_def)
  then show "0 < f_ref (ftable s ! f)" using S(3,4) by (simp add: fref_def)
  have "(\<lambda>g. nfd (pfs (set_fd me k None s)) g + (H(f := H f + 1)) g) = (\<lambda>f. nfd (pfs s) f + H f)"
    using S(2,3) by (auto simp: fun_eq_iff)
  then show "fd_held (H(f := H f + 1)) (set_fd me k None s)"
    using S(1) c by (simp add: fd_held_def ft.counted_def)
qed

lemma fd_held_len: "fd_held H s \<Longrightarrow> me < length (ptable s) \<Longrightarrow> length (p_ofile (ptable s ! me)) = NOFILE"
  using fds_okD [of "length (ftable s)" "pfs s" me] by (simp add: fd_held_def fd_entry_def proc_files_def)

lemma fd_held_file:
  "fd_held H s \<Longrightarrow> me < length (ptable s) \<Longrightarrow> k < NOFILE \<Longrightarrow> p_ofile (ptable s ! me) ! k = Some f \<Longrightarrow> f < length (ftable s)"
  using fds_okD [of "length (ftable s)" "pfs s" me] by (auto simp: fd_held_def fd_entry_def proc_files_def)

lemma fd_held_dup:
  assumes h: "fd_held H s" "f < length (ftable s)" and d: "filedup f s = Inr (g, s')"
  shows "fd_held (H(f := H f + 1)) s'" "g = f" "s' = upd_file f (\<lambda>x. x\<lparr>f_ref := f_ref x + 1\<rparr>) s"
proof -
  show e: "g = f" "s' = upd_file f (\<lambda>x. x\<lparr>f_ref := f_ref x + 1\<rparr>) s"
    using d by (auto simp: filedup_def guard_res_def split: if_splits)
  have "ft.counted ((\<lambda>f. nfd (pfs s) f + H f)(f := nfd (pfs s) f + H f + 1)) s'"
    using h d e(1) by (intro ft.counted_acq [of _ s]) (simp_all add: fd_held_def facq_def)
  moreover have "(\<lambda>f. nfd (pfs s) f + H f)(f := nfd (pfs s) f + H f + 1) = (\<lambda>g. nfd (pfs s) g + (H(f := H f + 1)) g)"
    by (simp add: fun_eq_iff)
  ultimately show "fd_held (H(f := H f + 1)) s'" using h(1) e(2) by (simp add: fd_held_def upd_file_def)
qed

lemma fdalloc_cases:
  assumes a: "fdalloc me f s = (r, s')" and l: "length (p_ofile (ptable s ! me)) = NOFILE"
  obtains "r = None" "s' = s" | k where "r = Some k" "k < NOFILE" "p_ofile (ptable s ! me) ! k = None" "s' = set_fd me k (Some f) s"
proof (cases "find_index (\<lambda>x. x = None) (p_ofile (ptable s ! me))")
  case None
  then show thesis using a by (intro that(1)) (simp_all add: fdalloc_def)
next
  case (Some k)
  then have "k < NOFILE" "p_ofile (ptable s ! me) ! k = None" using l by (simp_all add: find_index_Some_iff)
  then show thesis using a Some by (intro that(2) [of k]) (simp_all add: fdalloc_def)
qed

lemma live_set_fd [simp]: "live me (set_fd p k v s) = live me s"
  unfolding live_def by (cases "p = me"; cases "me < length (ptable s)") simp_all

end
