(* ===== verification/Trap.thy ===== *)
theory Trap
  imports Sysfile
begin

text \<open>
  kernel/sysproc.c, the dispatcher of kernel/syscall.c and kernel/trap.c.  \<open>c\<close> is the processor that runs the
  handler, \<open>me\<close> the process whose system call it serves.
\<close>

section \<open>Process system calls\<close>

definition outcome_result :: "int outcome \<Rightarrow> sys_result" where
  "outcome_result r = (case r of Returns v \<Rightarrow> Ret v | Blocks \<Rightarrow> Sleeps 0)"

definition sys_fork :: "nat \<Rightarrow> 'a fkernel_scheme \<Rightarrow> (sys_result \<times> 'a fkernel_scheme) res" where
  "sys_fork me s = bind_res (fork me s) (\<lambda>(r, s1). Inr (Ret r, s1))"

definition sys_exit :: "nat \<Rightarrow> 'a fkernel_scheme \<Rightarrow> (sys_result \<times> 'a fkernel_scheme) res" where
  "sys_exit me s = bind_res (exit_proc me s) (\<lambda>s1. Inr (Exited, s1))"

definition sys_wait :: "nat \<Rightarrow> 'a kernel_scheme \<Rightarrow> (sys_result \<times> 'a kernel_scheme) res" where
  "sys_wait me s = bind_res (wait_proc me s) (\<lambda>(r, s1). Inr (outcome_result r, s1))"

text \<open>A call with one or two integer arguments.\<close>

definition with_int :: "nat \<Rightarrow> nat \<Rightarrow> (int \<Rightarrow> 'a kernel_scheme \<Rightarrow> (sys_result \<times> 'a kernel_scheme) res) \<Rightarrow>
    'a kernel_scheme \<Rightarrow> (sys_result \<times> 'a kernel_scheme) res" where
  "with_int me n k s = bind_res (argint me n s) (\<lambda>r. case r of None \<Rightarrow> Inr (Ret (-1), s) | Some v \<Rightarrow> k (sint v) s)"

definition sys_kill :: "nat \<Rightarrow> 'a kernel_scheme \<Rightarrow> (sys_result \<times> 'a kernel_scheme) res" where
  "sys_kill me = with_int me 0 (\<lambda>pid s. case kill pid s of (r, s1) \<Rightarrow> Inr (Ret r, s1))"

definition sys_getpid :: "nat \<Rightarrow> 'a kernel_scheme \<Rightarrow> (sys_result \<times> 'a kernel_scheme) res" where
  "sys_getpid me s = Inr (Ret (p_pid (ptable s ! me)), s)"

definition sys_sbrk :: "nat \<Rightarrow> nat \<Rightarrow> 'a kernel_scheme \<Rightarrow> (sys_result \<times> 'a kernel_scheme) res" where
  "sys_sbrk c me =
     with_int me 0 (\<lambda>n s.
       let addr = sint (p_sz (ptable s ! me))
       in bind_res (growproc c me n s) (\<lambda>(r, s1). Inr (Ret (if r < 0 then -1 else addr), s1)))"

text \<open>
  One round of the loop of \<open>sys_sleep\<close>, entered at tick \<open>ticks0\<close>: the comparison is one of unsigned numbers.
\<close>

definition sleep_round :: "nat \<Rightarrow> u32 \<Rightarrow> int \<Rightarrow> 'a kernel_scheme \<Rightarrow> int outcome \<times> 'a kernel_scheme" where
  "sleep_round me ticks0 n s =
     (if ticks s - ticks0 < of_int n
      then if p_killed (ptable s ! me) then (Returns (-1), s) else (Blocks, sleep_on me CTicks s)
      else (Returns 0, s))"

definition sys_sleep :: "nat \<Rightarrow> 'a kernel_scheme \<Rightarrow> (sys_result \<times> 'a kernel_scheme) res" where
  "sys_sleep me =
     with_int me 0 (\<lambda>n s. case sleep_round me (ticks s) n s of (r, s1) \<Rightarrow> Inr (outcome_result r, s1))"

definition sys_uptime :: "'a kernel_scheme \<Rightarrow> (sys_result \<times> 'a kernel_scheme) res" where
  "sys_uptime s = Inr (Ret (sint (ticks s)), s)"

definition sys_waitx :: "nat \<Rightarrow> 'a kernel_scheme \<Rightarrow> (sys_result \<times> 'a kernel_scheme) res" where
  "sys_waitx me s =
     bind_res (argptr me 0 4 s) (\<lambda>pw.
     bind_res (case pw of None \<Rightarrow> Inr None | Some _ \<Rightarrow> argptr me 1 4 s) (\<lambda>pr.
       case (pw, pr) of
         (Some w, Some r) \<Rightarrow> bind_res (waitx me w r s) (\<lambda>(v, s1). Inr (outcome_result v, s1))
       | _ \<Rightarrow> Inr (Ret (-1), s)))"

definition sys_getgroup :: "nat \<Rightarrow> 'a kernel_scheme \<Rightarrow> (sys_result \<times> 'a kernel_scheme) res" where
  "sys_getgroup me = with_int me 0 (\<lambda>pid s. Inr (Ret (getgroup_k pid s), s))"

definition sys_setgroup :: "nat \<Rightarrow> 'a kernel_scheme \<Rightarrow> (sys_result \<times> 'a kernel_scheme) res" where
  "sys_setgroup me =
     with_int me 0 (\<lambda>pid. with_int me 1 (\<lambda>gid s. case setgroup_k pid gid s of (r, s1) \<Rightarrow> Inr (Ret r, s1)))"

section \<open>The dispatcher\<close>

datatype sysno =
    SYS_fork | SYS_exit | SYS_wait | SYS_pipe | SYS_read | SYS_kill | SYS_exec | SYS_fstat | SYS_chdir | SYS_dup
  | SYS_getpid | SYS_sbrk | SYS_sleep | SYS_uptime | SYS_open | SYS_write | SYS_mknod | SYS_unlink | SYS_link
  | SYS_mkdir | SYS_close | SYS_waitx | SYS_setgroup | SYS_getgroup

text \<open>The table \<open>syscalls\<close>: the numbers of kernel/syscall.h that have an entry.\<close>

definition syscalls :: "(int \<times> sysno) list" where
  "syscalls =
     [(1, SYS_fork), (2, SYS_exit), (3, SYS_wait), (4, SYS_pipe), (5, SYS_read), (6, SYS_kill), (7, SYS_exec),
      (8, SYS_fstat), (9, SYS_chdir), (10, SYS_dup), (11, SYS_getpid), (12, SYS_sbrk), (13, SYS_sleep),
      (14, SYS_uptime), (15, SYS_open), (16, SYS_write), (17, SYS_mknod), (18, SYS_unlink), (19, SYS_link),
      (20, SYS_mkdir), (21, SYS_close), (24, SYS_waitx), (25, SYS_setgroup), (26, SYS_getgroup)]"

primrec run_syscall :: "nat \<Rightarrow> nat \<Rightarrow> sysno \<Rightarrow> 'a fkernel_scheme \<Rightarrow> (sys_result \<times> 'a fkernel_scheme) res" where
  "run_syscall c me SYS_fork s = sys_fork me s"
| "run_syscall c me SYS_exit s = sys_exit me s"
| "run_syscall c me SYS_wait s = sys_wait me s"
| "run_syscall c me SYS_pipe s = sys_pipe me s"
| "run_syscall c me SYS_read s = sys_read me s"
| "run_syscall c me SYS_kill s = sys_kill me s"
| "run_syscall c me SYS_exec s = sys_exec c me s"
| "run_syscall c me SYS_fstat s = sys_fstat me s"
| "run_syscall c me SYS_chdir s = sys_chdir me s"
| "run_syscall c me SYS_dup s = sys_dup me s"
| "run_syscall c me SYS_getpid s = sys_getpid me s"
| "run_syscall c me SYS_sbrk s = sys_sbrk c me s"
| "run_syscall c me SYS_sleep s = sys_sleep me s"
| "run_syscall c me SYS_uptime s = sys_uptime s"
| "run_syscall c me SYS_open s = sys_open me s"
| "run_syscall c me SYS_write s = sys_write me s"
| "run_syscall c me SYS_mknod s = sys_mknod me s"
| "run_syscall c me SYS_unlink s = sys_unlink me s"
| "run_syscall c me SYS_link s = sys_link me s"
| "run_syscall c me SYS_mkdir s = sys_mkdir me s"
| "run_syscall c me SYS_close s = sys_close me s"
| "run_syscall c me SYS_waitx s = sys_waitx me s"
| "run_syscall c me SYS_setgroup s = sys_setgroup me s"
| "run_syscall c me SYS_getgroup s = sys_getgroup me s"

definition set_eax :: "nat \<Rightarrow> int \<Rightarrow> 'a kernel_scheme \<Rightarrow> 'a kernel_scheme" where
  "set_eax me v s = s\<lparr>ram := wr32 (ram s) (p_tf (ptable s ! me) + 28) (of_int v)\<rparr>"

definition syscall :: "nat \<Rightarrow> nat \<Rightarrow> 'a fkernel_scheme \<Rightarrow> (sys_result \<times> 'a fkernel_scheme) res" where
  "syscall c me s =
     (let p = ptable s ! me; num = sint (rd32 (ram s) (p_tf p + 28))
      in case map_of syscalls num of
           Some call \<Rightarrow>
             bind_res (run_syscall c me call s) (\<lambda>(r, s1).
               case r of Ret v \<Rightarrow> Inr (r, set_eax me v s1) | _ \<Rightarrow> Inr (r, s1))
         | None \<Rightarrow>
             bind_res (cprintf (Some (chars ''%d %s: unknown sys call %d'' @ [10]))
                         [ANum (of_int (p_pid p)), AStr (Some (c_string (p_name p))), ANum (of_int num)] s)
               (\<lambda>s1. Inr (Ret (-1), set_eax me (-1) s1)))"

section \<open>Traps\<close>

abbreviation T_SYSCALL :: u32 where "T_SYSCALL \<equiv> 64"
abbreviation T_IRQ0 :: u32 where "T_IRQ0 \<equiv> 32"

text \<open>The interrupt descriptor table: \<open>SETGATE\<close> and \<open>tvinit\<close>.\<close>

record gatedesc =
  gd_istrap :: bool
  gd_sel :: u16
  gd_off :: u32
  gd_dpl :: u8

definition tvinit :: "(nat \<Rightarrow> u32) \<Rightarrow> 'a kernel_scheme \<Rightarrow> gatedesc list \<times> 'a kernel_scheme" where
  "tvinit vectors s =
     ((map (\<lambda>i. \<lparr>gd_istrap = False, gd_sel = 8, gd_off = vectors i, gd_dpl = 0\<rparr>) [0..<256])
        [64 := \<lparr>gd_istrap = True, gd_sel = 8, gd_off = vectors 64, gd_dpl = 3\<rparr>],
      s\<lparr>tickslock := initlock ''time'' (tickslock s)\<rparr>)"

text \<open>The timer interrupt; only processor 0 counts ticks.\<close>

definition timer_tick :: "nat \<Rightarrow> 'a kernel_scheme \<Rightarrow> 'a kernel_scheme" where
  "timer_tick c s =
     (if c = 0 then tick_accounting (wakeup CTicks (s\<lparr>ticks := ticks s + 1\<rparr>)) else s)"

text \<open>
  What becomes of the interrupted code: it resumes, its process yields the processor, has exited, or sleeps in
  the call.
\<close>

datatype trap_result = Resumes | Yields | Exits | Waiting nat

definition from_user :: "u32 \<Rightarrow> mem \<Rightarrow> bool" where
  "from_user tf m \<longleftrightarrow> rd32 m (tf + 60) AND 3 = 3"

text \<open>
  The \<open>switch\<close> of \<open>trap\<close>.  \<open>p\<close> is \<open>myproc()\<close>, \<open>cr2\<close> the fault address register; acknowledging the local APIC is
  not part of the state, nor is the IDE disk of ide.c, whose interrupt the memory disk does not raise.
\<close>

definition trap_switch :: "nat \<Rightarrow> nat option \<Rightarrow> u32 \<Rightarrow> u32 \<Rightarrow> 'a fkernel_scheme \<Rightarrow> 'a fkernel_scheme res" where
  "trap_switch c p tf cr2 s =
     (let no = rd32 (ram s) (tf + 48); eip = rd32 (ram s) (tf + 56); cs = rd32 (ram s) (tf + 60) AND 0xFFFF;
          err = rd32 (ram s) (tf + 52)
      in if no = T_IRQ0 then Inr (timer_tick c s)
         else if no = T_IRQ0 + 14 then Inr s
         else if no = T_IRQ0 + 15 then Inr s
         else if no = T_IRQ0 + 1 then kbdintr s
         else if no = T_IRQ0 + 4 then uartintr s
         else if no = T_IRQ0 + 7 \<or> no = T_IRQ0 + 31
         then cprintf (Some (chars ''cpu%d: spurious interrupt at %x:%x'' @ [10])) [ANum (of_nat c), ANum cs, ANum eip] s
         else case p of
                Some i \<Rightarrow>
                  if cs AND 3 = 0
                  then bind_res (cprintf (Some (chars ''unexpected trap %d from cpu %d eip %x (cr2=0x%x)'' @ [10]))
                                   [ANum no, ANum (of_nat c), ANum eip, ANum cr2] s) (\<lambda>_. Inl (Panic ''trap''))
                  else bind_res (cprintf (Some (chars ''pid %d %s: trap %d err %d on cpu %d eip 0x%x addr 0x%x--kill proc'' @ [10]))
                                   [ANum (of_int (p_pid (ptable s ! i))), AStr (Some (c_string (p_name (ptable s ! i)))), ANum no,
                                    ANum err, ANum (of_nat c), ANum eip, ANum cr2] s) (\<lambda>s1.
                         Inr (upd_proc i (\<lambda>x. x\<lparr>p_killed := True\<rparr>) s1))
              | None \<Rightarrow>
                  bind_res (cprintf (Some (chars ''unexpected trap %d from cpu %d eip %x (cr2=0x%x)'' @ [10]))
                              [ANum no, ANum (of_nat c), ANum eip, ANum cr2] s) (\<lambda>_. Inl (Panic ''trap'')))"

text \<open>
  \<open>trap\<close>.  A process that yields runs the last test of the source, \<open>trap_after_yield\<close>, when it is scheduled again.
\<close>

definition trap_exit :: "nat option \<Rightarrow> u32 \<Rightarrow> 'a fkernel_scheme \<Rightarrow> (bool \<times> 'a fkernel_scheme) res" where
  "trap_exit p tf s =
     (case p of
        Some i \<Rightarrow>
          if p_killed (ptable s ! i) \<and> from_user tf (ram s)
          then bind_res (exit_proc i s) (\<lambda>s1. Inr (True, s1))
          else Inr (False, s)
      | None \<Rightarrow> Inr (False, s))"

definition trap_syscall :: "nat \<Rightarrow> nat \<Rightarrow> u32 \<Rightarrow> 'a fkernel_scheme \<Rightarrow> (trap_result \<times> 'a fkernel_scheme) res" where
  "trap_syscall c me tf s =
     (if p_killed (ptable s ! me) then bind_res (exit_proc me s) (\<lambda>s1. Inr (Exits, s1))
      else bind_res (syscall c me (upd_proc me (\<lambda>x. x\<lparr>p_tf := tf\<rparr>) s)) (\<lambda>(r, s1).
             case r of
               Ret _ \<Rightarrow>
                 if p_killed (ptable s1 ! me) then bind_res (exit_proc me s1) (\<lambda>s2. Inr (Exits, s2))
                 else Inr (Resumes, s1)
             | Sleeps k \<Rightarrow> Inr (Waiting k, s1)
             | Exited \<Rightarrow> Inr (Exits, s1)))"

definition trap :: "nat \<Rightarrow> nat option \<Rightarrow> u32 \<Rightarrow> u32 \<Rightarrow> 'a fkernel_scheme \<Rightarrow> (trap_result \<times> 'a fkernel_scheme) res" where
  "trap c p tf cr2 s =
     (if rd32 (ram s) (tf + 48) = T_SYSCALL
      then (case p of None \<Rightarrow> Inl (Undefined ''trap'') | Some me \<Rightarrow> trap_syscall c me tf s)
      else bind_res (trap_switch c p tf cr2 s) (\<lambda>s1.
           bind_res (trap_exit p tf s1) (\<lambda>(gone, s2).
             if gone then Inr (Exits, s2)
             else case p of
                    Some i \<Rightarrow>
                      if p_state (ptable s2 ! i) = RUNNING \<and> rd32 (ram s2) (tf + 48) = T_IRQ0 then Inr (Yields, s2)
                      else bind_res (trap_exit p tf s2) (\<lambda>(g, s3). Inr (if g then Exits else Resumes, s3))
                  | None \<Rightarrow> Inr (Resumes, s2))))"

definition trap_after_yield :: "nat option \<Rightarrow> u32 \<Rightarrow> 'a fkernel_scheme \<Rightarrow> (trap_result \<times> 'a fkernel_scheme) res" where
  "trap_after_yield p tf s = bind_res (trap_exit p tf s) (\<lambda>(g, s1). Inr (if g then Exits else Resumes, s1))"

end
