(* ===== verification/Fs_Boot.thy ===== *)
theory Fs_Boot
  imports Content Console
begin

text \<open>
  A file system as \<open>mkfs\<close> lays it out (1000 blocks: the boot block, the super block, 30 blocks of log, 26 blocks of
  inodes from block 32 on, the bitmap in block 58, then the data), with a root
  directory in block 59 and an empty file, in a kernel that has started one file system call;
  and the contract of the block allocator, with this file system as the example.
\<close>

definition boot_bitmap :: "u8 list" where
  "boot_bitmap = map (\<lambda>k. if k < 7 then 255 else if k = 7 then 15 else 0) [0..<BSIZE]"

definition boot_inode :: inode where
  "boot_inode = \<lparr>i_dev = 1, i_inum = 2, i_ref = 1, i_lock = zero_sleeplock, i_valid = True, i_type = T_FILE, i_major = 0, i_minor = 0,
     i_nlink = 1, i_size = 0, i_addrs = replicate (NDIRECT + 1) 0\<rparr>"

definition boot_root :: inode where
  "boot_root = boot_inode\<lparr>i_inum := 1, i_type := T_DIR, i_size := 32, i_addrs := 59 # replicate NDIRECT 0\<rparr>"

definition boot_dir :: "u8 list" where
  "boot_dir = dirent_bytes \<lparr>de_inum = 1, de_name = 46 # replicate 13 0\<rparr> @
     dirent_bytes \<lparr>de_inum = 1, de_name = 46 # 46 # replicate 12 0\<rparr> @ replicate 480 0"

definition boot_disk :: "u32 \<Rightarrow> u8 list" where
  "boot_disk n =
     (if n = 58 then boot_bitmap
      else if n = 32 then put_dinode (put_dinode (replicate BSIZE 0) 1 (inode_dinode boot_root)) 2 (inode_dinode boot_inode)
      else if n = 59 then boot_dir
      else replicate BSIZE 0)"

definition fs_boot :: ckernel where
  "fs_boot = ikernel.extend (lkernel.extend (upd_log (\<lambda>l. l\<lparr>lg_outstanding := 1\<rparr>) (log_boot 30)\<lparr>disk := boot_disk\<rparr>)
       \<lparr>sblk = \<lparr>sb_size = 1000, sb_nblocks = 941, sb_ninodes = 200, sb_nlog = 30, sb_logstart = 2, sb_inodestart = 32, sb_bmapstart = 58\<rparr>,
        icache_lock = zero_lock, inodes = boot_inode # boot_inode\<lparr>i_ref := 0\<rparr> # boot_root # replicate 47 (boot_inode\<lparr>i_ref := 0\<rparr>)\<rparr>)
     \<lparr>cons_lock = zero_lock, cons_locking = True, panicked = False,
      input = \<lparr>in_buf = replicate 128 0, in_r = 0, in_w = 0, in_e = 0\<rparr>, crt = replicate 2000 0, crt_pos = 0, uart = False,
      uart_out = [], uart_in = [], kbd_shift = 0, kbd_queue = [], devsw = replicate 10 \<lparr>dev_rd = None, dev_wr = None\<rparr>\<rparr>"

lemma boot_bitmap_bit: "i < BPB \<Longrightarrow> bmap_bit boot_bitmap i \<longleftrightarrow> i < 60"
proof -
  assume i: "i < BPB"
  have 255: "\<forall>m \<in> {..<8}. bit (255 :: u8) m" by (simp add: lessThan_nat_numeral lessThan_Suc)
  have 7: "\<forall>m \<in> {..<8}. bit (15 :: u8) m \<longleftrightarrow> m < 4" by (simp add: lessThan_nat_numeral lessThan_Suc)
  have e: "i = 8 * (i div 8) + i mod 8" "i div 8 < BSIZE" using i by simp_all
  consider "i div 8 < 7" | "i div 8 = 7" | "7 < i div 8" by linarith
  then show ?thesis
  proof cases
    case 1
    then show ?thesis using e 255 by (simp add: bmap_bit_iff boot_bitmap_def)
  next
    case 2
    then show ?thesis using e 7 by (auto simp: bmap_bit_iff boot_bitmap_def)
  next
    case 3
    then show ?thesis using e by (auto simp: bmap_bit_iff boot_bitmap_def)
  qed
qed

lemma fs_boot_simps:
  "bufs fs_boot = bufs bio_boot" "disk fs_boot = boot_disk" "disksize fs_boot = 1000"
  "bc_next fs_boot = bc_next bio_boot" "bc_prev fs_boot = bc_prev bio_boot"
  "log fs_boot = (log (log_boot 30))\<lparr>lg_outstanding := 1\<rparr>" "inodes fs_boot = boot_inode # boot_inode\<lparr>i_ref := 0\<rparr> # boot_root # replicate 47 (boot_inode\<lparr>i_ref := 0\<rparr>)"
  "sblk fs_boot = \<lparr>sb_size = 1000, sb_nblocks = 941, sb_ninodes = 200, sb_nlog = 30, sb_logstart = 2, sb_inodestart = 32, sb_bmapstart = 58\<rparr>"
  using log_boot_cache(5,6) [of 30] bio_boot_facts(3)
  by (simp_all add: fs_boot_def ikernel.defs lkernel.defs log_boot_def bkernel.defs upd_log_def)

lemma boot_disk_length: "length (boot_disk n) = BSIZE"
proof -
  have "dinode_off 2 = 128" "dinode_off 1 = 64" by (simp_all add: dinode_off_def)
  then show ?thesis
    by (simp add: boot_disk_def boot_bitmap_def put_dinode_def inode_dinode_def boot_root_def boot_inode_def boot_dir_def)
qed

lemma fs_boot_cache:
  "bc_inv (rev [0..<NBUF]) fs_boot" "locked fs_boot = {}" "dirty_blocks fs_boot = {}" "bview fs_boot = boot_disk"
proof -
  have z: "bufs bio_boot ! i = zero_buf\<lparr>b_lock := initsleeplock ''buffer'' zero_sleeplock\<rparr>" if "i < NBUF" for i
    by (rule bio_boot_facts(5) [OF that])
  note B = bio_boot_facts(1) [unfolded bc_inv_def]
  have ok: "\<forall>i < NBUF. buf_ok boot_disk (bufs bio_boot ! i)" using z by (simp add: buf_ok_def zero_buf_def initsleeplock_def)
  show "bc_inv (rev [0..<NBUF]) fs_boot" unfolding bc_inv_def fs_boot_simps using B boot_disk_length ok by simp
  show "locked fs_boot = {}" "dirty_blocks fs_boot = {}"
    using z by (auto simp: locked_def dirty_blocks_def fs_boot_simps zero_buf_def initsleeplock_def)
  have "find (holds_block n) (bufs bio_boot) = None" for n
    using z B by (auto simp: find_None_iff in_set_conv_nth holds_block_def zero_buf_def)
  then show "bview fs_boot = boot_disk" by (simp add: fun_eq_iff bview_def fs_boot_simps)
qed

lemma fs_boot_tx: "k \<le> 27 \<Longrightarrow> tx me [] k fs_boot"
  using fs_boot_cache by (auto intro!: txI simp: log_room_def logged_def fs_boot_simps log_log_boot)

lemma fs_boot_use: "n < 1000 \<Longrightarrow> in_use fs_boot n \<longleftrightarrow> unat n < 60"
proof -
  assume n: "n < 1000"
  then have u: "unat n < 1000" by (simp add: word_less_nat_alt)
  have "unat (n div 4096) = 0" using u by (simp add: unat_div)
  then have "n div 4096 = 0" by (simp only: unat_eq_0)
  then have "BBLOCK n (sblk fs_boot) = 58" by (simp add: BBLOCK_def fs_boot_simps)
  then show ?thesis using u boot_bitmap_bit [of "unat n"] by (simp add: in_use_def fs_boot_cache boot_disk_def)
qed

lemma fs_boot_free: "free_blocks fs_boot = {n. 60 \<le> unat n \<and> unat n < 1000}"
  using fs_boot_use by (auto simp: free_blocks_def fs_boot_simps word_less_nat_alt not_less)

lemma fs_boot_room: "2 \<le> card (free_blocks fs_boot)"
proof -
  have "card {60, 61 :: u32} \<le> card (free_blocks fs_boot)" by (rule card_mono) (auto simp: fs_boot_free)
  then show ?thesis by simp
qed

lemma fs_boot_iblock: "i < 200 \<Longrightarrow> unat (IBLOCK i (sblk fs_boot)) = unat i div 8 + 32"
proof -
  assume "i < 200"
  then have "unat i < 200" by (simp add: word_less_nat_alt)
  then have "unat (i div 8) = unat i div 8" "unat i div 8 < 25" by (simp_all add: unat_div)
  then have "unat (i div 8 + 32) = unat i div 8 + 32" by (subst unat_add_lem [THEN iffD1]) simp_all
  then show ?thesis by (simp add: IBLOCK_def fs_boot_simps)
qed

lemma fs_boot_iblock_less: "i < 200 \<Longrightarrow> unat (IBLOCK i (sblk fs_boot)) < 58"
proof -
  assume i: "i < 200"
  then have "unat i div 8 < 25" by (simp add: div_less_iff_less_mult word_less_nat_alt)
  then show ?thesis using fs_boot_iblock [OF i] by simp
qed

lemma fs_boot_bblock: "n < 1000 \<Longrightarrow> BBLOCK n (sblk fs_boot) = 58"
proof -
  assume "n < 1000"
  then have "unat (n div 4096) = 0" by (simp add: unat_div word_less_nat_alt)
  then have "n div 4096 = 0" by (simp only: unat_eq_0)
  then show ?thesis by (simp add: BBLOCK_def fs_boot_simps)
qed

lemma fs_boot_ok: "fs_ok fs_boot"
proof -
  have "IBLOCK i (sblk fs_boot) \<noteq> 58 \<and> IBLOCK i (sblk fs_boot) < 1000 \<and> in_use fs_boot (IBLOCK i (sblk fs_boot))" if "i < 200" for i
    using fs_boot_iblock_less [OF that] fs_boot_use [of "IBLOCK i (sblk fs_boot)"] by (auto simp: word_less_nat_alt)
  then show ?thesis
    using fs_boot_bblock fs_boot_use by (auto simp: fs_ok_def bitmap_ok_def fs_boot_simps(3,8))
qed

section \<open>The block allocator\<close>

text \<open>
  Property C33.  The allocator of disk blocks refines a set of free blocks.  When some block is free, \<open>balloc\<close> returns
  the least one, filled with zeros, and takes it out of the set; no other block changes but that of the bitmap.
\<close>

theorem balloc_least_free:
  assumes t: "tx me H (Suc (Suc k)) s" and ok: "bitmap_ok s" "keeps_clear H s" "length H \<le> 2" and ne: "free_blocks s \<noteq> {}"
  shows "\<exists>n s'. balloc me 1 s = Inr (n, s') \<and> n = Min (free_blocks s) \<and> free_blocks s' = free_blocks s - {n} \<and>
     bview s' n = replicate BSIZE 0 \<and> (\<forall>m. m \<noteq> n \<longrightarrow> m \<noteq> BBLOCK n (sblk s) \<longrightarrow> bview s' m = bview s m) \<and>
     bitmap_ok s' \<and> tx me H k s' \<and> tx_frame s s'"
proof -
  obtain n s' where r: "balloc me 1 s = Inr (n, s')" "tx me H k s'" and a: "allocated n s s'"
    using balloc_spec [OF t ok ne] by (auto simp: ok_res_iff)
  note E = allocated_effect [OF a t ok(1)] and A = a [unfolded allocated_def]
  show ?thesis
    by (rule exI [of _ n], rule exI [of _ s']) (use r E(2-4) A in simp)
qed

theorem balloc_least_free_witness:
  "\<exists>s'. balloc 0 1 fs_boot = Inr (60, s') \<and> free_blocks s' = {n. 61 \<le> unat n \<and> unat n < 1000}"
proof -
  have "free_blocks fs_boot \<noteq> {}" using fs_boot_room by auto
  then obtain n s' where r: "balloc 0 1 fs_boot = Inr (n, s')" "n = Min (free_blocks fs_boot)" "free_blocks s' = free_blocks fs_boot - {n}"
    using balloc_least_free [OF fs_boot_tx [of "Suc (Suc 0)" 0], of ] fs_boot_ok by (auto simp: fs_ok_def keeps_clear_def)
  have "Min (free_blocks fs_boot) = 60"
    by (rule Min_eqI) (auto simp: fs_boot_free word_le_nat_alt)
  moreover have "{n. 60 \<le> unat n \<and> unat n < 1000} - {60 :: u32} = {n. 61 \<le> unat n \<and> unat n < 1000}"
    by (auto simp: word_unat_eq_iff)
  ultimately show ?thesis using r by (simp add: fs_boot_free)
qed

text \<open>
  Property C34.  Freeing undoes allocation: \<open>bfree\<close> on the block that \<open>balloc\<close> returned restores the set of free blocks,
  and freeing a block that is free already panics.
\<close>

theorem bfree_balloc:
  assumes t: "tx me H (Suc (Suc (Suc k))) s" and ok: "bitmap_ok s" "keeps_clear H s" "length H \<le> 2" and r: "balloc me 1 s = Inr (n, s1)"
    and ne: "free_blocks s \<noteq> {}"
  shows "\<exists>s2. bfree me 1 n s1 = Inr s2 \<and> free_blocks s2 = free_blocks s \<and> bfree me 1 n s2 = Inl (Panic ''freeing free block'')"
proof -
  have t1: "tx me H (Suc k) s1" and a: "allocated n s s1"
    using balloc_spec [OF t ok ne] r by (simp_all add: ok_res_iff)
  note E = allocated_effect [OF a t ok(1)] and A = a [unfolded allocated_def]
  let ?b = "BBLOCK n (sblk s)"
  have sb: "sblk s1 = sblk s" "disksize s1 = disksize s" using A tx_frame_inode(2) tx_frameD(2) by blast+
  have "n < sb_size (sblk s)" "in_use s1 n" using A E(1) [of n] by simp_all
  then have b: "?b \<notin> snd ` set H" "?b < disksize s"
    using ok(1,2) unfolding bitmap_ok_def keeps_clear_def by fastforce+
  obtain s2 where s2: "bfree me 1 n s1 = Inr s2" "tx me H k s2" "tx_frame s1 s2"
    "bview s2 = (bview s1)(?b := bmap_clear (bview s1 ?b) (unat n mod BPB))"
    using bfree_spec [OF t1 _ _ ok(3) \<open>in_use s1 n\<close>] b unfolding sb by (auto simp: ok_res_iff)
  have sb2: "sblk s2 = sblk s1" "disksize s2 = disksize s" using tx_frame_inode(2) [OF s2(3)] tx_frameD(2) [OF s2(3)] sb by simp_all
  have u: "in_use s2 m \<longleftrightarrow> m \<noteq> n \<and> in_use s1 m" for m
    by (rule in_use_clear [OF tx_bview_length [OF t1] sb2(1)]) (simp add: s2(4) sb)
  have "free_blocks s2 = free_blocks s"
    using u E(1) A by (auto simp: free_blocks_def sb sb2)
  moreover have "bfree me 1 n s2 = Inl (Panic ''freeing free block'')"
  proof -
    obtain c s3 where 3: "bread me 1 ?b s2 = Inr (c, s3)" "tx me ((c, ?b) # H) k s3" "bview s3 = bview s2"
      using tx_bread [OF s2(2) b(1)] b(2) ok(3) sb2(2) by (auto simp: ok_res_iff)
    have "b_data (bufs s3 ! c) = bview s2 ?b" using tx_data [OF 3(2), of c] 3(3) by simp
    moreover have "\<not> bmap_bit (bview s2 ?b) (unat n mod BPB)" using u [of n] by (simp add: in_use_def sb sb2)
    ultimately show ?thesis using 3(1) by (simp add: bfree_def sb sb2 guard_res_def)
  qed
  ultimately show ?thesis using s2(1) by blast
qed

theorem bfree_balloc_witness:
  "\<exists>s1 s2. balloc 0 1 fs_boot = Inr (Min (free_blocks fs_boot), s1) \<and> bfree 0 1 (Min (free_blocks fs_boot)) s1 = Inr s2 \<and>
     free_blocks s2 = free_blocks fs_boot"
proof -
  have ne: "free_blocks fs_boot \<noteq> {}" using fs_boot_room by auto
  have ok: "bitmap_ok fs_boot" "keeps_clear [] fs_boot" using fs_boot_ok by (simp_all add: fs_ok_def keeps_clear_def)
  note t = fs_boot_tx [of "Suc (Suc (Suc 0))" 0]
  obtain n s1 where r: "balloc 0 1 fs_boot = Inr (n, s1)" and a: "allocated n fs_boot s1"
    using balloc_spec [OF t ok _ ne] by (auto simp: ok_res_iff)
  have "n = Min (free_blocks fs_boot)" by (rule allocated_effect(4) [OF a t ok(1)]) simp
  then show ?thesis using bfree_balloc [OF t ok _ r ne] r by auto
qed

end
