(* ===== verification/Fd_Inv.thy ===== *)
theory Fd_Inv
  imports FdCalls Fs_Boot
begin

text \<open>
  The descriptors when processes come and go: \<open>fork\<close> copies them, \<open>exit\<close> closes them, \<open>wait\<close> frees a slot that has
  none.  With the calls on files this gives the invariant for every system call and every trap.
\<close>

section \<open>Slots of the process table\<close>

lemma fkeep_upd_slot:
  assumes "fkeep s s0" "proc_files (g (ptable s0 ! i)) = proc_files (ptable s0 ! i)"
  shows "fkeep s (upd_proc i g s0)"
proof (cases "i < length (ptable s0)")
  case True
  then have "pfs (upd_proc i g s0) = pfs s0" using assms(2) by (simp add: pfs_upd_proc map_update list_update_same_conv)
  then show ?thesis using assms(1) by (simp add: fkeep_def upd_proc_def)
next
  case False
  then have "upd_proc i g s0 = s0" by (simp add: upd_proc_def list_update_beyond)
  then show ?thesis using assms(1) by simp
qed

text \<open>A process changes its state: it may become unused or a zombie only without open files.\<close>

lemma fd_held_state:
  assumes h: "fd_held H s" and i: "i < length (ptable s)"
    and g: "p_ofile (g (ptable s ! i)) = p_ofile (ptable s ! i)"
    and z: "p_state (g (ptable s ! i)) \<in> {UNUSED, ZOMBIE} \<Longrightarrow> \<forall>k < NOFILE. p_ofile (ptable s ! i) ! k = None"
  shows "fd_held H (upd_proc i g s)"
proof -
  let ?e = "proc_files (g (ptable s ! i))"
  have e: "pfs (upd_proc i g s) = (pfs s)[i := ?e]" by (rule pfs_upd_proc [OF i])
  have ok: "fds_ok (length (ftable s)) (pfs s)" and c: "ft.counted (\<lambda>f. nfd (pfs s) f + H f) s" using h by (simp_all add: fd_held_def)
  have n: "snd ?e = snd (pfs s ! i)" using g i by (simp add: proc_files_def)
  have "fd_entry (length (ftable s)) (pfs s ! i)" using fds_okD [OF ok, of i] i by simp
  then have "fd_entry (length (ftable s)) ?e" using z g i by (auto simp: fd_entry_def proc_files_def)
  then have "fds_ok (length (ftable s)) (pfs (upd_proc i g s))" unfolding e by (rule fds_ok_update [OF ok])
  moreover have "nfd (pfs (upd_proc i g s)) = nfd (pfs s)" using nfd_update [of i "pfs s" ?e] n i unfolding e by (simp add: fun_eq_iff)
  ultimately show ?thesis using c by (simp only: fd_held_def upd_proc_file ft.counted_def simp_thms)
qed

lemma fd_held_empty:
  assumes "fd_held H s" "i < length (ptable s)" "p_state (ptable s ! i) \<in> {UNUSED, ZOMBIE}" "k < NOFILE"
  shows "p_ofile (ptable s ! i) ! k = None"
  using fds_okD [of "length (ftable s)" "pfs s" i] assms by (auto simp: fd_held_def fd_entry_def proc_files_def)

lemma fkeep_ofile:
  assumes "fkeep s s'"
  shows "length (ptable s') = length (ptable s)" "i < length (ptable s) \<Longrightarrow> p_ofile (ptable s' ! i) = p_ofile (ptable s ! i)"
    "i < length (ptable s) \<Longrightarrow> p_state (ptable s' ! i) \<in> {UNUSED, ZOMBIE} \<longleftrightarrow> p_state (ptable s ! i) \<in> {UNUSED, ZOMBIE}"
proof -
  have m: "map proc_files (ptable s') = map proc_files (ptable s)" using assms by (simp add: fkeep_def)
  then show l: "length (ptable s') = length (ptable s)" by (metis length_map)
  assume i: "i < length (ptable s)"
  then have "proc_files (ptable s' ! i) = proc_files (ptable s ! i)" using m l by (metis nth_map)
  then show "p_ofile (ptable s' ! i) = p_ofile (ptable s ! i)"
    "p_state (ptable s' ! i) \<in> {UNUSED, ZOMBIE} \<longleftrightarrow> p_state (ptable s ! i) \<in> {UNUSED, ZOMBIE}" by (simp_all add: proc_files_def)
qed

section \<open>fork\<close>

text \<open>\<open>allocproc\<close> hands out a slot without open files, or leaves the descriptors alone.\<close>

abbreviation embryo :: "nat \<Rightarrow> 'a kernel_scheme \<Rightarrow> 'a kernel_scheme" where
  "embryo i s \<equiv> (upd_proc i (\<lambda>p. p\<lparr>p_state := EMBRYO, p_pid := nextpid s, p_gid := 0\<rparr>) s)\<lparr>nextpid := nextpid s + 1\<rparr>"

lemma allocproc_frames:
  fixes s :: "'a fkernel_scheme"
  assumes a: "allocproc s = (r, s')"
  obtains (full) "r = None" "s' = s"
  | (no_stack) i t where "i < length (ptable s)" "p_state (ptable s ! i) = UNUSED" "r = None" "fkeep (embryo i s) t"
      "s' = upd_proc i (\<lambda>p. p\<lparr>p_state := UNUSED\<rparr>) t"
  | (allocated) i where "i < length (ptable s)" "p_state (ptable s ! i) = UNUSED" "r = Some i" "fkeep (embryo i s) s'"
proof (cases "find_index (\<lambda>p. p_state p = UNUSED) (ptable s)")
  case None
  then show thesis using a full by (simp add: allocproc_def)
next
  case (Some i)
  then have i: "i < length (ptable s)" "p_state (ptable s ! i) = UNUSED" by (simp_all add: find_index_Some_iff)
  let ?s2 = "snd (fss_group_ensure (p_gid (ptable (embryo i s) ! i)) (embryo i s))"
  let ?s3 = "upd_proc i (\<lambda>p. p\<lparr>p_rtime := 0, p_wtime := 0, p_stime := 0\<rparr>) ?s2"
  obtain k s4 where k: "kalloc ?s3 = (k, s4)" by fastforce
  let ?s5 = "upd_proc i (\<lambda>p. p\<lparr>p_kstack := k\<rparr>) s4"
  have "fkeep (embryo i s) ?s3" by (intro frames) (simp_all add: proc_files_def)
  then have "fkeep (embryo i s) s4" using fkeep_trans mem_only_fkeep [OF kalloc_mem [OF k]] by blast
  then have K: "fkeep (embryo i s) ?s5" by (intro frames) (simp_all add: proc_files_def)
  show thesis
  proof (cases "k = 0")
    case True
    then have "r = None" "s' = upd_proc i (\<lambda>p. p\<lparr>p_state := UNUSED\<rparr>) ?s5"
      using a Some k unfolding allocproc_def Let_def by simp_all
    then show thesis using no_stack [OF i _ K] by simp
  next
    case False
    then have "r = Some i \<and> (\<exists>tf ctx m. s' = upd_proc i (\<lambda>p. p\<lparr>p_tf := tf, p_context := ctx\<rparr>) (?s5\<lparr>ram := m\<rparr>))"
      using a Some k unfolding allocproc_def Let_def by auto
    then obtain tf ctx m where r: "r = Some i" "s' = upd_proc i (\<lambda>p. p\<lparr>p_tf := tf, p_context := ctx\<rparr>) (?s5\<lparr>ram := m\<rparr>)" by blast
    have "fkeep (embryo i s) s'" unfolding r(2) by (intro fkeep_upd_proc fkeep_ram K) (simp add: proc_files_def)
    then show thesis by (rule allocated [OF i r(1)])
  qed
qed

lemma embryo_held:
  fixes s :: "'a fkernel_scheme"
  assumes h: "fd_held H s" and i: "i < length (ptable s)" "p_state (ptable s ! i) = UNUSED" and k: "fkeep (embryo i s) t"
  shows "fd_held H t" "live i t" "\<forall>k < NOFILE. p_ofile (ptable t ! i) ! k = None" "length (ptable t) = length (ptable s)"
proof -
  have "fd_held H (upd_proc i (\<lambda>p. p\<lparr>p_state := EMBRYO, p_pid := nextpid s, p_gid := 0\<rparr>) s)"
    by (rule fd_held_state [OF h i(1)]) simp_all
  then have "fd_held H (embryo i s)" by (rule fd_held_cong) (simp_all add: fref_def fun_eq_iff)
  then show "fd_held H t" by (rule fd_held_keep [OF k])
  show "live i t" using fkeep_live [OF k] i by (simp add: live_def)
  show l: "length (ptable t) = length (ptable s)" using fkeep_ofile(1) [OF k] by simp
  show "\<forall>k < NOFILE. p_ofile (ptable t ! i) ! k = None"
    using fkeep_ofile(2) [OF k, of i] fd_held_empty [OF h i(1)] i by simp
qed

lemma allocproc_held:
  fixes s :: "'a fkernel_scheme"
  assumes h: "fd_held H s" and a: "allocproc s = (r, s')"
  shows "fd_held H s' \<and> length (ptable s') = length (ptable s) \<and>
    (\<forall>np. r = Some np \<longrightarrow> live np s' \<and> (\<forall>k < NOFILE. p_ofile (ptable s' ! np) ! k = None))"
  using a
proof (cases rule: allocproc_frames)
  case (no_stack i t)
  note E = embryo_held [OF h no_stack(1,2,4)]
  have "fd_held H s'" unfolding no_stack(5) by (rule fd_held_state [OF E(1)]) (use E(3,4) no_stack(1) in simp_all)
  then show ?thesis using E(4) no_stack by simp
next
  case (allocated i)
  then show ?thesis using embryo_held [OF h allocated(1,2,4)] by simp
qed (simp add: h)

text \<open>The loop over the descriptors: the slots of the child are free before they are set.\<close>

lemma fork_files_held:
  assumes "fd_held H s" "live np s" "me < length (ptable s)" "distinct ks" "\<forall>k \<in> set ks. k < NOFILE \<and> p_ofile (ptable s ! np) ! k = None"
  shows "on_ret (fork_files me np ks s) (\<lambda>s'. fd_held H s' \<and> live np s')"
  using assms
proof (induction ks arbitrary: s)
  case (Cons i ks)
  show ?case
  proof (cases "p_ofile (ptable s ! me) ! i")
    case (Some f)
    have i: "i < NOFILE" "p_ofile (ptable s ! np) ! i = None" using Cons.prems by simp_all
    note f = fd_held_file [OF Cons.prems(1,3) i(1) Some]
    have "on_ret (fork_files me np ks (set_fd np i (Some g) t)) (\<lambda>s'. fd_held H s' \<and> live np s')" if d: "filedup f s = Inr (g, t)" for g t
    proof -
      note D = fd_held_dup(2,3) [OF Cons.prems(1) f d]
      have p: "ptable t = ptable s" using D(2) by (simp add: upd_file_def)
      have "fd_held H (set_fd np i (Some g) t)" unfolding D(1) by (rule fd_hold_dup [OF Cons.prems(1) f Cons.prems(2) i d])
      moreover have "live np (set_fd np i (Some g) t)" using Cons.prems(2) p live_cong [of t s] by simp
      moreover have "\<forall>k \<in> set ks. k < NOFILE \<and> p_ofile (ptable (set_fd np i (Some g) t) ! np) ! k = None"
        using Cons.prems p by (auto simp: live_def) (metis nth_list_update_neq)
      ultimately show ?thesis using Cons.prems p by (intro Cons.IH) simp_all
    qed
    then show ?thesis using Some by (auto simp: on_ret_def bind_res_eq_Inr_iff)
  qed (use Cons in simp)
qed simp

text \<open>The last part of \<open>fork\<close>: the child gets its directory and its name and becomes runnable.\<close>

lemma fork_end_keeps:
  assumes "live np u" "\<And>ip s8 x. proc_files (f ip s8 x) = proc_files x"
  shows "keepsp fkeep u (case p_cwd (ptable u ! me) of None \<Rightarrow> Inl (Undefined ''fork'') | Some cwd \<Rightarrow>
           (case idup cwd u of (ip, s8) \<Rightarrow>
              Inr (p_pid (ptable (upd_proc np (f ip s8) s8) ! np),
                upd_proc np (\<lambda>x. x\<lparr>p_state := RUNNABLE\<rparr>) (upd_proc np (f ip s8) s8))))"
proof -
  have R: "fkeep u (upd_proc np (\<lambda>x. x\<lparr>p_state := RUNNABLE\<rparr>) t)" if t: "fkeep u t" for t
    using assms(1) fkeep_live [OF t, of np] by (intro fkeep_upd_slot [OF t]) (auto simp: proc_files_def live_def)
  have "fkeep u (upd_proc np (f ip t) t)" if t: "fkeep u t" for ip t using assms(2) by (rule fkeep_upd_proc [OF t])
  note D = R [OF this [OF fkeep_upd_inode [OF fkeep_refl]]]
  show ?thesis using D by (cases "p_cwd (ptable u ! me)") (simp_all add: idup_def)
qed

lemma fork_safe:
  assumes inv: "fd_inv s" and me: "live me s"
  shows "fd_safe (fork me s)"
proof -
  obtain r s1 where a: "allocproc s = (r, s1)" by fastforce
  note A = allocproc_held [OF inv [unfolded fd_held_0] a]
  show ?thesis
  proof (cases r)
    case None
    then show ?thesis using A a by (simp add: fork_def fd_safe_def fd_held_0)
  next
    case (Some np)
    then have h: "fd_held (\<lambda>_. 0) s1" and np: "live np s1" "\<forall>k < NOFILE. p_ofile (ptable s1 ! np) ! k = None" "np < length (ptable s1)"
      and m: "me < length (ptable s1)" using A me by (auto simp: live_def)
    have H: "fd_held (\<lambda>_. 0) t" "live np t" "length (ptable t) = length (ptable s1)" "\<forall>k < NOFILE. p_ofile (ptable t ! np) ! k = None"
      if "fkeep s1 t" for t
      using fd_held_keep [OF that h] fkeep_live [OF that] fkeep_ofile [OF that] np by simp_all
    have bad: "fd_safe (bind_res (kfree v t) (\<lambda>s4. Inr (x, upd_proc np (\<lambda>x. x\<lparr>p_kstack := 0, p_state := UNUSED\<rparr>) s4)))"
      if t: "fkeep s1 t" for v t and x :: int
      unfolding fd_safe_def
    proof (rule on_ret_bind [of _ "fkeep s1"])
      show "on_ret (kfree v t) (fkeep s1)" using mem_fkeep(1) [OF t] by (simp add: keeps_def)
      fix u assume "fkeep s1 u"
      note U = H [OF this]
      show "on_ret (Inr (x, upd_proc np (\<lambda>x. x\<lparr>p_kstack := 0, p_state := UNUSED\<rparr>) u)) (\<lambda>(x, s'). fd_inv s')"
        using fd_held_state [OF U(1), of np] U(3,4) np(3) by (simp add: fd_held_0)
    qed
    have good: "fd_safe (bind_res (fork_files me np [0..<NOFILE] t) k)"
      if t: "fkeep s1 t" and k: "\<And>u. fd_held (\<lambda>_. 0) u \<Longrightarrow> live np u \<Longrightarrow> fd_safe (k u)" for t and k :: "'a fkernel_scheme \<Rightarrow> (int \<times> 'a fkernel_scheme) res"
      unfolding fd_safe_def
      by (rule on_ret_bind [OF fork_files_held [OF H(1,2) [OF t]]]) (use H(3,4) [OF t] m k [unfolded fd_safe_def] in auto)
    have copy: "fd_safe (bind_res (copyuvm d z s1) k)" if "\<And>v t. fkeep s1 t \<Longrightarrow> fd_safe (k (v, t))" for d z k
      using mem_fkeep(6) [of s1 s1 d z] that unfolding keepsp_def fd_safe_def by (auto intro: on_ret_bind)
    have cond: "fd_safe (if b then x else y)" if "fd_safe x" "fd_safe y" for b and x y :: "(int \<times> 'a fkernel_scheme) res"
      using that by simp
    show ?thesis
      unfolding fork_def a Some Let_def prod.case option.case
      by (intro copy, unfold prod.case, intro cond bad good)
        (auto simp: proc_files_def intro!: frames fd_safe_fkeep [OF fork_end_keeps] simp del: ptable_upd_proc)
  qed
qed

section \<open>exit and wait\<close>

lemma fd_held_NPROC: "fd_held H s \<Longrightarrow> length (ptable s) = NPROC"
  by (simp add: fd_held_def fds_ok_def)

text \<open>\<open>exit\<close> closes a file before it clears the descriptor.\<close>

lemma fd_close_clear:
  assumes h: "fd_held H s" and me: "me < length (ptable s)" and k: "k < NOFILE" "p_ofile (ptable s ! me) ! k = Some f"
    and c: "fileclose me' f s = Inr s1"
  shows "fd_held H (set_fd me k None s1)"
proof -
  have ok: "fds_ok (length (ftable s)) (pfs s)" and cn: "ft.counted (\<lambda>f. nfd (pfs s) f + H f) s" using h by (simp_all add: fd_held_def)
  have k': "snd (pfs s ! me) ! k = Some f" "me < length (pfs s)" using k(2) pfs_nth(1) [OF me] me by simp_all
  note E = fileclose_effect [OF c fds_clear(4) [OF ok k'(2) k(1) k'(1)]]
  have l: "me < length (ptable s1)" using E(4) me by (metis length_map)
  note S = fds_clear(1,2) [OF ok k'(2) k(1) k'(1), of "fst (pfs s ! me)"] and pos = fds_clear(3) [OF ok k'(2) k(1) k'(1)]
  have p: "pfs (set_fd me k None s1) = (pfs s)[me := (fst (pfs s ! me), (snd (pfs s ! me))[k := None])]"
    unfolding pfs_set_fd [OF l] E(4) by simp
  have "fref s1 g = int (nfd (pfs (set_fd me k None s1)) g + H g)" for g
    unfolding p S(2) E(2) using cn pos by (auto simp: ft.counted_def)
  then show ?thesis using S(1) E(3) by (simp only: fd_held_def ft.counted_def upd_proc_file p simp_thms)
qed

lemma exit_files_held:
  assumes "fd_held H s" "me < length (ptable s)" "set ks \<subseteq> {..<NOFILE}" "\<forall>k < NOFILE. k \<in> set ks \<or> p_ofile (ptable s ! me) ! k = None"
  shows "on_ret (exit_files me ks s) (\<lambda>s'. fd_held H s' \<and> (\<forall>k < NOFILE. p_ofile (ptable s' ! me) ! k = None))"
  using assms
proof (induction ks arbitrary: s)
  case (Cons i ks)
  show ?case
  proof (cases "p_ofile (ptable s ! me) ! i")
    case None
    then have "on_ret (exit_files me ks s) (\<lambda>s'. fd_held H s' \<and> (\<forall>k < NOFILE. p_ofile (ptable s' ! me) ! k = None))"
      using Cons.prems by (intro Cons.IH) auto
    then show ?thesis using None by simp
  next
    case (Some f)
    have i: "i < NOFILE" using Cons.prems(3) by simp
    have "on_ret (exit_files me ks (set_fd me i None s1)) (\<lambda>s'. fd_held H s' \<and> (\<forall>k < NOFILE. p_ofile (ptable s' ! me) ! k = None))"
      if c: "fileclose me f s = Inr s1" for s1
    proof (rule Cons.IH)
      show h: "fd_held H (set_fd me i None s1)" by (rule fd_close_clear [OF Cons.prems(1,2) i Some c])
      have "pfs s1 = pfs s" by (rule fileclose_effect(4) [OF c fd_held_file [OF Cons.prems(1,2) i Some]])
      then have p: "length (ptable s1) = length (ptable s)" "p_ofile (ptable s1 ! me) = p_ofile (ptable s ! me)"
        using Cons.prems(2) pfs_nth(1) [of me s] pfs_nth(1) [of me s1] by (metis length_map)+
      then show "me < length (ptable (set_fd me i None s1))" using Cons.prems(2) by simp
      show "\<forall>k < NOFILE. k \<in> set ks \<or> p_ofile (ptable (set_fd me i None s1) ! me) ! k = None"
        using Cons.prems(2,4) p i fd_held_len [OF Cons.prems(1,2)] by (simp add: nth_update_if) metis
    qed (use Cons.prems in simp)
    then show ?thesis using Some by (auto simp: on_ret_def bind_res_eq_Inr_iff)
  qed
qed simp

lemma wakeup1_fkeep [frames]: "fkeep s s0 \<Longrightarrow> fkeep s (wakeup1 c s0)"
proof -
  have "proc_files \<circ> (\<lambda>p. if p_state p = SLEEPING \<and> p_chan p = c then p\<lparr>p_state := RUNNABLE\<rparr> else p) = proc_files"
    by (auto simp: fun_eq_iff proc_files_def)
  then show "fkeep s s0 \<Longrightarrow> fkeep s (wakeup1 c s0)" by (simp add: fkeep_def wakeup1_def)
qed

lemma exit_reparent_fkeep [frames]: "fkeep s s0 \<Longrightarrow> fkeep s (exit_reparent me ks s0)"
proof (induction ks arbitrary: s0)
  case (Cons k ks)
  have "fkeep s (upd_proc k (\<lambda>x. x\<lparr>p_parent := q\<rparr>) s0)" for q by (rule fkeep_upd_proc [OF Cons.prems]) (simp add: proc_files_def)
  then show ?case using Cons by (auto simp: Let_def intro: wakeup1_fkeep)
qed simp

lemma exit_proc_safe:
  assumes inv: "fd_inv s" and me: "me < NPROC"
  shows "on_ret (exit_proc me s) fd_inv"
  unfolding exit_proc_def
proof (rule on_ret_guard, rule on_ret_bind)
  have h: "fd_held (\<lambda>_. 0) s" using inv by (simp add: fd_held_0)
  show "on_ret (exit_files me [0..<NOFILE] s) (\<lambda>s'. fd_held (\<lambda>_. 0) s' \<and> (\<forall>k < NOFILE. p_ofile (ptable s' ! me) ! k = None))"
    by (rule exit_files_held [OF h]) (use me fd_held_NPROC [OF h] in auto)
next
  fix s1 :: "'a fkernel_scheme"
  assume s1: "fd_held (\<lambda>_. 0) s1 \<and> (\<forall>k < NOFILE. p_ofile (ptable s1 ! me) ! k = None)"
  then have me: "me < length (ptable s1)" using me fd_held_NPROC by metis
  have z: "fd_inv (upd_proc me (\<lambda>x. x\<lparr>p_state := ZOMBIE\<rparr>) t)" if "fkeep s1 t" for t
    unfolding fd_held_0
    by (rule fd_held_state) (use fd_held_keep [OF that] fkeep_ofile [OF that] s1 me in simp_all)
  let ?k = "\<lambda>s5. let s6 = wakeup1 (map_option CProc (p_parent (ptable s5 ! me))) s5 in exit_reparent me [0..<length (ptable s6)] s6"
  let ?r = "bind_res (begin_op s1) (\<lambda>s2. case p_cwd (ptable s2 ! me) of None \<Rightarrow> Inl (Undefined ''exit'') | Some cwd \<Rightarrow>
      bind_res (iput me cwd s2) (\<lambda>s3. bind_res (end_op me s3) (\<lambda>s4. Inr (?k (upd_proc me (\<lambda>x. x\<lparr>p_cwd := None\<rparr>) s4)))))"
  have "keeps fkeep s1 ?r" unfolding Let_def by (intro frames) (simp_all add: proc_files_def)
  then have "on_ret (bind_res ?r (\<lambda>t. Inr (upd_proc me (\<lambda>x. x\<lparr>p_state := ZOMBIE\<rparr>) t))) fd_inv"
    unfolding keeps_def by (rule on_ret_bind) (simp add: z)
  then show "on_ret (bind_res (begin_op s1) (\<lambda>s2. case p_cwd (ptable s2 ! me) of None \<Rightarrow> Inl (Undefined ''exit'') | Some cwd \<Rightarrow>
      bind_res (iput me cwd s2) (\<lambda>s3. bind_res (end_op me s3) (\<lambda>s4.
        let s5 = upd_proc me (\<lambda>x. x\<lparr>p_cwd := None\<rparr>) s4; s6 = wakeup1 (map_option CProc (p_parent (ptable s5 ! me))) s5;
            s7 = exit_reparent me [0..<length (ptable s6)] s6
        in Inr (upd_proc me (\<lambda>x. x\<lparr>p_state := ZOMBIE\<rparr>) s7))))) fd_inv"
    by (simp add: bind_res_assoc Let_def option.case_distrib [of "\<lambda>r. bind_res r _"] cong: option.case_cong del: ptable_upd_proc)
qed

lemma wait_fkeep:
  assumes me: "live me s"
  shows "keepsp fkeep s (wait_proc me s)" "keepsp fkeep s (waitx me w r s)"
proof -
  have reap: "keepsp fkeep s (bind_res (kfree v t) (\<lambda>s1. bind_res (freevm d (upd_proc i (\<lambda>q. q\<lparr>p_kstack := 0\<rparr>) s1)) (\<lambda>s2.
      Inr (x, upd_proc i g s2))))"
    if t: "fkeep s t" and i: "find_index (child_zombie me) (ptable s) = Some i" and g: "\<And>q. p_state (g q) = UNUSED \<and> p_ofile (g q) = p_ofile q"
    for t v d i g and x :: "int outcome"
  proof -
    have "i < length (ptable s)" "p_state (ptable s ! i) = ZOMBIE" using i by (simp_all add: find_index_Some_iff child_zombie_def)
    then have "proc_files (g (ptable u ! i)) = proc_files (ptable u ! i)" if "fkeep s u" for u
      using fkeep_ofile(3) [OF that, of i] g by (simp add: proc_files_def)
    then have G: "fkeep s (upd_proc i g u)" if "fkeep s u" for u using that by (intro fkeep_upd_slot) simp_all
    have K: "fkeep s (upd_proc i (\<lambda>q. q\<lparr>p_kstack := 0\<rparr>) u)" if "fkeep s u" for u
      by (rule fkeep_upd_proc [OF that]) (simp add: proc_files_def)
    show ?thesis by (rule keeps_bind(3) [OF mem_fkeep(1) [OF t]], rule keeps_bind(3) [OF mem_fkeep(2)]) (simp_all add: K G)
  qed
  have none: "keepsp fkeep s (if b then Inr (x, s) else Inr (y, sleep_on me ch s))" for b ch and x y :: "int outcome"
    using me by (auto intro!: keeps_ret fkeep_sleep)
  have store: "keeps fkeep s (waitx_store me va v t)" if "fkeep s t" for va v t
    unfolding waitx_store_def using that by (intro frames)
  show "keepsp fkeep s (wait_proc me s)"
    unfolding wait_proc_def Let_def
    by (cases "find_index (child_zombie me) (ptable s)"; simp only: option.case none) (auto intro!: reap)
  show "keepsp fkeep s (waitx me w r s)"
    unfolding waitx_def Let_def
    by (cases "find_index (child_zombie me) (ptable s)"; simp only: option.case none)
      (auto intro!: reap keeps_bind(3) [OF store])
qed

section \<open>Every system call and every trap\<close>

lemma sys_wait_safe:
  assumes inv: "fd_inv s" and me: "live me s"
  shows "fd_safe (sys_wait me s)" "fd_safe (sys_waitx me s)"
proof -
  have "keepsp fkeep s (sys_wait me s)" unfolding sys_wait_def by (rule keeps_bind(4) [OF wait_fkeep(1) [OF me]]) simp
  then show "fd_safe (sys_wait me s)" using inv by (rule fkeep_safe)
  have "keepsp fkeep s (bind_res (waitx me w r s) (\<lambda>(v, s1). Inr (outcome_result v, s1)))" for w r
    by (rule keeps_bind(4) [OF wait_fkeep(2) [OF me]]) simp
  then show "fd_safe (sys_waitx me s)"
    unfolding sys_waitx_def using inv
    by (intro fd_safe_pure) (auto intro!: fkeep_safe [of s] fd_safe_ret split: option.split)
qed

lemma run_syscall_safe:
  assumes inv: "fd_inv s" and me: "live me s"
  shows "fd_safe (run_syscall c me call s)"
proof (cases call)
  case SYS_fork
  have "fd_safe (sys_fork me s)"
    using fork_safe [OF assms] unfolding sys_fork_def fd_safe_def by (rule on_ret_bind) auto
  then show ?thesis using SYS_fork by simp
next
  case SYS_exit
  have "me < NPROC" using me fd_held_NPROC [OF inv [unfolded fd_held_0]] by (simp add: live_def)
  from exit_proc_safe [OF inv this] have "fd_safe (sys_exit me s)"
    unfolding sys_exit_def fd_safe_def by (rule on_ret_bind) simp
  then show ?thesis using SYS_exit by simp
qed (simp_all add: sys_wait_safe sys_pipe_safe sys_dup_safe sys_open_safe sys_close_safe assms
      fkeep_safe [OF sys_proc_fkeep(1) inv] fkeep_safe [OF sys_proc_fkeep(2) inv] fkeep_safe [OF sys_proc_fkeep(3) inv]
      fkeep_safe [OF sys_proc_fkeep(4) inv] fkeep_safe [OF sys_proc_fkeep(5) inv] fkeep_safe [OF sys_proc_fkeep(6) inv]
      fkeep_safe [OF sys_proc_fkeep(7) [OF me] inv] fkeep_safe [OF sys_exec_fkeep inv] fkeep_safe [OF sys_fstat_fkeep inv]
      fkeep_safe [OF sys_chdir_fkeep inv] fkeep_safe [OF sys_mknod_fkeep inv] fkeep_safe [OF sys_unlink_fkeep inv]
      fkeep_safe [OF sys_link_fkeep inv] fkeep_safe [OF sys_mkdir_fkeep inv] dkeep_safe [OF sys_rw_dkeep(1) inv]
      dkeep_safe [OF sys_rw_dkeep(2) inv])

lemma fd_inv_ram [simp]: "fd_inv (s\<lparr>ram := m\<rparr>) = fd_inv s"
  by (simp add: fd_inv_def fref_def)

lemma syscall_safe:
  assumes inv: "fd_inv s" and me: "live me s"
  shows "fd_safe (syscall c me s)"
proof -
  have p: "keeps fkeep s (cprintf f as s)" for f as by (rule cprintf_fkeep) simp
  have "fd_safe (bind_res (cprintf f as s) (\<lambda>s1. Inr (x, set_eax me v s1)))" for f as v and x :: sys_result
    unfolding fd_safe_def by (rule on_ret_bind [OF p [unfolded keeps_def]]) (simp add: set_eax_def fkeep_fd_inv [OF _ inv])
  moreover have "fd_safe (bind_res (run_syscall c me call s) (\<lambda>(r, s1). case r of Ret v \<Rightarrow> Inr (r, set_eax me v s1) | _ \<Rightarrow> Inr (r, s1)))" for call
    using run_syscall_safe [OF assms, of c call] unfolding fd_safe_def
    by (rule on_ret_bind) (auto simp: set_eax_def split: sys_result.split)
  ultimately show ?thesis unfolding syscall_def Let_def by (auto split: option.split)
qed

text \<open>Interrupts.\<close>

lemma procdump_fkeep [frames]: "fkeep s s0 \<Longrightarrow> keeps fkeep s (procdump s0)"
proof -
  have p: "fkeep s s0 \<Longrightarrow> keeps fkeep s (print_pcs pcs s0)" for pcs s0
    by (induction pcs arbitrary: s0) (auto intro!: frames)
  have "fkeep s s0 \<Longrightarrow> keeps fkeep s (procdump_from ps s0)" for ps s0
    by (induction ps arbitrary: s0) (auto intro!: frames p)
  then show "fkeep s s0 \<Longrightarrow> keeps fkeep s (procdump s0)" by (simp add: procdump_def)
qed

lemma consoleintr_fkeep [frames]: "fkeep s s0 \<Longrightarrow> keeps fkeep s (consoleintr cs s0)"
proof -
  have k: "fkeep s s0 \<Longrightarrow> keeps fkeep s (kill_line n s0)" for n s0
    by (induction n arbitrary: s0) (auto simp: Let_def intro!: frames)
  have c: "fkeep s s0 \<Longrightarrow> keeps fkeep s (console_char ch s0)" for ch s0
    unfolding console_char_def Let_def by (intro frames)
  have "fkeep s s0 \<Longrightarrow> keepsp fkeep s (consoleintr_loop cs d s0)" for cs d s0
    by (induction cs arbitrary: d s0) (auto intro!: frames k c simp del: kill_line.simps)
  then show "fkeep s s0 \<Longrightarrow> keeps fkeep s (consoleintr cs s0)" unfolding consoleintr_def by (auto intro!: frames)
qed

lemma trap_switch_fkeep: "keeps fkeep s (trap_switch c p tf cr2 s)"
proof -
  have t: "fkeep s (timer_tick c s)"
  proof -
    have "proc_files (tick_proc x) = proc_files x" for x by (cases "p_state x") (simp_all add: tick_proc_def proc_files_def)
    moreover have "fkeep s (wakeup CTicks (s\<lparr>ticks := ticks s + 1\<rparr>))" by (rule fkeep_simps) (simp add: fkeep_def)
    ultimately show ?thesis by (simp add: timer_tick_def tick_accounting_def fkeep_def comp_def)
  qed
  have d: "fkeep s (s\<lparr>kbd_shift := sh, kbd_queue := q\<rparr>)" "fkeep s (s\<lparr>uart_in := u\<rparr>)" for sh q u by (simp_all add: fkeep_def)
  have "keeps fkeep s (kbdintr s)" "keeps fkeep s (uartintr s)"
    unfolding kbdintr_def uartintr_def by (auto intro!: frames d split: prod.split)
  then show ?thesis
    unfolding trap_switch_def Let_def using t by (auto simp: proc_files_def intro!: frames split: option.split)
qed

lemma exit_then_safe: "fd_inv t \<Longrightarrow> me < NPROC \<Longrightarrow> fd_safe (bind_res (exit_proc me t) (\<lambda>u. Inr (x, u)))"
  unfolding fd_safe_def by (rule on_ret_bind [OF exit_proc_safe]) simp_all

lemma trap_safe:
  assumes inv: "fd_inv s" and p: "\<And>me. p = Some me \<Longrightarrow> live me s"
  shows "fd_safe (trap c p tf cr2 s)"
proof -
  have n: "me < NPROC" if "p = Some me" for me using p [OF that] fd_held_NPROC [OF inv [unfolded fd_held_0]] by (simp add: live_def)
  have x: "fd_safe (trap_exit p tf t)" if "fd_inv t" for t
    using that n unfolding trap_exit_def by (auto simp: fd_safe_ret exit_then_safe split: option.split)
  have y: "fd_safe (bind_res (trap_exit p tf t) k)" if "fd_inv t" "\<And>g u. fd_inv u \<Longrightarrow> fd_safe (k (g, u))" for t and k :: "_ \<Rightarrow> (trap_result \<times> 'a fkernel_scheme) res"
    unfolding fd_safe_def by (rule on_ret_bind [OF x [OF that(1), unfolded fd_safe_def]]) (use that(2) in \<open>auto simp: fd_safe_def\<close>)
  have call: "fd_safe (trap_syscall c me tf s)" if me: "p = Some me" for me
  proof -
    have k: "fkeep s (upd_proc me (\<lambda>x. x\<lparr>p_tf := tf\<rparr>) s)" by (rule fkeep_upd_proc) (simp_all add: proc_files_def)
    have "fd_safe (syscall c me (upd_proc me (\<lambda>x. x\<lparr>p_tf := tf\<rparr>) s))"
      using fkeep_fd_inv [OF k inv] fkeep_live [OF k] p [OF me] by (intro syscall_safe) simp_all
    then have "fd_safe (bind_res (syscall c me (upd_proc me (\<lambda>x. x\<lparr>p_tf := tf\<rparr>) s)) k)" if "\<And>r u. fd_inv u \<Longrightarrow> fd_safe (k (r, u))"
      for k :: "_ \<Rightarrow> (trap_result \<times> 'a fkernel_scheme) res"
      unfolding fd_safe_def by (rule on_ret_bind) (use that in \<open>auto simp: fd_safe_def\<close>)
    then show ?thesis unfolding trap_syscall_def using n [OF me] inv by (auto simp: fd_safe_ret exit_then_safe split: sys_result.split)
  qed
  have sw: "fd_safe (bind_res (trap_switch c p tf cr2 s) k)" if "\<And>t. fd_inv t \<Longrightarrow> fd_safe (k t)" for k :: "_ \<Rightarrow> (trap_result \<times> 'a fkernel_scheme) res"
    unfolding fd_safe_def
    by (rule on_ret_bind [OF trap_switch_fkeep [unfolded keeps_def]]) (use that fkeep_fd_inv [OF _ inv] in \<open>simp add: fd_safe_def\<close>)
  have "fd_safe (bind_res (trap_exit p tf u) (\<lambda>(g, v). Inr (if g then Exits else Resumes, v)))" if "fd_inv u" for u :: "'a fkernel_scheme"
    by (rule y [OF that]) (simp add: fd_safe_ret)
  then have "fd_safe (case p of Some i \<Rightarrow> if p_state (ptable u ! i) = RUNNING \<and> rd32 (ram u) (tf + 48) = T_IRQ0 then Inr (Yields, u)
        else bind_res (trap_exit p tf u) (\<lambda>(g, s3). Inr (if g then Exits else Resumes, s3)) | None \<Rightarrow> Inr (Resumes, u))" if "fd_inv u" for u :: "'a fkernel_scheme"
    using that by (cases p) (simp_all add: fd_safe_ret)
  then have "fd_safe (bind_res (trap_switch c p tf cr2 s) (\<lambda>s1. bind_res (trap_exit p tf s1) (\<lambda>(gone, u). if gone then Inr (Exits, u)
        else case p of Some i \<Rightarrow> if p_state (ptable u ! i) = RUNNING \<and> rd32 (ram u) (tf + 48) = T_IRQ0 then Inr (Yields, u)
          else bind_res (trap_exit p tf u) (\<lambda>(g, s3). Inr (if g then Exits else Resumes, s3)) | None \<Rightarrow> Inr (Resumes, u))))"
    by (intro sw y) (simp_all add: fd_safe_ret)
  moreover have "fd_safe (case p of None \<Rightarrow> Inl (Undefined ''trap'') | Some me \<Rightarrow> trap_syscall c me tf s)"
    using call by (cases p) (simp_all add: fd_safe_def)
  ultimately show ?thesis unfolding trap_def by simp
qed

text \<open>Property C6.  The count of every open file is the number of descriptors that refer to it, over all processes: no
  trap changes that, be it an interrupt or a system call that duplicates, closes, opens, inherits or abandons files.
  Descriptors refer to entries of the file table, and unused slots and zombies have none.\<close>

theorem trap_keeps_fd_counts:
  assumes "fd_inv s" and "\<And>me. p = Some me \<Longrightarrow> live me s" and "trap c p tf cr2 s = Inr (r, s')"
  shows "fd_inv s'"
  using on_retD [OF trap_safe [OF assms(1,2), unfolded fd_safe_def] assms(3)] by simp

text \<open>An example: a process with one open file calls \<open>dup(0)\<close>.\<close>

definition dup_ram :: mem where
  "dup_ram = (\<lambda>_. 1)(0x80300030 := 64, 0x80300031 := 0, 0x80300032 := 0, 0x80300033 := 0,
     0x8030001C := 10, 0x8030001D := 0, 0x8030001E := 0, 0x8030001F := 0,
     0x81010105 := 0, 0x81010106 := 0, 0x81010107 := 0, 0x81010108 := 0)"

definition dup_proc :: proc where
  "dup_proc = zero_proc\<lparr>p_state := RUNNING, p_pgdir := 0x80200000, p_sz := 0x02000000, p_ofile := Some 0 # None # replicate 14 None\<rparr>"

definition dup_file :: "int \<Rightarrow> fileent" where
  "dup_file n = \<lparr>f_type = FD_INODE, f_ref = n, f_readable = True, f_writable = False, f_pipe = 0, f_ip = 0, f_off = 0\<rparr>"

definition dup_kernel :: fkernel where
  "dup_kernel = ckernel.extend (fs_boot\<lparr>ram := dup_ram, ptable := dup_proc # replicate 63 zero_proc\<rparr>)
     \<lparr>ftable_lock = zero_lock, ftable = dup_file 1 # replicate 99 (dup_file 0)\<rparr>"

lemma dup_kernel_simps:
  "ptable dup_kernel = dup_proc # replicate 63 zero_proc" "ftable dup_kernel = dup_file 1 # replicate 99 (dup_file 0)" "ram dup_kernel = dup_ram"
  by (simp_all add: dup_kernel_def ckernel.extend_def)

lemma dup_ram_words:
  "rd32 dup_ram 0x80300030 = 64" "rd32 dup_ram 0x8030001C = 10" "rd32 dup_ram 0x80300044 = 0x01010101"
  "rd32 dup_ram 0x80200010 = 0x01010101" "rd32 dup_ram 0x81010040 = 0x01010101"
  by (simp_all add: rd32_def dup_ram_def)

lemma count_replicate: "count_list (replicate n a) b = (if a = b then n else 0)"
  by (induction n) auto

lemma dup_kernel_inv: "fd_inv dup_kernel" "live 0 dup_kernel"
proof -
  have "fd_entry 100 (proc_files dup_proc)" "fd_entry 100 (proc_files zero_proc)"
    by (auto simp: fd_entry_def proc_files_def dup_proc_def zero_proc_def nth_Cons split: nat.split)
  moreover have "nfd (pfs dup_kernel) f = of_bool (f = 0)" for f
    by (auto simp: nfd_def dup_kernel_simps proc_files_def dup_proc_def zero_proc_def count_replicate sum_list_replicate)
  moreover have "fref dup_kernel f = of_bool (f = 0)" for f
    by (auto simp: fref_def dup_kernel_simps dup_file_def nth_Cons split: nat.split)
  ultimately show "fd_inv dup_kernel" by (simp add: fd_inv_def fds_ok_def dup_kernel_simps)
  show "live 0 dup_kernel" by (simp add: live_def dup_kernel_simps dup_proc_def)
qed

theorem trap_keeps_fd_counts_witness:
  "\<exists>s'. trap 0 (Some 0) 0x80300000 0 dup_kernel = Inr (Resumes, s') \<and> fd_inv s' \<and> nfd (pfs s') 0 = 2"
proof -
  let ?s = "upd_proc 0 (\<lambda>x. x\<lparr>p_tf := 0x80300000\<rparr>) dup_kernel"
  let ?t = "upd_file 0 (\<lambda>x. x\<lparr>f_ref := f_ref x + 1\<rparr>) (set_fd 0 1 (Some 0) ?s)"
  have p: "p_tf (ptable ?s ! 0) = 0x80300000" "p_sz (ptable ?s ! 0) = 0x02000000" "p_pgdir (ptable ?s ! 0) = 0x80200000"
    "p_ofile (ptable ?s ! 0) = Some 0 # None # replicate 14 None" "ram ?s = dup_ram"
    by (simp_all add: dup_kernel_simps dup_proc_def upd_proc_def)
  have "uload8 0x80200000 a ?s = Inr 0" if "a \<in> {0x01010105, 0x01010106, 0x01010107, 0x01010108}" for a
    using that by (auto simp: uload8_def mmu_addr_def pt_entry_def pde_of_def pte_of_def table_of_def cell_def PDX_def PTX_def
        pte_present_def PTE_ADDR_def P2V_def PGROUNDDOWN_def dup_ram_words p(5)) (simp_all add: dup_ram_def)
  then have U: "uload32 0x80200000 0x01010105 ?s = Inr 0" by (simp add: uload32_def word32_def)
  have "argint 0 0 ?s = Inr (Some 0)" unfolding argint_def fetchint_def Let_def p by (simp add: dup_ram_words U)
  then have a: "argfd 0 0 ?s = Inr (Some (0, 0))" unfolding argfd_def p by simp
  have "fdalloc 0 0 ?s = (Some 1, set_fd 0 1 (Some 0) ?s)" unfolding fdalloc_def p by simp
  then have d: "sys_dup 0 ?s = Inr (Ret 1, ?t)"
    unfolding sys_dup_def a by (simp add: filedup_def guard_res_def dup_kernel_simps dup_file_def)
  have "map_of syscalls (sint (rd32 (ram ?s) (p_tf (ptable ?s ! 0) + 28))) = Some SYS_dup"
    unfolding p by (simp add: dup_ram_words syscalls_def)
  then have c: "syscall 0 0 ?s = Inr (Ret 1, set_eax 0 1 ?t)" unfolding syscall_def Let_def by (simp add: d)
  have k: "\<not> p_killed (ptable dup_kernel ! 0)" "\<not> p_killed (ptable (set_eax 0 1 ?t) ! 0)"
    by (simp_all add: set_eax_def upd_file_def dup_kernel_simps dup_proc_def zero_proc_def)
  then have t: "trap 0 (Some 0) 0x80300000 0 dup_kernel = Inr (Resumes, set_eax 0 1 ?t)"
    unfolding trap_def trap_syscall_def dup_kernel_simps(3) by (simp add: dup_ram_words c)
  have "fd_inv (set_eax 0 1 ?t)" by (rule trap_keeps_fd_counts [OF dup_kernel_inv(1) _ t]) (use dup_kernel_inv(2) in simp)
  moreover have "fref (set_eax 0 1 ?t) 0 = 2" by (simp add: fref_def set_eax_def upd_file_def dup_kernel_simps dup_file_def)
  ultimately show ?thesis using t by (auto simp: fd_inv_def)
qed

end
