(* ===== verification/Rw_Spec.thy ===== *)
theory Rw_Spec
  imports Rw Fs_Boot
begin

text \<open>
  The contract of \<open>readi\<close>, \<open>writei\<close> and \<open>iupdate\<close> over the contents of files: a file is a list of bytes, a read is a
  slice of it and a write replaces a slice.
\<close>

section \<open>The inode on disk\<close>

lemma dinode_off_bound: "dinode_off i + DINODE_SIZE \<le> BSIZE"
proof -
  have "unat i mod IPB < IPB" by simp
  then show ?thesis by (simp add: dinode_off_def)
qed

lemma IBLOCK_eq_iff: "IBLOCK n sb = IBLOCK m sb \<longleftrightarrow> unat n div IPB = unat m div IPB"
proof -
  have "IBLOCK n sb = IBLOCK m sb \<longleftrightarrow> n div of_nat IPB = m div of_nat IPB" by (simp add: IBLOCK_def)
  also have "\<dots> \<longleftrightarrow> unat (n div of_nat IPB) = unat (m div of_nat IPB)" by (simp only: word_unat_eq_iff)
  finally show ?thesis by (simp add: unat_div)
qed

lemma inode_slot_eq: "IBLOCK n sb = IBLOCK m sb \<Longrightarrow> unat n mod IPB = unat m mod IPB \<Longrightarrow> n = m"
  by (metis IBLOCK_eq_iff div_mult_mod_eq word_unat_eq_iff)

lemma get_put_dinode:
  assumes "length d = BSIZE" "length (di_addrs di) = NDIRECT + 1"
  shows "get_dinode (put_dinode d i di) i = di" "length (put_dinode d i di) = BSIZE"
    "unat j mod IPB \<noteq> unat i mod IPB \<Longrightarrow> get_dinode (put_dinode d i di) j = get_dinode d j"
proof -
  have l: "length (dinode_bytes di) = DINODE_SIZE" by (rule length_dinode_bytes [OF assms(2)])
  show "get_dinode (put_dinode d i di) i = di" "length (put_dinode d i di) = BSIZE"
    using dinode_off_bound [of i] l assms(1) dinode_roundtrip [OF assms(2)] by (simp_all add: get_dinode_def put_dinode_def)
  assume ne: "unat j mod IPB \<noteq> unat i mod IPB"
  have "slice (splice d (dinode_off i) (dinode_bytes di)) (dinode_off j) DINODE_SIZE = slice d (dinode_off j) DINODE_SIZE"
  proof (rule slice_splice_other)
    show "dinode_off j + DINODE_SIZE \<le> dinode_off i \<or> dinode_off i + length (dinode_bytes di) \<le> dinode_off j"
      using ne unfolding dinode_off_def l by (cases "unat j mod IPB < unat i mod IPB") simp_all
  qed (use dinode_off_bound [of i] dinode_off_bound [of j] l assms(1) in simp_all)
  then show "get_dinode (put_dinode d i di) j = get_dinode d j" by (simp add: get_dinode_def put_dinode_def)
qed

text \<open>The inode on disk agrees with the cached one.\<close>

definition synced :: "'a ikernel_scheme \<Rightarrow> nat \<Rightarrow> bool" where
  "synced s ip \<longleftrightarrow>
     get_dinode (bview s (IBLOCK (i_inum (inodes s ! ip)) (sblk s))) (i_inum (inodes s ! ip)) = inode_dinode (inodes s ! ip)"

lemma iupdate_spec:
  assumes t: "tx me [] (Suc k) s" and ok: "fs_ok s"
    and x: "i_dev (inodes s ! ip) = 1" "i_inum (inodes s ! ip) < sb_ninodes (sblk s)" "length (i_addrs (inodes s ! ip)) = NDIRECT + 1"
  defines "ib \<equiv> IBLOCK (i_inum (inodes s ! ip)) (sblk s)"
  shows "ok_res (iupdate me ip s) (\<lambda>s'. tx me [] k s' \<and>
     bview s' = (bview s)(ib := put_dinode (bview s ib) (i_inum (inodes s ! ip)) (inode_dinode (inodes s ! ip))) \<and> tx_frame s s')"
proof -
  let ?x = "inodes s ! ip"
  have n: "ib \<notin> snd ` set []" "ib < disksize s" using ok x(2) by (auto simp: ib_def fs_ok_def bitmap_ok_def)
  show ?thesis
    unfolding iupdate_def Let_def x(1) ib_def [symmetric]
  proof (rule ok_res_seq [OF tx_bread [OF t n]], simp, clarify)
    fix bp s1
    assume 1: "tx me [(bp, ib)] (Suc k) s1" "bview s1 = bview s" "dirty_blocks s1 = dirty_blocks s" "tx_frame s s1"
    have dd: "b_data (bufs s1 ! bp) = bview s ib" using tx_data [OF 1(1), of bp] 1(2) by simp
    have l: "length (put_dinode (b_data (bufs s1 ! bp)) (i_inum ?x) (inode_dinode ?x)) = BSIZE"
      unfolding dd by (rule get_put_dinode(2) [OF tx_bview_length [OF t]]) (simp add: inode_dinode_def x(3))
    show "ok_res (bind_res (log_write bp (upd_buf bp (\<lambda>b. b\<lparr>b_data := put_dinode (b_data b) (i_inum ?x) (inode_dinode ?x)\<rparr>) s1))
        (brelse me bp))
       (\<lambda>s'. tx me [] k s' \<and> bview s' = (bview s)(ib := put_dinode (bview s ib) (i_inum ?x) (inode_dinode ?x)) \<and> tx_frame s s')"
      by (rule ok_res_seq [OF tx_log_write [OF 1(1), where d = "\<lambda>b. put_dinode (b_data b) (i_inum ?x) (inode_dinode ?x)", OF l]],
          elim conjE, rule ok_res_mono [OF tx_brelse])
        (auto simp: 1 dd intro: tx_frame_trans [OF 1(4)] tx_frame_trans)
  qed
qed

text \<open>New contents for the block of an inode.\<close>

lemma meta_write:
  assumes ok: "fs_ok s" and i: "i < sb_ninodes (sblk s)"
    and s': "bview s' = (bview s)(IBLOCK i (sblk s) := d)" "sblk s' = sblk s" "disksize s' = disksize s"
  shows "grows {IBLOCK i (sblk s)} s s'"
proof -
  have "in_use s' m = in_use s m" if "m < sb_size (sblk s)" for m
  proof -
    have "BBLOCK m (sblk s) \<noteq> IBLOCK i (sblk s)" using ok i that unfolding fs_ok_def by metis
    then show ?thesis by (simp add: in_use_def s')
  qed
  moreover from this have "fs_ok s'" using ok unfolding fs_ok_def bitmap_ok_def s' by simp
  ultimately show ?thesis by (simp add: grows_def s')
qed

text \<open>Files whose blocks are not touched keep their content.\<close>

lemma content_grows:
  assumes g: "grows X s s'" and f: "file_ok s jp" and i: "inodes s' ! jp = inodes s ! jp" "length (inodes s') = length (inodes s)"
    and X: "file_blocks s (inodes s ! jp) \<inter> X = {}"
  shows "content s' jp = content s jp" "file_ok s' jp" "file_blocks s' (inodes s ! jp) = file_blocks s (inodes s ! jp)"
proof -
  let ?x = "inodes s ! jp"
  have io: "inode_ok s ?x" using f by (simp add: file_ok_def Let_def)
  have nd: "i_addrs ?x ! NDIRECT \<notin> X \<or> i_addrs ?x ! NDIRECT = 0" using X by (auto simp: file_blocks_def)
  have b: "blk_at s' ?x = blk_at s ?x" "inode_ok s' ?x"
    by (rule blk_at_grows [OF g io nd] inode_ok_grows [OF g io nd])+
  then show "file_blocks s' ?x = file_blocks s ?x" by (simp add: file_blocks_def)
  have "sblk s' = sblk s" using g by (simp add: grows_def)
  then show "file_ok s' jp" using f i b by (simp add: file_ok_def Let_def)
  have "fbyte s' ?x j = fbyte s ?x j" if j: "j < unat (i_size ?x)" for j
  proof -
    have "j div BSIZE < MAXFILE" "blk_at s ?x (j div BSIZE) \<noteq> 0"
      using f j by (auto simp: file_ok_def Let_def div_less_iff_less_mult)
    moreover from this have "data_block s (blk_at s ?x (j div BSIZE))" by (intro inode_okD(1) [OF io])
    moreover from calculation have "blk_at s ?x (j div BSIZE) \<notin> X" using X by (auto simp: file_blocks_def)
    ultimately show ?thesis using data_block_grows(2) [OF g] by (simp add: fbyte_def b)
  qed
  then show "content s' jp = content s jp" by (simp add: content_def i)
qed

section \<open>Reading\<close>

lemma content_slice:
  assumes "off + n \<le> unat (i_size (inodes s ! ip))"
  shows "map (fbyte s (inodes s ! ip)) [off..<off + n] = take n (drop off (content s ip))"
  using assms by (simp add: content_def drop_map take_map)

lemma frame_content:
  assumes f: "tx_frame s s'" and v: "bview s' = bview s" and ok: "fs_ok s" and x: "file_ok s ip"
  shows "content s' ip = content s ip" "file_ok s' ip" "fs_ok s'" "inodes s' = inodes s"
proof -
  note F = tx_frame_inode [OF f] tx_frameD(2) [OF f]
  have g: "grows {} s s'" by (rule grows_same [OF ok v F(2,4)])
  then show "fs_ok s'" by (simp add: grows_def)
  show "inodes s' = inodes s" by (rule F(1))
  show "content s' ip = content s ip" "file_ok s' ip" by (rule content_grows [OF g x]; simp add: F(1))+
qed

lemma small_sint:
  assumes "unat n \<le> MAXFILE * BSIZE"
  shows "sint (n :: u32) = int (unat n)"
proof -
  have "unat n < 2147483648" by (rule le_less_trans [OF assms]) simp
  then have "int (unat n) < int 2147483648" by (rule of_nat_less_iff [THEN iffD2])
  then have "uint n < 2147483648" by simp
  then have "sint (of_int (uint n) :: u32) = uint n" by (intro sint_of_int_small) simp_all
  then show ?thesis by simp
qed

text \<open>The files of the example file system.\<close>

lemma fs_boot_files:
  "file_ok fs_boot 0" "synced fs_boot 0" "content fs_boot 0 = []"
  "file_ok fs_boot 2" "synced fs_boot 2" "content fs_boot 2 = take 32 boot_dir"
proof -
  have x: "inodes fs_boot ! 0 = boot_inode" "inodes fs_boot ! 2 = boot_root" "length (inodes fs_boot) = 50"
    by (simp_all add: fs_boot_simps)
  have b0: "blk_at fs_boot boot_inode i = 0" if "i < MAXFILE" for i
    using that by (auto simp: blk_at_def boot_inode_def nth_Cons')
  have b1: "blk_at fs_boot boot_root i = (if i = 0 then 59 else 0)" if "i < MAXFILE" for i
    using that by (auto simp: blk_at_def boot_root_def boot_inode_def nth_Cons')
  have meta: "59 \<notin> meta_blocks fs_boot"
  proof -
    have "BBLOCK m (sblk fs_boot) \<noteq> 59" if "m < 1000" for m
      using fs_boot_bblock [OF that] by simp
    moreover have "IBLOCK i (sblk fs_boot) \<noteq> 59" if "i < 200" for i
      using fs_boot_iblock_less [OF that] by auto
    ultimately show ?thesis by (auto simp: meta_blocks_def fs_boot_simps(8))
  qed
  have d: "data_block fs_boot 59" using meta fs_boot_use [of 59] by (simp add: data_block_def fs_boot_simps(8))
  show "file_ok fs_boot 0"
    unfolding file_ok_def Let_def x inode_ok_def using b0 by (simp add: boot_inode_def fs_boot_simps(7,8))
  have io: "inode_ok fs_boot boot_root"
    unfolding inode_ok_def using b1 d by (auto simp: boot_root_def boot_inode_def)
  have "blk_at fs_boot boot_root (j div BSIZE) = 59" if "j < 32" for j
    using b1 [of "j div BSIZE"] that by simp
  note bl = this
  show "file_ok fs_boot 2"
    unfolding file_ok_def Let_def x using io bl by (simp add: boot_root_def boot_inode_def fs_boot_simps(7,8))
  show "content fs_boot 0 = []" by (simp add: content_def x boot_inode_def)
  have "fbyte fs_boot boot_root j = boot_dir ! j" if "j < 32" for j
    using bl [OF that] that by (simp add: fbyte_def fs_boot_cache(4) boot_disk_def)
  moreover have "length boot_dir = BSIZE" by (simp add: boot_dir_def)
  moreover have "unat (i_size boot_root) = 32" by (simp add: boot_root_def)
  ultimately show "content fs_boot 2 = take 32 boot_dir"
    unfolding content_def x(2) by (intro nth_equalityI) simp_all
  have ib: "IBLOCK 1 (sblk fs_boot) = 32" "IBLOCK 2 (sblk fs_boot) = 32" by (simp_all add: IBLOCK_def fs_boot_simps(8))
  have "length (di_addrs (inode_dinode boot_inode)) = NDIRECT + 1" "length (di_addrs (inode_dinode boot_root)) = NDIRECT + 1"
    by (simp_all add: inode_dinode_def boot_inode_def boot_root_def)
  note D = get_put_dinode(1,2) [OF _ this(1), where i = 2] get_put_dinode(3) [OF _ this(1), where i = 2] get_put_dinode [OF _ this(2), of "replicate BSIZE 0" 1]
  have i: "i_inum boot_inode = 2" "i_inum boot_root = 1" by (simp_all add: boot_inode_def boot_root_def)
  have "get_dinode (boot_disk 32) 1 = inode_dinode boot_root" using D(3) [of "put_dinode (replicate BSIZE 0) 1 (inode_dinode boot_root)" 1] D(4,5)
    by (simp add: boot_disk_def)
  moreover have "get_dinode (boot_disk 32) 2 = inode_dinode boot_inode" using D(1,5) by (simp add: boot_disk_def)
  ultimately show "synced fs_boot 0" "synced fs_boot 2" by (simp_all add: synced_def x i ib fs_boot_cache(4))
qed

text \<open>
  Property C32.  Reading a file: an offset past the end, or a range that wraps around, is refused; otherwise \<open>readi\<close>
  returns the bytes of the file from the offset on, at most \<open>n\<close> of them and less at the end of the file, and leaves
  the contents of all files as they were.
\<close>

theorem readi_slice:
  assumes t: "tx me [] k s" and ok: "fs_ok s" "file_ok s ip"
  shows "if off > i_size (inodes s ! ip) \<or> off + n < off then readi me ip off n s = Inr ((-1, []), s)
    else \<exists>s'. readi me ip off n s =
           Inr ((int (length (take (unat n) (drop (unat off) (content s ip)))), take (unat n) (drop (unat off) (content s ip))), s') \<and>
         tx me [] k s' \<and> bview s' = bview s \<and> inodes s' = inodes s \<and> tx_frame s s'"
proof -
  let ?x = "inodes s ! ip"
  have dev: "i_type ?x \<noteq> T_DEV" and sz: "unat (i_size ?x) \<le> MAXFILE * BSIZE" and io: "inode_ok s ?x"
    using ok(2) by (simp_all add: file_ok_def Let_def)
  show ?thesis
  proof (cases "off > i_size ?x \<or> off + n < off")
    case True
    then show ?thesis using dev by (simp add: readi_def)
  next
    case False
    define m where "m = (if off + n > i_size ?x then i_size ?x - off else n)"
    have o: "unat off \<le> unat (i_size ?x)" using False by (simp add: word_le_nat_alt not_less)
    have sum: "unat (off + n) = unat off + unat n" using False by (simp add: not_less unat_plus_simple)
    have m: "unat m = min (unat n) (unat (i_size ?x) - unat off)"
      using False sum by (auto simp: m_def word_less_nat_alt unat_sub word_le_nat_alt not_less)
    have r: "unat off + unat m \<le> unat (i_size ?x)" using o m by simp
    have len: "length (content s ip) = unat (i_size ?x)" by (simp add: content_def)
    have e: "take (unat m) (drop (unat off) (content s ip)) = take (unat n) (drop (unat off) (content s ip))"
      using m len by (simp add: min_def)
    have "ok_res (readi_loop me ip (unat off) (unat m) s) (\<lambda>(bs, s').
        bs = map (fbyte s ?x) [unat off..<unat off + unat m] \<and> tx me [] k s' \<and> bview s' = bview s \<and>
        dirty_blocks s' = dirty_blocks s \<and> tx_frame s s')"
      by (rule readi_loop_spec [OF t ok(1) io]) (use r sz ok(2) in \<open>auto simp: file_ok_def Let_def\<close>)
    then obtain s' where s': "readi_loop me ip (unat off) (unat m) s = Inr (take (unat m) (drop (unat off) (content s ip)), s')"
      "tx me [] k s'" "bview s' = bview s" "tx_frame s s'"
      unfolding content_slice [OF r] by (auto simp: ok_res_iff)
    have "sint m = int (length (take (unat m) (drop (unat off) (content s ip))))"
      using small_sint [of m] r sz len by simp
    then have "readi me ip off n s = Inr ((int (length (take (unat n) (drop (unat off) (content s ip)))),
        take (unat n) (drop (unat off) (content s ip))), s')"
      using dev False s'(1) unfolding readi_def Let_def m_def [symmetric] e by simp
    then show ?thesis using False s' tx_frame_inode(1) [OF s'(4)] by auto
  qed
qed

theorem readi_slice_witness:
  "\<exists>s'. readi 0 2 14 100 fs_boot = Inr ((18, take 18 (drop 14 boot_dir)), s')"
proof -
  have sz: "i_size (inodes fs_boot ! 2) = 32" by (simp add: fs_boot_simps boot_root_def)
  have "length boot_dir = BSIZE" by (simp add: boot_dir_def)
  then have e: "take 100 (drop 14 (content fs_boot 2)) = take 18 (drop 14 boot_dir)" "length (take 18 (drop 14 boot_dir)) = 18"
    by (simp_all add: fs_boot_files(6) drop_take)
  show ?thesis
    using readi_slice [OF fs_boot_tx [of 0 0] fs_boot_ok fs_boot_files(4), of 14 100] e by (auto simp: sz)
qed

section \<open>Writing\<close>

definition replace_at :: "u8 list \<Rightarrow> nat \<Rightarrow> u8 list \<Rightarrow> u8 list" where
  "replace_at c off bs = take off c @ bs @ drop (off + length bs) c"

lemma nth_replace_at:
  assumes "off \<le> length c" "j < length (replace_at c off bs)"
  shows "replace_at c off bs ! j = (if off \<le> j \<and> j < off + length bs then bs ! (j - off) else c ! j)"
  using assms by (auto simp: replace_at_def nth_append)

lemma blk_at_size [simp]: "blk_at s (x\<lparr>i_size := z\<rparr>) = blk_at s x"
  by (simp add: blk_at_def fun_eq_iff)

lemma fbyte_size [simp]: "fbyte s (x\<lparr>i_size := z\<rparr>) = fbyte s x" "inode_ok s (x\<lparr>i_size := z\<rparr>) = inode_ok s x"
  "file_blocks s (x\<lparr>i_size := z\<rparr>) = file_blocks s x"
  by (simp_all add: fbyte_def fun_eq_iff inode_ok_def file_blocks_def)

lemma fbyte_upd [simp]: "fbyte (s\<lparr>inodes := v\<rparr>) = fbyte s" "file_blocks (s\<lparr>inodes := v\<rparr>) = file_blocks s"
  by (simp_all add: fbyte_def file_blocks_def fun_eq_iff)

lemma file_blocks_meta:
  assumes "file_ok s ip" "i < sb_ninodes (sblk s)"
  shows "IBLOCK i (sblk s) \<notin> file_blocks s (inodes s ! ip)"
  using assms by (auto simp: file_ok_def Let_def file_blocks_def inode_ok_def data_block_def meta_blocks_def)

lemma file_wroteD:
  assumes "file_wrote ip off bs s s'"
  shows "\<exists>as. inodes s' = (inodes s)[ip := (inodes s ! ip)\<lparr>i_addrs := as\<rparr>]" "inode_ok s' (inodes s' ! ip)"
    "i < MAXFILE \<Longrightarrow> blk_at s (inodes s ! ip) i \<noteq> 0 \<Longrightarrow> blk_at s' (inodes s' ! ip) i = blk_at s (inodes s ! ip) i"
    "off \<le> j \<Longrightarrow> j < off + length bs \<Longrightarrow> blk_at s' (inodes s' ! ip) (j div BSIZE) \<noteq> 0"
    "off \<le> j \<Longrightarrow> j < off + length bs \<Longrightarrow> fbyte s' (inodes s' ! ip) j = bs ! (j - off)"
    "j < MAXFILE * BSIZE \<Longrightarrow> blk_at s (inodes s ! ip) (j div BSIZE) \<noteq> 0 \<Longrightarrow> \<not> (off \<le> j \<and> j < off + length bs) \<Longrightarrow>
       fbyte s' (inodes s' ! ip) j = fbyte s (inodes s ! ip) j"
    "file_blocks s' (inodes s' ! ip) \<subseteq> file_blocks s (inodes s ! ip) \<union> {n. \<not> in_use s n}"
    "grows (file_blocks s (inodes s ! ip)) s s'" "fs_frame s s'"
    "(\<And>j. off \<le> j \<Longrightarrow> j < off + length bs \<Longrightarrow> blk_at s (inodes s ! ip) (j div BSIZE) \<noteq> 0) \<Longrightarrow> inodes s' = inodes s"
  using assms unfolding file_wrote_def Let_def by simp_all

lemma file_wrote_content:
  assumes w: "file_wrote ip off bs s s1" and f: "file_ok s ip" and r: "off \<le> unat (i_size (inodes s ! ip))" "off + length bs \<le> MAXFILE * BSIZE"
    and z: "unat z = max (unat (i_size (inodes s ! ip))) (off + length bs)"
  defines "s2 \<equiv> upd_inode ip (\<lambda>y. y\<lparr>i_size := z\<rparr>) s1"
  shows "file_ok s2 ip" "content s2 ip = replace_at (content s ip) off bs"
proof -
  let ?x = "inodes s ! ip" and ?x1 = "inodes s1 ! ip"
  note W = file_wroteD [OF w]
  have ip: "ip < length (inodes s)" using f by (simp add: file_ok_def Let_def)
  obtain as where as: "inodes s1 = (inodes s)[ip := ?x\<lparr>i_addrs := as\<rparr>]" using W(1) by blast
  then have x1: "?x1 = ?x\<lparr>i_addrs := as\<rparr>" using ip by simp
  have x2: "inodes s2 ! ip = ?x1\<lparr>i_size := z\<rparr>" "ip < length (inodes s2)" "sblk s2 = sblk s"
    using ip W(8) by (simp_all add: s2_def upd_inode_eq grows_def as)
  have fb2: "fbyte s2 = fbyte s1" by (simp add: s2_def upd_inode_eq)
  have sz: "unat (i_size ?x) \<le> MAXFILE * BSIZE" using f by (simp add: file_ok_def Let_def)
  have blk: "blk_at s1 ?x1 (j div BSIZE) \<noteq> 0 \<and> fbyte s1 ?x1 j =
      (if off \<le> j \<and> j < off + length bs then bs ! (j - off) else fbyte s ?x j)" if j: "j < unat z" for j
  proof (cases "off \<le> j \<and> j < off + length bs")
    case True
    then show ?thesis using W(4,5) by simp
  next
    case False
    then have js: "j < unat (i_size ?x)" using j z r(1) by auto
    then have "blk_at s ?x (j div BSIZE) \<noteq> 0" using f by (simp add: file_ok_def Let_def)
    moreover have jm: "j < MAXFILE * BSIZE" using js sz by simp
    moreover from jm have "j div BSIZE < MAXFILE" by (simp add: div_less_iff_less_mult)
    ultimately show ?thesis using W(3) W(6) [OF jm _ False] False by auto
  qed
  have zm: "unat z \<le> MAXFILE * BSIZE" using z sz r(2) by simp
  show "file_ok s2 ip"
    unfolding file_ok_def Let_def x2 using f W(2) blk zm x2(2) x1
    by (simp add: s2_def upd_inode_eq file_ok_def Let_def)
  have len: "length (content s ip) = unat (i_size ?x)" by (simp add: content_def)
  have lr: "length (replace_at (content s ip) off bs) = unat z" using r(1) z len by (simp add: replace_at_def)
  show "content s2 ip = replace_at (content s ip) off bs"
  proof (rule nth_equalityI)
    show "length (content s2 ip) = length (replace_at (content s ip) off bs)" unfolding lr by (simp add: content_def x2)
    fix j
    assume "j < length (content s2 ip)"
    then have j: "j < unat z" by (simp add: content_def x2)
    have "content s2 ip ! j = fbyte s1 ?x1 j" using j by (simp add: content_def x2 fb2)
    moreover have "fbyte s ?x j = content s ip ! j" if no: "\<not> (off \<le> j \<and> j < off + length bs)"
    proof -
      have "j < unat (i_size ?x)" using no j z r(1) by linarith
      then show ?thesis by (simp add: content_def)
    qed
    ultimately show "content s2 ip ! j = replace_at (content s ip) off bs ! j"
      using blk [OF j] nth_replace_at [of off "content s ip" j bs] r(1) len lr j by simp
  qed
qed

text \<open>After the loop: the size, and the inode on disk.\<close>

lemma synced_grows:
  assumes g: "grows X s s'" and i: "i_inum (inodes s ! jp) < sb_ninodes (sblk s)" "inodes s' ! jp = inodes s ! jp"
    and X: "IBLOCK (i_inum (inodes s ! jp)) (sblk s) \<notin> X" and y: "synced s jp" and ok: "fs_ok s"
  shows "synced s' jp"
proof -
  let ?b = "IBLOCK (i_inum (inodes s ! jp)) (sblk s)"
  have "?b < sb_size (sblk s)" "in_use s ?b" "\<forall>m < sb_size (sblk s). ?b \<noteq> BBLOCK m (sblk s)"
    using ok i(1) unfolding fs_ok_def by blast+
  then have "bview s' ?b = bview s ?b" "sblk s' = sblk s" using g X unfolding grows_def by blast+
  then show ?thesis using y i(2) by (simp add: synced_def)
qed

lemma iupdate_files:
  assumes t: "tx me [] (Suc k) s" and ok: "fs_ok s" "file_ok s ip"
  shows "ok_res (iupdate me ip s) (\<lambda>s'. tx me [] k s' \<and> fs_ok s' \<and> inodes s' = inodes s \<and> synced s' ip \<and> tx_frame s s' \<and>
     (\<forall>jp. file_ok s jp \<longrightarrow> content s' jp = content s jp \<and> file_ok s' jp \<and>
        (synced s jp \<longrightarrow> i_inum (inodes s ! jp) \<noteq> i_inum (inodes s ! ip) \<longrightarrow> synced s' jp)))"
proof -
  let ?x = "inodes s ! ip"
  have x: "i_dev ?x = 1" "i_inum ?x < sb_ninodes (sblk s)" "length (i_addrs ?x) = NDIRECT + 1"
    using ok(2) by (simp_all add: file_ok_def Let_def inode_ok_def)
  let ?ib = "IBLOCK (i_inum ?x) (sblk s)"
  show ?thesis
  proof (rule ok_res_mono [OF iupdate_spec [OF t ok(1) x]], elim conjE)
    fix s'
    assume 1: "tx me [] k s'" "bview s' = (bview s)(?ib := put_dinode (bview s ?ib) (i_inum ?x) (inode_dinode ?x))" "tx_frame s s'"
    note F = tx_frame_inode [OF 1(3)] tx_frameD(2) [OF 1(3)]
    note g = meta_write [OF ok(1) x(2) 1(2) F(2,4)]
    have d: "length (bview s ?ib) = BSIZE" "length (di_addrs (inode_dinode ?x)) = NDIRECT + 1"
      using tx_bview_length [OF t] x(3) by (simp_all add: inode_dinode_def)
    note D = get_put_dinode [OF d]
    have "synced s' ip" using D(1) by (simp add: synced_def F 1(2))
    moreover have "content s' jp = content s jp \<and> file_ok s' jp" if "file_ok s jp" for jp
      using content_grows [OF g that] file_blocks_meta [OF that x(2)] F(1) by simp
    moreover have "synced s' jp" if jp: "file_ok s jp" "synced s jp" "i_inum (inodes s ! jp) \<noteq> i_inum ?x" for jp
    proof (cases "IBLOCK (i_inum (inodes s ! jp)) (sblk s) = ?ib")
      case True
      then have "unat (i_inum (inodes s ! jp)) mod IPB \<noteq> unat (i_inum ?x) mod IPB"
        using jp(3) inode_slot_eq by blast
      then show ?thesis using D(3) jp(2) True by (simp add: synced_def F 1(2))
    next
      case False
      have "i_inum (inodes s ! jp) < sb_ninodes (sblk s)" using jp(1) by (simp add: file_ok_def Let_def)
      then show ?thesis using False F(1) by (intro synced_grows [OF g _ _ _ jp(2) ok(1)]) simp_all
    qed
    ultimately show "tx me [] k s' \<and> fs_ok s' \<and> inodes s' = inodes s \<and> synced s' ip \<and> tx_frame s s' \<and>
     (\<forall>jp. file_ok s jp \<longrightarrow> content s' jp = content s jp \<and> file_ok s' jp \<and>
        (synced s jp \<longrightarrow> i_inum (inodes s ! jp) \<noteq> i_inum (inodes s ! ip) \<longrightarrow> synced s' jp))"
      using 1 F g by (simp add: grows_def)
  qed
qed

text \<open>The end of \<open>writei\<close>: the larger size goes to the inode and to the disk; otherwise nothing is left to do.\<close>

lemma writei_tail:
  assumes w: "file_wrote ip off bs s s1" and t: "tx me [] (Suc k) s1" and ok: "fs_ok s" "file_ok s ip" "synced s ip"
    and r: "off \<le> unat (i_size (inodes s ! ip))" "off + length bs \<le> MAXFILE * BSIZE" and e: "unat e = off + length bs"
  shows "ok_res (if bs \<noteq> [] \<and> e > i_size (inodes s1 ! ip) then iupdate me ip (upd_inode ip (\<lambda>y. y\<lparr>i_size := e\<rparr>) s1) else Inr s1)
    (\<lambda>s'. content s' ip = replace_at (content s ip) off bs \<and> file_ok s' ip \<and> synced s' ip \<and> fs_ok s' \<and> tx me [] k s' \<and>
      fs_frame s s' \<and>
      (\<forall>jp. jp \<noteq> ip \<longrightarrow> file_ok s jp \<longrightarrow> file_blocks s (inodes s ! jp) \<inter> file_blocks s (inodes s ! ip) = {} \<longrightarrow>
        content s' jp = content s jp \<and> file_ok s' jp \<and>
        (synced s jp \<longrightarrow> i_inum (inodes s ! jp) \<noteq> i_inum (inodes s ! ip) \<longrightarrow> synced s' jp)))"
proof -
  let ?x = "inodes s ! ip" and ?x1 = "inodes s1 ! ip"
  note W = file_wroteD [OF w]
  have ip: "ip < length (inodes s)" using ok(2) by (simp add: file_ok_def Let_def)
  obtain as where as: "inodes s1 = (inodes s)[ip := ?x\<lparr>i_addrs := as\<rparr>]" using W(1) by blast
  have x1: "i_size ?x1 = i_size ?x" "i_inum ?x1 = i_inum ?x" using as ip by simp_all
  have ok1: "fs_ok s1" "sblk s1 = sblk s" using W(8) by (simp_all add: grows_def)
  have other: "content s1 jp = content s jp" "file_ok s1 jp" "inodes s1 ! jp = inodes s ! jp"
    "synced s jp \<Longrightarrow> synced s1 jp"
    if jp: "jp \<noteq> ip" "file_ok s jp" "file_blocks s (inodes s ! jp) \<inter> file_blocks s ?x = {}" for jp
  proof -
    show i: "inodes s1 ! jp = inodes s ! jp" using as jp(1) by simp
    show "content s1 jp = content s jp" "file_ok s1 jp" by (rule content_grows [OF W(8) jp(2) i _ jp(3)]; simp add: as)+
    have inum: "i_inum (inodes s ! jp) < sb_ninodes (sblk s)" using jp(2) by (simp add: file_ok_def Let_def)
    show "synced s1 jp" if "synced s jp"
      by (rule synced_grows [OF W(8) inum i file_blocks_meta [OF ok(2) inum] that ok(1)])
  qed
  show ?thesis
  proof (cases "bs \<noteq> [] \<and> e > i_size ?x1")
    case True
    let ?s2 = "upd_inode ip (\<lambda>y. y\<lparr>i_size := e\<rparr>) s1"
    have z: "unat e = max (unat (i_size ?x)) (off + length bs)" using True x1 e by (simp add: word_less_nat_alt)
    note C = file_wrote_content [OF w ok(2) r z]
    have t2: "tx me [] (Suc k) ?s2" "fs_ok ?s2" "sblk ?s2 = sblk s" using t ok1 by (simp_all add: upd_inode_eq)
    have n2: "inodes ?s2 ! jp = inodes s1 ! jp" "length (inodes ?s2) = length (inodes s1)" if "jp \<noteq> ip" for jp
      using that by (simp_all add: upd_inode_eq)
    have g2: "grows {} s1 ?s2" by (rule grows_same [OF ok1(1)]) (simp_all add: upd_inode_eq)
    have o2: "content ?s2 jp = content s1 jp" "file_ok ?s2 jp" if "jp \<noteq> ip" "file_ok s1 jp" for jp
      by (rule content_grows [OF g2 that(2) n2 [OF that(1)]]; simp)+
    have y2: "synced ?s2 jp" if "jp \<noteq> ip" "synced s1 jp" for jp
      using that n2(1) [OF that(1)] by (simp add: synced_def upd_inode_eq)
    have fr: "fs_frame s ?s2" using W(9) by simp
    have i2: "i_inum (inodes ?s2 ! ip) = i_inum ?x" using ip as by (simp add: upd_inode_eq)
    show ?thesis
      unfolding if_P [OF True]
    proof (rule ok_res_mono [OF iupdate_files [OF t2(1,2) C(1)]], elim conjE, intro conjI allI impI)
      fix s'
      assume s': "tx me [] k s'" "fs_ok s'" "inodes s' = inodes ?s2" "synced s' ip" "tx_frame ?s2 s'"
        and all: "\<forall>jp. file_ok ?s2 jp \<longrightarrow> content s' jp = content ?s2 jp \<and> file_ok s' jp \<and>
          (synced ?s2 jp \<longrightarrow> i_inum (inodes ?s2 ! jp) \<noteq> i_inum (inodes ?s2 ! ip) \<longrightarrow> synced s' jp)"
      show "content s' ip = replace_at (content s ip) off bs" "file_ok s' ip" using all C by simp_all
      show "fs_frame s s'" by (rule fs_frame_trans [OF fr fs_frame_tx [OF s'(5)]])
      fix jp
      assume jp: "jp \<noteq> ip" "file_ok s jp" "file_blocks s (inodes s ! jp) \<inter> file_blocks s ?x = {}"
      note O = other [OF jp] and O2 = o2 [OF jp(1) other(2) [OF jp]]
      show "content s' jp = content s jp" "file_ok s' jp" using all O(1) O2 by simp_all
      assume "synced s jp" "i_inum (inodes s ! jp) \<noteq> i_inum ?x"
      then show "synced s' jp" using all O2(2) y2 [OF jp(1) O(4)] n2(1) [OF jp(1)] O(3) i2 by simp
    qed
  next
    case False
    have nz: "\<not> (bs \<noteq> [] \<and> unat e > unat (i_size ?x))" using False x1 by (simp add: word_less_nat_alt)
    then have z: "unat (i_size ?x) = max (unat (i_size ?x)) (off + length bs)" using e r(1) by (cases "bs = []") simp_all
    have same: "inodes s1 = inodes s"
    proof (rule W(10))
      fix j
      assume "off \<le> j" "j < off + length bs"
      then have "j < unat (i_size ?x)" using z by linarith
      then show "blk_at s ?x (j div BSIZE) \<noteq> 0" using ok(2) by (simp add: file_ok_def Let_def)
    qed
    have "upd_inode ip (\<lambda>y. y\<lparr>i_size := i_size ?x\<rparr>) s1 = s1" by (simp add: upd_inode_eq same)
    note C = file_wrote_content [OF w ok(2) r z, unfolded this]
    have inum: "i_inum ?x < sb_ninodes (sblk s)" using ok(2) by (simp add: file_ok_def Let_def)
    have "synced s1 ip" by (rule synced_grows [OF W(8) inum _ file_blocks_meta [OF ok(2) inum] ok(3,1)]) (simp add: same)
    then show ?thesis
      unfolding if_not_P [OF False] using C ok1 W(9) other tx_less [OF t, of k] by simp
  qed
qed

lemma writei_in_range:
  assumes t: "tx me [] (6 * q + 1) s" and ok: "fs_ok s" "file_ok s ip" "synced s ip"
    and q: "unat off mod BSIZE + unat n \<le> q * BSIZE" "2 * q \<le> card (free_blocks s)"
    and src: "\<And>j. j < unat n \<Longrightarrow> src j = Inr (f j)"
    and in_range: "\<not> (off > i_size (inodes s ! ip) \<or> off + n < off \<or> off + n > of_nat (MAXFILE * BSIZE))"
  shows "ok_res (writei me ip src off n s) (\<lambda>(r, s'). r = int (unat n) \<and>
       content s' ip = replace_at (content s ip) (unat off) (map f [0..<unat n]) \<and>
       file_ok s' ip \<and> synced s' ip \<and> fs_ok s' \<and> tx me [] 0 s' \<and> fs_frame s s' \<and>
       (\<forall>jp. jp \<noteq> ip \<longrightarrow> file_ok s jp \<longrightarrow> file_blocks s (inodes s ! jp) \<inter> file_blocks s (inodes s ! ip) = {} \<longrightarrow>
          content s' jp = content s jp \<and> file_ok s' jp \<and>
          (synced s jp \<longrightarrow> i_inum (inodes s ! jp) \<noteq> i_inum (inodes s ! ip) \<longrightarrow> synced s' jp)))"
proof -
  let ?x = "inodes s ! ip" and ?bs = "map f [0..<unat n]"
  have dev: "i_type ?x \<noteq> T_DEV" and io: "inode_ok s ?x" and ip: "ip < length (inodes s)"
    using ok(2) by (simp_all add: file_ok_def Let_def)
  have o: "unat off \<le> unat (i_size ?x)" using in_range by (simp add: word_le_nat_alt not_less)
  have sum: "unat (off + n) = unat off + unat n" using in_range by (simp add: not_less unat_plus_simple)
  have "unat (of_nat (MAXFILE * BSIZE) :: u32) = MAXFILE * BSIZE" by simp
  then have mx: "unat off + unat n \<le> MAXFILE * BSIZE" using in_range sum by (simp add: word_le_nat_alt not_less)
  have loop: "ok_res (writei_loop me ip src 0 (unat off) (unat n) s) (\<lambda>s'. tx me [] 1 s' \<and> file_wrote ip (unat off) (map f [0..<0 + unat n]) s s')"
    using mx q src by (intro writei_loop_spec [OF t ok(1) io ip]) auto
  have nz: "?bs \<noteq> [] \<longleftrightarrow> n > 0" by (simp add: word_greater_zero_iff unat_gt_0)
  have sn: "sint n = int (unat n)" using mx by (intro small_sint) simp
  have run: "writei me ip src off n s = bind_res (writei_loop me ip src 0 (unat off) (unat n) s) (\<lambda>s1.
      bind_res (if ?bs \<noteq> [] \<and> off + n > i_size (inodes s1 ! ip)
        then iupdate me ip (upd_inode ip (\<lambda>y. y\<lparr>i_size := off + n\<rparr>) s1) else Inr s1) (\<lambda>s2. Inr (int (unat n), s2)))"
    using in_range dev unfolding writei_def Let_def nz sn by simp
  show ?thesis
    unfolding run
  proof (rule ok_res_seq [OF loop], elim conjE)
    fix s1
    assume "tx me [] 1 s1" "file_wrote ip (unat off) (map f [0..<0 + unat n]) s s1"
    then have t1: "tx me [] (Suc 0) s1" and w1: "file_wrote ip (unat off) ?bs s s1" by simp_all
    note T = writei_tail [OF w1 t1 ok o, where e = "off + n"]
    show "ok_res (bind_res (if ?bs \<noteq> [] \<and> off + n > i_size (inodes s1 ! ip)
        then iupdate me ip (upd_inode ip (\<lambda>y. y\<lparr>i_size := off + n\<rparr>) s1) else Inr s1) (\<lambda>s2. Inr (int (unat n), s2)))
      (\<lambda>(r, s'). r = int (unat n) \<and>
       content s' ip = replace_at (content s ip) (unat off) (map f [0..<unat n]) \<and>
       file_ok s' ip \<and> synced s' ip \<and> fs_ok s' \<and> tx me [] 0 s' \<and> fs_frame s s' \<and>
       (\<forall>jp. jp \<noteq> ip \<longrightarrow> file_ok s jp \<longrightarrow> file_blocks s (inodes s ! jp) \<inter> file_blocks s (inodes s ! ip) = {} \<longrightarrow>
          content s' jp = content s jp \<and> file_ok s' jp \<and>
          (synced s jp \<longrightarrow> i_inum (inodes s ! jp) \<noteq> i_inum (inodes s ! ip) \<longrightarrow> synced s' jp)))"
      by (rule ok_res_seq [OF T]) (use mx sum in simp_all)
  qed
qed

text \<open>
  Property C5.  Writing a file.  A write that starts past the end of the file, wraps around or would pass the largest
  file size is refused.  Otherwise \<open>writei\<close> returns \<open>n\<close> and the content of the file is the old one with the bytes of
  the source in place of those from the offset on, extended at the end when they reach past it; the inode on disk is
  that of the cache; other files keep their content and their inodes.  The write needs room for six blocks in the log
  for each of the \<open>q\<close> blocks that it touches and one for the inode, and two free blocks for each.
\<close>

theorem writei_replaces:
  assumes t: "tx me [] (6 * q + 1) s" and ok: "fs_ok s" "file_ok s ip" "synced s ip"
    and q: "unat off mod BSIZE + unat n \<le> q * BSIZE" "2 * q \<le> card (free_blocks s)"
    and src: "\<And>j. j < unat n \<Longrightarrow> src j = Inr (f j)"
  shows "if off > i_size (inodes s ! ip) \<or> off + n < off \<or> off + n > of_nat (MAXFILE * BSIZE) then writei me ip src off n s = Inr (-1, s)
    else \<exists>s'. writei me ip src off n s = Inr (int (unat n), s') \<and>
         content s' ip = replace_at (content s ip) (unat off) (map f [0..<unat n]) \<and>
         file_ok s' ip \<and> synced s' ip \<and> fs_ok s' \<and> tx me [] 0 s' \<and> fs_frame s s' \<and>
         (\<forall>jp. jp \<noteq> ip \<longrightarrow> file_ok s jp \<longrightarrow> file_blocks s (inodes s ! jp) \<inter> file_blocks s (inodes s ! ip) = {} \<longrightarrow>
            content s' jp = content s jp \<and> file_ok s' jp \<and>
            (synced s jp \<longrightarrow> i_inum (inodes s ! jp) \<noteq> i_inum (inodes s ! ip) \<longrightarrow> synced s' jp))"
proof (cases "off > i_size (inodes s ! ip) \<or> off + n < off \<or> off + n > of_nat (MAXFILE * BSIZE)")
  case True
  moreover have "i_type (inodes s ! ip) \<noteq> T_DEV" using ok(2) by (simp add: file_ok_def Let_def)
  ultimately show ?thesis by (auto simp: writei_def)
next
  case False
  show ?thesis
    unfolding if_not_P [OF False] using writei_in_range [OF t ok q src False] by (auto simp: ok_res_iff)
qed

theorem writei_replaces_witness:
  "\<exists>s'. writei 0 2 (bytes_src [7, 8, 9]) 31 3 fs_boot = Inr (3, s') \<and>
     content s' 2 = take 31 boot_dir @ [7, 8, 9] \<and> content s' 0 = []"
proof -
  have sz: "i_size (inodes fs_boot ! 2) = 32" "inodes fs_boot ! 2 = boot_root" "inodes fs_boot ! 0 = boot_inode"
    by (simp_all add: fs_boot_simps boot_root_def)
  have dj: "file_blocks fs_boot boot_inode = {}"
    by (auto simp: file_blocks_def blk_at_def boot_inode_def nth_Cons')
  have l: "length boot_dir = BSIZE" by (simp add: boot_dir_def)
  then have r: "replace_at (take 32 boot_dir) 31 [7, 8, 9] = take 31 boot_dir @ [7, 8, 9]"
    by (simp add: replace_at_def)
  have m: "map ((!) [7, 8, 9]) [0..<unat (3 :: u32)] = [7, 8, 9 :: u8]" by (simp add: upt_rec nth_Cons')
  have "unat (31 :: u32) mod BSIZE + unat (3 :: u32) \<le> 1 * BSIZE" "2 * 1 \<le> card (free_blocks fs_boot)"
    "tx 0 [] (6 * 1 + 1) fs_boot" using fs_boot_room by (simp_all add: fs_boot_tx)
  moreover have "bytes_src [7, 8, 9] j = Inr ([7, 8, 9] ! j)" for j by (simp add: bytes_src_def)
  ultimately have W: "if 31 > i_size (inodes fs_boot ! 2) \<or> (31 :: u32) + 3 < 31 \<or> (31 :: u32) + 3 > of_nat (MAXFILE * BSIZE)
    then writei 0 2 (bytes_src [7, 8, 9]) 31 3 fs_boot = Inr (-1, fs_boot)
    else \<exists>s'. writei 0 2 (bytes_src [7, 8, 9]) 31 3 fs_boot = Inr (int (unat (3 :: u32)), s') \<and>
         content s' 2 = replace_at (content fs_boot 2) (unat (31 :: u32)) (map ((!) [7, 8, 9]) [0..<unat (3 :: u32)]) \<and>
         file_ok s' 2 \<and> synced s' 2 \<and> fs_ok s' \<and> tx 0 [] 0 s' \<and> fs_frame fs_boot s' \<and>
         (\<forall>jp. jp \<noteq> 2 \<longrightarrow> file_ok fs_boot jp \<longrightarrow> file_blocks fs_boot (inodes fs_boot ! jp) \<inter> file_blocks fs_boot (inodes fs_boot ! 2) = {} \<longrightarrow>
            content s' jp = content fs_boot jp \<and> file_ok s' jp \<and>
            (synced fs_boot jp \<longrightarrow> i_inum (inodes fs_boot ! jp) \<noteq> i_inum (inodes fs_boot ! 2) \<longrightarrow> synced s' jp))"
    by (intro writei_replaces [OF _ fs_boot_ok fs_boot_files(4,5)])
  have no: "\<not> (31 > i_size (inodes fs_boot ! 2) \<or> (31 :: u32) + 3 < 31 \<or> (31 :: u32) + 3 > of_nat (MAXFILE * BSIZE))"
    unfolding sz(1) by simp
  from W [unfolded if_not_P [OF no] m fs_boot_files(6)] show ?thesis
    using fs_boot_files(1,3) dj r sz(3) by auto
qed

end
