(* ===== verification/Spec2Isabelle.thy ===== *)
theory Spec2Isabelle
  imports Fd_Inv Rw_Spec
begin

text \<open>A verification library for the kernel of xv6 with a fair share scheduler.\<close>

end
